(* ===== verification/Prelude.thy ===== *)
theory Prelude
  imports Main "HOL-Library.Word"
begin

unbundle bit_operations_syntax

text \<open>
  Shared vocabulary of the development: the machine words of the LP64 target, the wrap-around
  arithmetic of \<^verbatim>\<open>unsigned int\<close> and \<^verbatim>\<open>size_t\<close> written out on \<^typ>\<open>nat\<close>, the error codes the kernel
  returns, and the generic lemmas on lists, options and words that the component theories use.
\<close>

section \<open>Machine types\<close>

type_synonym u8 = "8 word"
type_synonym u16 = "16 word"
type_synonym u32 = "32 word"
type_synonym u64 = "64 word"

type_synonym addr = nat  \<comment> \<open>a \<^verbatim>\<open>void *\<close> / \<^verbatim>\<open>uintptr_t\<close> value; 0 is \<^verbatim>\<open>NULL\<close>\<close>

named_theorems wrap_simps \<open>wrap-around arithmetic away from the boundary\<close>

definition wrap32 :: "nat \<Rightarrow> nat" where
  "wrap32 n = n mod 2 ^ 32"

definition wrap64 :: "nat \<Rightarrow> nat" where
  "wrap64 n = n mod 2 ^ 64"

text \<open>C's unsigned subtraction: the result is taken modulo the width of the type.\<close>

definition sub32 :: "nat \<Rightarrow> nat \<Rightarrow> nat" where
  "sub32 a b = (a + (2 ^ 32 - b mod 2 ^ 32)) mod 2 ^ 32"

definition sub64 :: "nat \<Rightarrow> nat \<Rightarrow> nat" where
  "sub64 a b = (a + (2 ^ 64 - b mod 2 ^ 64)) mod 2 ^ 64"

lemma wrap32_small [wrap_simps]: "n < 2 ^ 32 \<Longrightarrow> wrap32 n = n"
  by (simp add: wrap32_def)

lemma wrap64_small [wrap_simps]: "n < 2 ^ 64 \<Longrightarrow> wrap64 n = n"
  by (simp add: wrap64_def)

lemma wrap32_less [simp]: "wrap32 n < 2 ^ 32"
  by (simp add: wrap32_def)

lemma wrap64_less [simp]: "wrap64 n < 2 ^ 64"
  by (simp add: wrap64_def)

lemma sub_mod_small:
  fixes a b m :: nat
  assumes "b \<le> a" "a < m"
  shows "(a + (m - b mod m)) mod m = a - b"
proof -
  have "a + (m - b mod m) = m + (a - b)"
    using assms by simp
  moreover have "(m + (a - b)) mod m = a - b"
    using assms by (subst mod_add_self1) simp
  ultimately show ?thesis by metis
qed

lemma sub32_small [wrap_simps]: "b \<le> a \<Longrightarrow> a < 2 ^ 32 \<Longrightarrow> sub32 a b = a - b"
  unfolding sub32_def by (rule sub_mod_small)

lemma sub64_small [wrap_simps]: "b \<le> a \<Longrightarrow> a < 2 ^ 64 \<Longrightarrow> sub64 a b = a - b"
  unfolding sub64_def by (rule sub_mod_small)

lemma sub_mod_wrap:
  fixes a b m :: nat
  assumes "a < b" "b < m"
  shows "(a + (m - b mod m)) mod m = m + a - b"
  using assms by simp

lemma sub32_wrap: "a < b \<Longrightarrow> b < 2 ^ 32 \<Longrightarrow> sub32 a b = 2 ^ 32 + a - b"
  unfolding sub32_def by (rule sub_mod_wrap)

lemma sub64_wrap: "a < b \<Longrightarrow> b < 2 ^ 64 \<Longrightarrow> sub64 a b = 2 ^ 64 + a - b"
  unfolding sub64_def by (rule sub_mod_wrap)

lemma wrap64_over: "2 ^ 64 \<le> a \<Longrightarrow> a < 2 * 2 ^ 64 \<Longrightarrow> wrap64 a = a - 2 ^ 64"
  by (simp add: wrap64_def le_mod_geq)

lemma u8_eqI:
  "bit x 0 = bit y 0 \<Longrightarrow> bit x 1 = bit y 1 \<Longrightarrow> bit x 2 = bit y 2 \<Longrightarrow> bit x 3 = bit y 3 \<Longrightarrow> bit x 4 = bit y 4
    \<Longrightarrow> bit x 5 = bit y 5 \<Longrightarrow> bit x 6 = bit y 6 \<Longrightarrow> bit x 7 = bit y 7 \<Longrightarrow> x = (y :: u8)"
proof (rule bit_word_eqI)
  fix n assume a: "n < LENGTH(8)" "bit x 0 = bit y 0" "bit x 1 = bit y 1" "bit x 2 = bit y 2" "bit x 3 = bit y 3" "bit x 4 = bit y 4"
    "bit x 5 = bit y 5" "bit x 6 = bit y 6" "bit x 7 = bit y 7"
  have "n < 8" using a(1) by simp
  then consider "n = 0" | "n = 1" | "n = 2" | "n = 3" | "n = 4" | "n = 5" | "n = 6" | "n = 7" by linarith
  then show "bit x n = bit y n" by cases (use a in simp_all)
qed

end
