(* ===== verification/Bitmap.thy ===== *)
theory Bitmap
  imports Prelude
begin

text \<open>
  Bit sets in arrays of \<^verbatim>\<open>unsigned long\<close>: \<^verbatim>\<open>lib/libds/bit/bit.h\<close>, \<^verbatim>\<open>lib/libds/bitmap/bitmap.h\<close> and
  the word-at-a-time search of \<^verbatim>\<open>bitmap_find_bit.c\<close>.  A bitmap is the list of its 64-bit words.
  The search is shown equal to the scan of the bits one by one.
\<close>

unbundle bit_operations_syntax

section \<open>Definitions\<close>

type_synonym bitmap = "u64 list"

abbreviation (input) LONG_BIT :: nat where "LONG_BIT \<equiv> 64"

definition BITMAP_SIZE :: "nat \<Rightarrow> nat" where
  "BITMAP_SIZE nbits = (nbits + 64 - 1) div 64"

definition BITMAP_OFFSET :: "nat \<Rightarrow> nat" where
  "BITMAP_OFFSET b = b div 64"

definition BITMAP_SHIFT :: "nat \<Rightarrow> nat" where
  "BITMAP_SHIFT b = b mod 64"

definition BITMAP_MASK :: "nat \<Rightarrow> u64" where
  "BITMAP_MASK b = push_bit (BITMAP_SHIFT b) 1"

text \<open>The compiler's count-trailing-zeros builtin, as a scan from bit \<open>n\<close> upwards.\<close>

function ctzl_from :: "u64 \<Rightarrow> nat \<Rightarrow> nat" where
  "ctzl_from x n = (if n \<ge> LONG_BIT then LONG_BIT else if bit x n then n else ctzl_from x (Suc n))"
  by pat_completeness auto
termination
  by (relation "measure (\<lambda>(x, n). LONG_BIT - n)") auto

declare ctzl_from.simps [simp del]

definition bit_ctz :: "u64 \<Rightarrow> nat" where
  "bit_ctz x = (if x \<noteq> 0 then ctzl_from x 0 else LONG_BIT)"

text \<open>The count-leading-zeros builtin, as a scan from the top bit downwards.\<close>

fun clzl_from :: "u64 \<Rightarrow> nat \<Rightarrow> nat" where
  "clzl_from x 0 = LONG_BIT"
| "clzl_from x (Suc n) = (if bit x n then LONG_BIT - 1 - n else clzl_from x n)"

definition bit_clz :: "u64 \<Rightarrow> nat" where
  "bit_clz x = (if x \<noteq> 0 then clzl_from x LONG_BIT else LONG_BIT)"

definition bit_ffs :: "u64 \<Rightarrow> nat" where
  "bit_ffs x = (if x = 0 then 0 else ctzl_from x 0 + 1)"

definition bit_fls :: "u64 \<Rightarrow> nat" where
  "bit_fls x = LONG_BIT - bit_clz x"

definition bitmap_set_bit :: "bitmap \<Rightarrow> nat \<Rightarrow> bitmap" where
  "bitmap_set_bit bm b = bm[BITMAP_OFFSET b := (bm ! BITMAP_OFFSET b) OR BITMAP_MASK b]"

definition bitmap_clear_bit :: "bitmap \<Rightarrow> nat \<Rightarrow> bitmap" where
  "bitmap_clear_bit bm b = bm[BITMAP_OFFSET b := (bm ! BITMAP_OFFSET b) AND NOT (BITMAP_MASK b)]"

definition bitmap_toggle_bit :: "bitmap \<Rightarrow> nat \<Rightarrow> bitmap" where
  "bitmap_toggle_bit bm b = bm[BITMAP_OFFSET b := (bm ! BITMAP_OFFSET b) XOR BITMAP_MASK b]"

definition bitmap_test_bit :: "bitmap \<Rightarrow> nat \<Rightarrow> u64" where
  "bitmap_test_bit bm b = 1 AND drop_bit (BITMAP_SHIFT b) (bm ! BITMAP_OFFSET b)"

text \<open>\<^verbatim>\<open>memset\<close> over the words that hold \<open>nbits\<close> bits; the words behind them stay.\<close>

definition bitmap_set_all :: "bitmap \<Rightarrow> nat \<Rightarrow> bitmap" where
  "bitmap_set_all bm nbits = replicate (BITMAP_SIZE nbits) (NOT 0) @ drop (BITMAP_SIZE nbits) bm"

definition bitmap_clear_all :: "bitmap \<Rightarrow> nat \<Rightarrow> bitmap" where
  "bitmap_clear_all bm nbits = replicate (BITMAP_SIZE nbits) 0 @ drop (BITMAP_SIZE nbits) bm"

text \<open>
  The body of the search loop: the word \<open>iter\<close>, complemented when a zero bit is wanted, with the
  bits below \<open>start\<close> and above \<open>nbits - 1\<close> masked off in the first and in the last word.
\<close>

definition find_bit_word :: "bitmap \<Rightarrow> nat \<Rightarrow> nat \<Rightarrow> bool \<Rightarrow> nat \<Rightarrow> u64" where
  "find_bit_word bm nbits start zero_bit iter =
     (let bits = bm ! iter;
          bits = (if zero_bit then NOT bits else bits);
          bits = (if iter = BITMAP_OFFSET start
                  then bits AND push_bit (BITMAP_SHIFT start) (NOT 0) else bits);
          bits = (if iter = BITMAP_OFFSET (nbits - 1)
                  then bits AND drop_bit (LONG_BIT - 1 - BITMAP_SHIFT (nbits - 1)) (NOT 0) else bits)
      in bits)"

function find_bit_loop :: "bitmap \<Rightarrow> nat \<Rightarrow> nat \<Rightarrow> bool \<Rightarrow> nat \<Rightarrow> nat" where
  "find_bit_loop bm nbits start zero_bit iter =
     (if iter \<le> BITMAP_OFFSET (nbits - 1) then
        let bits = find_bit_word bm nbits start zero_bit iter
        in if bits \<noteq> 0 then LONG_BIT * iter + bit_ctz bits
           else find_bit_loop bm nbits start zero_bit (Suc iter)
      else nbits)"
  by pat_completeness auto
termination
  by (relation "measure (\<lambda>(bm, nbits, start, z, iter). Suc (BITMAP_OFFSET (nbits - 1)) - iter)") auto

declare find_bit_loop.simps [simp del]

definition bitmap_find_bit_gen :: "bitmap \<Rightarrow> nat \<Rightarrow> nat \<Rightarrow> bool \<Rightarrow> nat" where
  "bitmap_find_bit_gen bm nbits start zero_bit =
     (if start \<ge> nbits then nbits
      else find_bit_loop bm nbits start zero_bit (BITMAP_OFFSET start))"

definition bitmap_find_bit :: "bitmap \<Rightarrow> nat \<Rightarrow> nat \<Rightarrow> nat" where
  "bitmap_find_bit bm nbits start = bitmap_find_bit_gen bm nbits start False"

definition bitmap_find_zero_bit :: "bitmap \<Rightarrow> nat \<Rightarrow> nat \<Rightarrow> nat" where
  "bitmap_find_zero_bit bm nbits start = bitmap_find_bit_gen bm nbits start True"

definition bitmap_find_first_bit :: "bitmap \<Rightarrow> nat \<Rightarrow> nat" where
  "bitmap_find_first_bit bm nbits = bitmap_find_bit bm nbits 0"

section \<open>Abstraction: a bitmap as a predicate on bit numbers\<close>

definition bm_bit :: "bitmap \<Rightarrow> nat \<Rightarrow> bool" where
  "bm_bit bm i = bit (bm ! (i div 64)) (i mod 64)"

definition bm_covers :: "bitmap \<Rightarrow> nat \<Rightarrow> bool" where
  "bm_covers bm n \<longleftrightarrow> n \<le> 64 * length bm"

text \<open>The reference for the search: the first index of the range whose bit differs from \<open>zero_bit\<close>.\<close>

definition find_bit_ref :: "bitmap \<Rightarrow> nat \<Rightarrow> nat \<Rightarrow> bool \<Rightarrow> nat" where
  "find_bit_ref bm nbits start zero_bit =
     (case find (\<lambda>i. bm_bit bm i \<noteq> zero_bit) [start..<nbits] of None \<Rightarrow> nbits | Some i \<Rightarrow> i)"

lemmas bitmap_index_defs = BITMAP_OFFSET_def BITMAP_SHIFT_def BITMAP_MASK_def

section \<open>Single bits\<close>

lemma div_mod_64_eq: "(i::nat) div 64 = b div 64 \<Longrightarrow> i mod 64 = b mod 64 \<Longrightarrow> i = b"
  by (metis div_mult_mod_eq)

lemma bit_BITMAP_MASK: "k < 64 \<Longrightarrow> bit (BITMAP_MASK b) k \<longleftrightarrow> k = b mod 64"
  by (auto simp: bitmap_index_defs bit_simps)

lemma length_bitmap_ops [simp]:
  "length (bitmap_set_bit bm b) = length bm"
  "length (bitmap_clear_bit bm b) = length bm"
  "length (bitmap_toggle_bit bm b) = length bm"
  by (simp_all add: bitmap_set_bit_def bitmap_clear_bit_def bitmap_toggle_bit_def)

lemma bm_bit_set:
  assumes "b < 64 * length bm"
  shows "bm_bit (bitmap_set_bit bm b) i \<longleftrightarrow> i = b \<or> bm_bit bm i"
proof -
  have len: "b div 64 < length bm" using assms by (simp add: less_mult_imp_div_less mult.commute)
  show ?thesis
    using len div_mod_64_eq [of i b]
    by (auto simp: bm_bit_def bitmap_set_bit_def BITMAP_OFFSET_def nth_list_update bit_or_iff
        bit_BITMAP_MASK)
qed

lemma bm_bit_clear:
  assumes "b < 64 * length bm"
  shows "bm_bit (bitmap_clear_bit bm b) i \<longleftrightarrow> i \<noteq> b \<and> bm_bit bm i"
proof -
  have len: "b div 64 < length bm" using assms by (simp add: less_mult_imp_div_less mult.commute)
  show ?thesis
    using len div_mod_64_eq [of i b]
    by (auto simp: bm_bit_def bitmap_clear_bit_def BITMAP_OFFSET_def nth_list_update bit_and_iff
        bit_not_iff bit_BITMAP_MASK)
qed

lemma bm_bit_toggle:
  assumes "b < 64 * length bm"
  shows "bm_bit (bitmap_toggle_bit bm b) i \<longleftrightarrow> (i = b) \<noteq> bm_bit bm i"
proof -
  have len: "b div 64 < length bm" using assms by (simp add: less_mult_imp_div_less mult.commute)
  show ?thesis
    using len div_mod_64_eq [of i b]
    by (auto simp: bm_bit_def bitmap_toggle_bit_def BITMAP_OFFSET_def nth_list_update bit_xor_iff
        bit_BITMAP_MASK)
qed

lemma bitmap_test_bit_iff: "bitmap_test_bit bm b \<noteq> 0 \<longleftrightarrow> bm_bit bm b"
  by (simp add: bitmap_test_bit_def bm_bit_def bitmap_index_defs bit_iff_odd_drop_bit
      one_and_eq odd_iff_mod_2_eq_one)

lemma bitmap_test_bit_eq: "bitmap_test_bit bm b = of_bool (bm_bit bm b)"
  by (simp add: bitmap_test_bit_def bm_bit_def bitmap_index_defs bit_iff_odd_drop_bit
      one_and_eq odd_iff_mod_2_eq_one)

lemma bm_bit_set_all:
  assumes "i < nbits"
  shows "bm_bit (bitmap_set_all bm nbits) i" and "\<not> bm_bit (bitmap_clear_all bm nbits) i"
proof -
  have "i div 64 < BITMAP_SIZE nbits"
    using assms by (simp add: BITMAP_SIZE_def)
  then show "bm_bit (bitmap_set_all bm nbits) i" "\<not> bm_bit (bitmap_clear_all bm nbits) i"
    by (simp_all add: bm_bit_def bitmap_set_all_def bitmap_clear_all_def nth_append bit_not_iff)
qed

lemmas bm_bit_ops = bm_bit_set bm_bit_clear bm_bit_toggle

section \<open>The search\<close>

lemma ctzl_from_least:
  assumes "n \<le> k" "k < 64" "bit x k" "\<forall>j. n \<le> j \<and> j < k \<longrightarrow> \<not> bit x j"
  shows "ctzl_from x n = k"
  using assms
proof (induction x n rule: ctzl_from.induct)
  case (1 x n)
  show ?case
  proof (cases "n = k")
    case True
    with 1 show ?thesis by (simp add: ctzl_from.simps [of x k])
  next
    case False
    with "1.prems" have "\<not> bit x n" "n < 64" "Suc n \<le> k" by auto
    with 1 show ?thesis by (simp add: ctzl_from.simps [of x n])
  qed
qed

lemma word_neq_0_least_bit:
  fixes x :: u64
  assumes "x \<noteq> 0"
  obtains k where "k < 64" "bit x k" "\<forall>j < k. \<not> bit x j"
proof -
  from assms obtain m where m: "bit x m" by (metis bit_eqI bit_0_eq bot_apply bot_bool_def)
  define k where "k = (LEAST k. bit x k)"
  have "bit x k" unfolding k_def using m by (rule LeastI)
  moreover have "\<forall>j < k. \<not> bit x j" unfolding k_def using not_less_Least by blast
  moreover have "k < 64" using \<open>bit x k\<close> bit_imp_le_length [of x k] by simp
  ultimately show thesis using that by blast
qed

lemma bit_ctz_spec:
  assumes "x \<noteq> 0"
  shows "bit_ctz x < 64" "bit x (bit_ctz x)" "j < bit_ctz x \<Longrightarrow> \<not> bit x j"
proof -
  obtain k where k: "k < 64" "bit x k" "\<forall>j < k. \<not> bit x j"
    using word_neq_0_least_bit [OF assms] .
  then have "bit_ctz x = k" using assms by (simp add: bit_ctz_def ctzl_from_least)
  with k show "bit_ctz x < 64" "bit x (bit_ctz x)" "j < bit_ctz x \<Longrightarrow> \<not> bit x j" by auto
qed

lemma bit_find_bit_word:
  assumes "k < 64"
  shows "bit (find_bit_word bm nbits start z iter) k \<longleftrightarrow>
     bit (bm ! iter) k \<noteq> z \<and> (iter = start div 64 \<longrightarrow> start mod 64 \<le> k)
       \<and> (iter = (nbits - 1) div 64 \<longrightarrow> k \<le> (nbits - 1) mod 64)"
proof -
  have "(nbits - 1) mod 64 < 64" by simp
  with assms show ?thesis
    by (auto simp: find_bit_word_def Let_def bitmap_index_defs bit_and_iff bit_not_iff
        bit_push_bit_iff bit_drop_bit_eq bit_mask_iff)
qed

lemma bit_find_bit_word_iff:
  assumes "k < 64" "start < nbits" "start div 64 \<le> iter" "iter \<le> (nbits - 1) div 64"
  shows "bit (find_bit_word bm nbits start z iter) k \<longleftrightarrow>
     bm_bit bm (64 * iter + k) \<noteq> z \<and> start \<le> 64 * iter + k \<and> 64 * iter + k < nbits"
proof -
  have s: "start = 64 * (start div 64) + start mod 64"
    and n: "nbits - 1 = 64 * ((nbits - 1) div 64) + (nbits - 1) mod 64" by simp_all
  have 1: "(iter = start div 64 \<longrightarrow> start mod 64 \<le> k) \<longleftrightarrow> start \<le> 64 * iter + k"
  proof (cases "iter = start div 64")
    case True
    then show ?thesis using s by linarith
  next
    case False
    then have "start div 64 < iter" using assms by simp
    moreover have "start mod 64 < 64" by simp
    ultimately have "start \<le> 64 * iter + k" using s by linarith
    with False show ?thesis by simp
  qed
  have 2: "(iter = (nbits - 1) div 64 \<longrightarrow> k \<le> (nbits - 1) mod 64) \<longleftrightarrow> 64 * iter + k < nbits"
  proof (cases "iter = (nbits - 1) div 64")
    case True
    then show ?thesis using n assms by linarith
  next
    case False
    then have "iter < (nbits - 1) div 64" using assms by simp
    then have "64 * iter + k < nbits" using n assms by linarith
    with False show ?thesis by simp
  qed
  have "bm_bit bm (64 * iter + k) = bit (bm ! iter) k"
    using assms(1) by (simp add: bm_bit_def)
  with 1 2 show ?thesis by (simp add: bit_find_bit_word assms(1))
qed

lemma find_append_None: "find P xs = None \<Longrightarrow> find P (xs @ ys) = find P ys"
  by (induction xs) (auto split: if_splits)

lemma find_eq_Some_least:
  assumes "start \<le> r" "r < nbits" "P r" "\<And>i. start \<le> i \<Longrightarrow> i < r \<Longrightarrow> \<not> P i"
  shows "find P [start..<nbits] = Some r"
proof -
  have split: "[start..<nbits] = [start..<r] @ r # [Suc r..<nbits]"
    using assms by (metis upt_add_eq_append upt_conv_Cons le_add_diff_inverse less_imp_le)
  have "find P [start..<r] = None" using assms(4) by (auto simp: find_None_iff)
  then show ?thesis using assms(3) by (simp only: split find_append_None) simp
qed

lemma find_bit_loop_ref:
  assumes "start < nbits" "start div 64 \<le> iter"
    and "\<And>i. start \<le> i \<Longrightarrow> i < 64 * iter \<Longrightarrow> i < nbits \<Longrightarrow> bm_bit bm i = z"
  shows "find_bit_loop bm nbits start z iter = find_bit_ref bm nbits start z"
  using assms
proof (induction bm nbits start z iter rule: find_bit_loop.induct)
  case (1 bm nbits start z iter)
  let ?w = "find_bit_word bm nbits start z iter"
  show ?case
  proof (cases "iter \<le> (nbits - 1) div 64")
    case False
    then have *: "nbits \<le> 64 * iter" using "1.prems"(1) by linarith
    have "find (\<lambda>i. bm_bit bm i \<noteq> z) [start..<nbits] = None"
      using "1.prems"(3) * by (auto simp: find_None_iff)
    with False show ?thesis
      by (simp add: find_bit_loop.simps [of bm nbits] find_bit_ref_def BITMAP_OFFSET_def)
  next
    case le: True
    have wbit: "\<And>k. k < 64 \<Longrightarrow> bit ?w k \<longleftrightarrow>
      bm_bit bm (64 * iter + k) \<noteq> z \<and> start \<le> 64 * iter + k \<and> 64 * iter + k < nbits"
      using bit_find_bit_word_iff "1.prems"(1,2) le by blast
    show ?thesis
    proof (cases "?w = 0")
      case True
      have step: "bm_bit bm i = z" if "start \<le> i" "i < 64 * Suc iter" "i < nbits" for i
      proof (cases "i < 64 * iter")
        case True
        with "1.prems"(3) that show ?thesis by blast
      next
        case False
        then have "i - 64 * iter < 64" "64 * iter + (i - 64 * iter) = i" using that by auto
        with wbit [of "i - 64 * iter"] that \<open>?w = 0\<close> show ?thesis by simp
      qed
      have "find_bit_loop bm nbits start z (Suc iter) = find_bit_ref bm nbits start z"
        using "1.IH" le True "1.prems"(1,2) step by (simp add: BITMAP_OFFSET_def)
      with le True show ?thesis
        by (simp add: find_bit_loop.simps [of bm nbits start z iter] BITMAP_OFFSET_def)
    next
      case False
      note ctz = bit_ctz_spec [OF False]
      let ?r = "64 * iter + bit_ctz ?w"
      have r: "bm_bit bm ?r \<noteq> z" "start \<le> ?r" "?r < nbits"
        using wbit ctz(1,2) by auto
      have "bm_bit bm i = z" if "start \<le> i" "i < ?r" for i
      proof (cases "i < 64 * iter")
        case True
        with "1.prems"(3) that r(3) show ?thesis by auto
      next
        case False
        then have "i - 64 * iter < bit_ctz ?w" "64 * iter + (i - 64 * iter) = i" using that by auto
        with wbit [of "i - 64 * iter"] ctz(1,3) that r(3) show ?thesis by force
      qed
      then have "find (\<lambda>i. bm_bit bm i \<noteq> z) [start..<nbits] = Some ?r"
        using r by (intro find_eq_Some_least) auto
      with le False show ?thesis
        by (simp add: find_bit_loop.simps [of bm nbits start z iter] find_bit_ref_def
            BITMAP_OFFSET_def Let_def)
    qed
  qed
qed

lemma find_bit_gen_ref: "bitmap_find_bit_gen bm nbits start z = find_bit_ref bm nbits start z"
proof (cases "start \<ge> nbits")
  case True
  then show ?thesis by (simp add: bitmap_find_bit_gen_def find_bit_ref_def)
next
  case False
  have "bm_bit bm i = z" if "start \<le> i" "i < 64 * (start div 64)" for i
    using that by (metis div_times_less_eq_dividend leD le_trans mult.commute)
  then have "find_bit_loop bm nbits start z (start div 64) = find_bit_ref bm nbits start z"
    using False by (intro find_bit_loop_ref) auto
  with False show ?thesis by (simp add: bitmap_find_bit_gen_def BITMAP_OFFSET_def)
qed

text \<open>What clients use of the search, as rules on the result.\<close>

lemma find_bit_ref_cases:
  obtains (none) "find_bit_ref bm nbits start z = nbits"
      "\<And>i. start \<le> i \<Longrightarrow> i < nbits \<Longrightarrow> bm_bit bm i = z"
  | (found) r where "find_bit_ref bm nbits start z = r" "start \<le> r" "r < nbits"
      "bm_bit bm r \<noteq> z" "\<And>i. start \<le> i \<Longrightarrow> i < r \<Longrightarrow> bm_bit bm i = z"
proof (cases "find (\<lambda>i. bm_bit bm i \<noteq> z) [start..<nbits]")
  case None
  then have "\<And>i. start \<le> i \<Longrightarrow> i < nbits \<Longrightarrow> bm_bit bm i = z"
    by (simp add: find_None_iff)
  moreover from None have "find_bit_ref bm nbits start z = nbits"
    by (simp add: find_bit_ref_def del: not_iff)
  ultimately show thesis by (rule none [rotated])
next
  case (Some r)
  then obtain j where j: "j < length [start..<nbits]" "bm_bit bm ([start..<nbits] ! j) \<noteq> z"
      "r = [start..<nbits] ! j" "\<forall>i < j. \<not> bm_bit bm ([start..<nbits] ! i) \<noteq> z"
    unfolding find_Some_iff by blast
  show thesis
  proof (rule found)
    show "find_bit_ref bm nbits start z = r" using Some by (simp add: find_bit_ref_def)
    show "start \<le> r" "r < nbits" "bm_bit bm r \<noteq> z" using j by auto
    fix i assume "start \<le> i" "i < r"
    then have "i - start < j" "[start..<nbits] ! (i - start) = i" using j by auto
    with j(4) show "bm_bit bm i = z" by metis
  qed
qed

section \<open>The interface of a bit set and its range loops\<close>

text \<open>
  What a client of the bitmap relies on: set and clear change one bit and nothing else.  The loops
  that mark a range, and those that count the bits they really change, are analysed once here.
\<close>

locale bit_set =
  fixes tst :: "'s \<Rightarrow> nat \<Rightarrow> bool"
    and st :: "'s \<Rightarrow> nat \<Rightarrow> 's"
    and clr :: "'s \<Rightarrow> nat \<Rightarrow> 's"
    and cap :: "'s \<Rightarrow> nat"
  assumes tst_st: "b < cap s \<Longrightarrow> tst (st s b) i \<longleftrightarrow> i = b \<or> tst s i"
    and tst_clr: "b < cap s \<Longrightarrow> tst (clr s b) i \<longleftrightarrow> i \<noteq> b \<and> tst s i"
    and cap_st: "cap (st s b) = cap s"
    and cap_clr: "cap (clr s b) = cap s"
begin

lemma cap_fold_st: "cap (fold (\<lambda>i s. st s i) bs s) = cap s"
  by (induction bs arbitrary: s) (auto simp: cap_st)

lemma tst_fold_st:
  "\<forall>b \<in> set bs. b < cap s \<Longrightarrow>
     tst (fold (\<lambda>i s. st s i) bs s) i \<longleftrightarrow> i \<in> set bs \<or> tst s i"
  by (induction bs arbitrary: s) (auto simp: cap_st tst_st)

lemma clear_loop:
  assumes "\<forall>b \<in> set bs. b < cap s" "distinct bs"
    and "fold (\<lambda>i (s, c). if tst s i then (clr s i, c + 1) else (s, c)) bs (s, c) = (s', c')"
  shows "cap s' = cap s \<and> (\<forall>i. tst s' i \<longleftrightarrow> tst s i \<and> i \<notin> set bs)
     \<and> c' = c + card {i \<in> set bs. tst s i}"
  using assms
proof (induction bs arbitrary: s c)
  case Nil
  then show ?case by simp
next
  case (Cons b bs)
  show ?case
  proof (cases "tst s b")
    case True
    have *: "{i \<in> set bs. tst (clr s b) i} = {i \<in> set bs. tst s i}"
      using Cons.prems tst_clr [of b s] by auto
    have "{i \<in> set (b # bs). tst s i} = insert b {i \<in> set bs. tst s i}" using True by auto
    then have "card {i \<in> set (b # bs). tst s i} = Suc (card {i \<in> set bs. tst s i})"
      using Cons.prems(2) by simp
    with True Cons.IH [of "clr s b" "c + 1"] Cons.prems * tst_clr [of b s] show ?thesis
      by (auto simp: cap_clr)
  next
    case False
    then have "{i \<in> set (b # bs). tst s i} = {i \<in> set bs. tst s i}" by auto
    with False Cons.IH [of s c] Cons.prems show ?thesis by auto
  qed
qed

lemma set_loop:
  assumes "\<forall>b \<in> set bs. b < cap s" "distinct bs"
    and "fold (\<lambda>i (s, c). if \<not> tst s i then (st s i, c + 1) else (s, c)) bs (s, c) = (s', c')"
  shows "cap s' = cap s \<and> (\<forall>i. tst s' i \<longleftrightarrow> tst s i \<or> i \<in> set bs)
     \<and> c' = c + card {i \<in> set bs. \<not> tst s i}"
  using assms
proof (induction bs arbitrary: s c)
  case Nil
  then show ?case by simp
next
  case (Cons b bs)
  show ?case
  proof (cases "tst s b")
    case False
    have *: "{i \<in> set bs. \<not> tst (st s b) i} = {i \<in> set bs. \<not> tst s i}"
      using Cons.prems tst_st [of b s] by auto
    have "{i \<in> set (b # bs). \<not> tst s i} = insert b {i \<in> set bs. \<not> tst s i}" using False by auto
    then have "card {i \<in> set (b # bs). \<not> tst s i} = Suc (card {i \<in> set bs. \<not> tst s i})"
      using Cons.prems(2) by simp
    with False Cons.IH [of "st s b" "c + 1"] Cons.prems * tst_st [of b s] show ?thesis
      by (auto simp: cap_st)
  next
    case True
    then have "{i \<in> set (b # bs). \<not> tst s i} = {i \<in> set bs. \<not> tst s i}" by auto
    with True Cons.IH [of s c] Cons.prems show ?thesis by auto
  qed
qed

end

interpretation bm: bit_set bm_bit bitmap_set_bit bitmap_clear_bit "\<lambda>bm. 64 * length bm"
  by unfold_locales (simp_all add: bm_bit_set bm_bit_clear)

section \<open>Properties\<close>

text \<open>
  C18: the word-wise search of \<^verbatim>\<open>__bitmap_find_bit\<close>, with its masks of the first and the last word,
  returns for set bits and for zero bits what the naive scan over \<open>start .. nbits - 1\<close> returns, and
  \<open>nbits\<close> when the scan finds nothing or \<open>start\<close> is not below \<open>nbits\<close>.
\<close>

theorem bitmap_find_bit_equiv:
  "bitmap_find_bit bm nbits start = find_bit_ref bm nbits start False
   \<and> bitmap_find_zero_bit bm nbits start = find_bit_ref bm nbits start True
   \<and> bitmap_find_first_bit bm nbits = find_bit_ref bm nbits 0 False"
  by (simp add: bitmap_find_bit_def bitmap_find_zero_bit_def bitmap_find_first_bit_def find_bit_gen_ref)

end
