(* ===== verification/Page_Alloc.thy ===== *)
theory Page_Alloc
  imports Bitmap
begin

text \<open>
  The page allocator of \<^verbatim>\<open>mem/pagealloc/bitmask.c\<close>: first fit over a bitmap of busy pages.  Addresses
  and sizes are \<^typ>\<open>nat\<close> with the wrap-around of \<^verbatim>\<open>unsigned int\<close> and \<^verbatim>\<open>size_t\<close> written out where the
  code computes with values that may leave their range.  A result \<^const>\<open>None\<close> of the outer option
  is a call that does not return: a failed assertion or a search that never ends.  The spinlock
  and the interrupt mask around each operation are not modelled: an operation is one atomic step.
\<close>

section \<open>Definitions\<close>

record page_allocator =
  pages_start :: addr
  pages_n :: nat
  page_size :: nat
  free :: nat
  bitmap_len :: nat
  bitmap :: bitmap

definition PAGE_NONE :: nat where
  "PAGE_NONE = 2 ^ 64 - 1"

text \<open>An \<^verbatim>\<open>int\<close> argument that meets a \<^verbatim>\<open>size_t\<close>: truncated to 32 bits, then sign-extended.\<close>

definition sext32 :: "nat \<Rightarrow> nat" where
  "sext32 n = (if wrap32 n < 2 ^ 31 then wrap32 n else wrap32 n + (2 ^ 64 - 2 ^ 32))"

definition page_ptr2i :: "page_allocator \<Rightarrow> addr \<Rightarrow> nat" where
  "page_ptr2i a page = wrap32 (sub64 page (pages_start a) div page_size a)"

definition page_i2ptr :: "page_allocator \<Rightarrow> nat \<Rightarrow> addr" where
  "page_i2ptr a i = wrap64 (pages_start a + sext32 i * page_size a)"

definition search_first_free :: "page_allocator \<Rightarrow> nat \<Rightarrow> nat" where
  "search_first_free a start_page =
     (if start_page \<ge> pages_n a then PAGE_NONE
      else let res = bitmap_find_zero_bit (bitmap a) (pages_n a) start_page
           in if res \<noteq> pages_n a then res else PAGE_NONE)"

definition check_n_free :: "page_allocator \<Rightarrow> nat \<Rightarrow> nat \<Rightarrow> nat" where
  "check_n_free a start_page page_q =
     (let nbits = min (wrap32 (start_page + page_q)) (pages_n a)
      in sub32 (bitmap_find_bit (bitmap a) nbits start_page) start_page)"

definition mark_n_busy :: "page_allocator \<Rightarrow> nat \<Rightarrow> nat \<Rightarrow> page_allocator option" where
  "mark_n_busy a start_page page_q =
     (if \<not> (wrap32 (start_page + page_q) \<le> pages_n a) then None
      else Some (a\<lparr>bitmap := fold (\<lambda>i bm. bitmap_set_bit bm i)
                               [start_page..<wrap32 (start_page + page_q)] (bitmap a),
                   free := sub64 (free a) (page_q * page_size a)\<rparr>))"

definition free_one :: "nat \<Rightarrow> bitmap \<times> nat \<Rightarrow> bitmap \<times> nat" where
  "free_one i = (\<lambda>(bm, count_free).
     if bitmap_test_bit bm i \<noteq> 0 then (bitmap_clear_bit bm i, count_free + 1) else (bm, count_free))"

text \<open>\<open>count_free\<close> is an \<^verbatim>\<open>int\<close>: counting past \<^verbatim>\<open>INT_MAX\<close> is undefined.\<close>

definition mark_n_free :: "page_allocator \<Rightarrow> nat \<Rightarrow> nat \<Rightarrow> page_allocator option" where
  "mark_n_free a start_page page_q =
     (if \<not> (wrap32 (start_page + page_q) \<le> pages_n a) then None
      else let (bm, count_free) =
                 fold free_one [start_page..<wrap32 (start_page + page_q)] (bitmap a, 0)
           in if count_free \<ge> 2 ^ 31 then None
              else Some (a\<lparr>bitmap := bm, free := wrap64 (free a + count_free * page_size a)\<rparr>))"

partial_function (option) search_loop ::
  "page_allocator \<Rightarrow> nat \<Rightarrow> nat \<Rightarrow> (addr option \<times> page_allocator) option" where
  "search_loop a page_q page_n =
     (let page_n = search_first_free a page_n
      in if page_n = PAGE_NONE then Some (None, a)
         else let found_page_q = check_n_free a page_n page_q
              in if found_page_q = page_q then
                   (case mark_n_busy a page_n page_q of
                      None \<Rightarrow> None
                    | Some a' \<Rightarrow> Some (Some (page_i2ptr a page_n), a'))
                 else search_loop a page_q (page_n + found_page_q))"

declare search_loop.simps [code]

definition search_multi_page ::
  "page_allocator \<Rightarrow> nat \<Rightarrow> (addr option \<times> page_allocator) option" where
  "search_multi_page a page_q =
     (if page_q = 0 \<or> page_q > pages_n a then Some (None, a) else search_loop a page_q 0)"

definition page_alloc :: "page_allocator \<Rightarrow> nat \<Rightarrow> (addr option \<times> page_allocator) option" where
  "page_alloc a page_q = search_multi_page a page_q"

definition page_alloc_zero ::
  "page_allocator \<Rightarrow> nat \<Rightarrow> (addr \<Rightarrow> u8)
     \<Rightarrow> (addr option \<times> page_allocator \<times> (addr \<Rightarrow> u8)) option" where
  "page_alloc_zero a page_q mem =
     (case page_alloc a page_q of
        None \<Rightarrow> None
      | Some (None, a') \<Rightarrow> Some (None, a', mem)
      | Some (Some p, a') \<Rightarrow>
          Some (Some p, a', (\<lambda>x. if p \<le> x \<and> x < p + page_q * page_size a then 0 else mem x)))"

definition page_free :: "page_allocator \<Rightarrow> addr \<Rightarrow> nat \<Rightarrow> page_allocator option" where
  "page_free a page page_q = mark_n_free a (page_ptr2i a page) (wrap32 page_q)"

text \<open>
  The header \<^verbatim>\<open>struct page_allocator\<close> takes 48 bytes on the LP64 target; the bitmap follows it.
\<close>

definition sizeof_page_allocator :: nat where
  "sizeof_page_allocator = 48"

definition binalign_bound :: "nat \<Rightarrow> nat \<Rightarrow> nat" where
  "binalign_bound x bound =
     unat ((word_of_nat x + (word_of_nat bound - 1)) AND NOT (word_of_nat bound - 1) :: u64)"

lemma sub32_1_less: "0 < p \<Longrightarrow> sub32 p (Suc 0) < p"
proof -
  assume "0 < p"
  then have "p + (2 ^ 32 - 1 mod 2 ^ 32) = (p - 1) + 2 ^ 32" by simp
  then have "sub32 p (Suc 0) = (p - 1) mod 2 ^ 32"
    unfolding sub32_def by (metis One_nat_def mod_add_self2)
  also have "\<dots> \<le> p - 1" by (rule mod_less_eq_dividend)
  finally show ?thesis using \<open>0 < p\<close> by simp
qed

function init_shrink :: "nat \<Rightarrow> nat \<Rightarrow> addr \<Rightarrow> addr \<Rightarrow> nat \<Rightarrow> (addr \<times> nat) option" where
  "init_shrink psize bm_len start p_start pages =
     (if sizeof_page_allocator + bm_len > p_start - start then
        let p_start = p_start + psize; pages = sub32 pages 1
        in if pages \<le> 0 then None else init_shrink psize bm_len start p_start pages
      else Some (p_start, pages))"
  by pat_completeness auto

termination
  by (relation "measure (\<lambda>(_, _, _, _, pages). if pages = 0 then 2 ^ 32 else pages)")
    (auto simp: sub32_1_less, simp add: sub32_def)

declare init_shrink.simps [simp del]

definition page_allocator_init ::
  "addr \<Rightarrow> nat \<Rightarrow> nat \<Rightarrow> (addr \<times> page_allocator) option" where
  "page_allocator_init start len psize =
     (if len < psize + sizeof_page_allocator then None
      else let end' = start + len;
               start = binalign_bound start 16;
               p_start = binalign_bound start psize
           in if p_start \<ge> end' then None
      else let pages = wrap32 ((end' - p_start) div psize)
           in if pages = 0 then None
      else let bm_len = 8 * BITMAP_SIZE (wrap32 (pages + 1))
           in case init_shrink psize bm_len start p_start pages of
                None \<Rightarrow> None
              | Some (p_start, pages) \<Rightarrow>
                  Some (start, \<lparr>pages_start = p_start, pages_n = pages, page_size = psize,
                     free = wrap64 (pages * psize), bitmap_len = bm_len,
                     bitmap = bitmap_set_bit (replicate (bm_len div 8) 0) pages\<rparr>))"

definition reserve_one :: "nat \<Rightarrow> bitmap \<times> nat \<Rightarrow> bitmap \<times> nat" where
  "reserve_one i = (\<lambda>(bm, taken).
     if bitmap_test_bit bm i = 0 then (bitmap_set_bit bm i, taken + 1) else (bm, taken))"

definition page_reserve :: "page_allocator \<Rightarrow> addr \<Rightarrow> nat \<Rightarrow> nat \<times> page_allocator" where
  "page_reserve a start len =
     (let base = pages_start a;
          end' = wrap64 (base + pages_n a * page_size a);
          from = start;
          to = wrap64 (from + len)
      in if to \<le> from \<or> to \<le> base \<or> from \<ge> end' then (0, a)
         else let from = (if from < base then base else from);
                  to = (if to > end' then end' else to);
                  last = wrap64 (to - base + page_size a - 1) div page_size a;
                  (bm, taken) =
                    fold reserve_one [(from - base) div page_size a..<last] (bitmap a, 0)
              in (taken, a\<lparr>bitmap := bm, free := sub64 (free a) (taken * page_size a)\<rparr>))"

definition page_belong :: "page_allocator \<Rightarrow> addr \<Rightarrow> bool" where
  "page_belong a page =
     (let pages_end = wrap64 (pages_start a + pages_n a * page_size a)
      in pages_start a \<le> page \<and> page < pages_end)"

section \<open>Abstract view and invariant\<close>

definition free_pages :: "page_allocator \<Rightarrow> nat set" where
  "free_pages a = {i. i < pages_n a \<and> \<not> bm_bit (bitmap a) i}"

definition page_inv :: "page_allocator \<Rightarrow> bool" where
  "page_inv a \<longleftrightarrow> 0 < page_size a \<and> pages_n a < 2 ^ 31 \<and> pages_n a \<le> 64 * length (bitmap a)
     \<and> page_size a \<le> pages_start a \<and> pages_start a + pages_n a * page_size a < 2 ^ 64
     \<and> free a = card (free_pages a) * page_size a"

text \<open>The pages \<open>i, \<dots>, i + q - 1\<close> exist and are free; the first such \<open>i\<close>.\<close>

definition fits :: "page_allocator \<Rightarrow> nat \<Rightarrow> nat \<Rightarrow> bool" where
  "fits a q i \<longleftrightarrow> i + q \<le> pages_n a \<and> list_all (\<lambda>j. \<not> bm_bit (bitmap a) j) [i..<i + q]"

definition first_fit :: "page_allocator \<Rightarrow> nat \<Rightarrow> nat option" where
  "first_fit a q = (if q = 0 then None else find (fits a q) [0..<pages_n a])"

text \<open>Everything but the bitmap and the byte count is as it was.\<close>

definition same_geometry :: "page_allocator \<Rightarrow> page_allocator \<Rightarrow> bool" where
  "same_geometry a b \<longleftrightarrow> pages_start b = pages_start a \<and> pages_n b = pages_n a
     \<and> page_size b = page_size a \<and> bitmap_len b = bitmap_len a"

lemma finite_free_pages [simp]: "finite (free_pages a)"
  by (simp add: free_pages_def)

lemma fits_iff: "fits a q i \<longleftrightarrow> i + q \<le> pages_n a \<and> (\<forall>j. i \<le> j \<and> j < i + q \<longrightarrow> \<not> bm_bit (bitmap a) j)"
  by (auto simp: fits_def list_all_iff)

section \<open>Marking\<close>

lemma mark_n_busy_ok:
  assumes inv: "page_inv a" and fit: "fits a q i"
  obtains a' where "mark_n_busy a i q = Some a'" "page_inv a'"
    "same_geometry a a'"
    "\<And>j. bm_bit (bitmap a') j \<longleftrightarrow> bm_bit (bitmap a) j \<or> i \<le> j \<and> j < i + q"
    "free a' = free a - q * page_size a" "length (bitmap a') = length (bitmap a)"
proof -
  have q: "i + q \<le> pages_n a" "\<And>j. i \<le> j \<Longrightarrow> j < i + q \<Longrightarrow> \<not> bm_bit (bitmap a) j"
    using fit by (auto simp: fits_iff)
  have n: "pages_n a < 2 ^ 31" "pages_n a \<le> 64 * length (bitmap a)"
      "pages_start a + pages_n a * page_size a < 2 ^ 64"
      "free a = card (free_pages a) * page_size a" using inv by (auto simp: page_inv_def)
  have w: "wrap32 (i + q) = i + q" using q n by (intro wrap32_small) simp
  let ?bm = "fold (\<lambda>i bm. bitmap_set_bit bm i) [i..<i + q] (bitmap a)"
  have bits: "bm_bit ?bm j \<longleftrightarrow> bm_bit (bitmap a) j \<or> i \<le> j \<and> j < i + q" for j
    using bm.tst_fold_st [of "[i..<i + q]" "bitmap a" j] q n by auto
  have len: "length ?bm = length (bitmap a)"
    using bm.cap_fold_st [of "[i..<i + q]" "bitmap a"] by simp
  have sub: "{i..<i + q} \<subseteq> free_pages a" using q by (auto simp: free_pages_def)
  have fp: "card (free_pages a - {i..<i + q}) = card (free_pages a) - q"
    using sub by (simp add: card_Diff_subset)
  have "q \<le> card (free_pages a)" using card_mono [OF finite_free_pages sub] by simp
  then have qf: "q * page_size a \<le> free a" by (simp add: n(4))
  have "card (free_pages a) \<le> pages_n a"
    using card_mono [of "{..<pages_n a}" "free_pages a"] by (auto simp: free_pages_def)
  then have "free a \<le> pages_n a * page_size a" by (simp add: n(4))
  then have s: "sub64 (free a) (q * page_size a) = free a - q * page_size a"
    using qf n(3) by (intro sub64_small) simp_all
  define a' where "a' = a\<lparr>bitmap := ?bm, free := free a - q * page_size a\<rparr>"
  have "free_pages a' = free_pages a - {i..<i + q}"
    by (auto simp: a'_def free_pages_def bits)
  then have inv': "page_inv a'"
    using inv by (simp add: page_inv_def a'_def len fp diff_mult_distrib)
  have "mark_n_busy a i q = Some a'"
    using q(1) by (simp add: mark_n_busy_def w s a'_def)
  from this inv' show thesis by (rule that) (simp_all add: a'_def bits len same_geometry_def)
qed

lemma free_one_eq:
  "free_one = (\<lambda>i (bm, c). if bm_bit bm i then (bitmap_clear_bit bm i, c + 1) else (bm, c))"
  by (simp add: free_one_def bitmap_test_bit_iff fun_eq_iff)

lemma reserve_one_eq:
  "reserve_one = (\<lambda>i (bm, c). if \<not> bm_bit bm i then (bitmap_set_bit bm i, c + 1) else (bm, c))"
  by (auto simp: reserve_one_def bitmap_test_bit_eq fun_eq_iff)

lemma mark_n_free_ok:
  assumes inv: "page_inv a" and q: "i + q \<le> pages_n a"
  obtains a' where "mark_n_free a i q = Some a'" "page_inv a'"
    "same_geometry a a'"
    "\<And>j. bm_bit (bitmap a') j \<longleftrightarrow> bm_bit (bitmap a) j \<and> \<not> (i \<le> j \<and> j < i + q)"
    "length (bitmap a') = length (bitmap a)"
proof -
  have n: "pages_n a < 2 ^ 31" "pages_n a \<le> 64 * length (bitmap a)"
      "pages_start a + pages_n a * page_size a < 2 ^ 64"
      "free a = card (free_pages a) * page_size a" using inv by (auto simp: page_inv_def)
  have w: "wrap32 (i + q) = i + q" using q n by (intro wrap32_small) simp
  obtain bm' c where f: "fold free_one [i..<i + q] (bitmap a, 0) = (bm', c)" by fastforce
  have res: "length bm' = length (bitmap a)"
    "\<And>j. bm_bit bm' j \<longleftrightarrow> bm_bit (bitmap a) j \<and> \<not> (i \<le> j \<and> j < i + q)"
    "c = card {j \<in> {i..<i + q}. bm_bit (bitmap a) j}"
    using bm.clear_loop [of "[i..<i + q]" "bitmap a" 0 bm' c] f q n by (auto simp: free_one_eq)
  define a' where "a' = a\<lparr>bitmap := bm', free := free a + c * page_size a\<rparr>"
  have fp: "free_pages a' = free_pages a \<union> {j \<in> {i..<i + q}. bm_bit (bitmap a) j}"
    using q by (auto simp: a'_def free_pages_def res)
  have "free_pages a \<inter> {j \<in> {i..<i + q}. bm_bit (bitmap a) j} = {}" by (auto simp: free_pages_def)
  then have cf: "card (free_pages a') = card (free_pages a) + c"
    by (simp add: fp res(3) card_Un_disjoint)
  have "card (free_pages a') \<le> card {..<pages_n a}"
    by (intro card_mono) (auto simp: free_pages_def a'_def)
  then have c31: "c < 2 ^ 31" and le: "(card (free_pages a) + c) * page_size a \<le> pages_n a * page_size a" using n(1) by (simp_all add: cf)
  from le have "free a + c * page_size a < 2 ^ 64"
    using n(3) by (simp add: n(4) add_mult_distrib)
  then have "mark_n_free a i q = Some a'"
    using q c31 by (simp add: mark_n_free_def w f a'_def wrap64_small)
  moreover have "page_inv a'"
    using inv cf by (simp add: page_inv_def a'_def res(1) add_mult_distrib)
  ultimately show thesis by (rule that [of a']) (simp_all add: a'_def res same_geometry_def)
qed

section \<open>The search\<close>

lemma PAGE_NONE_big: "page_inv a \<Longrightarrow> i \<le> pages_n a \<Longrightarrow> i \<noteq> PAGE_NONE"
  by (auto simp: page_inv_def PAGE_NONE_def)

lemma search_first_free_cases:
  assumes "page_inv a"
  obtains (none) "search_first_free a p = PAGE_NONE"
      "\<And>i. p \<le> i \<Longrightarrow> i < pages_n a \<Longrightarrow> bm_bit (bitmap a) i"
  | (found) r where "search_first_free a p = r" "r \<noteq> PAGE_NONE" "p \<le> r" "r < pages_n a"
      "\<not> bm_bit (bitmap a) r" "\<And>i. p \<le> i \<Longrightarrow> i < r \<Longrightarrow> bm_bit (bitmap a) i"
proof (cases "p \<ge> pages_n a")
  case True
  then show thesis by (intro none) (simp_all add: search_first_free_def)
next
  case False
  show thesis
  proof (cases rule: find_bit_ref_cases [of "bitmap a" "pages_n a" p True])
    case none
    then show thesis using False
      by (intro that(1)) (simp_all add: search_first_free_def bitmap_find_zero_bit_def find_bit_gen_ref)
  next
    case (found r)
    then show thesis using False PAGE_NONE_big [OF assms, of r]
      by (intro that(2)) (simp_all add: search_first_free_def bitmap_find_zero_bit_def find_bit_gen_ref)
  qed
qed

lemma check_n_free_cases:
  assumes inv: "page_inv a" and r: "r < pages_n a" "\<not> bm_bit (bitmap a) r"
    and q: "0 < q" "q \<le> pages_n a"
  obtains (fit) "check_n_free a r q = q" "fits a q r"
  | (less) "check_n_free a r q \<noteq> q" "0 < check_n_free a r q" "r + check_n_free a r q \<le> pages_n a"
      "\<And>i. r \<le> i \<Longrightarrow> i < r + check_n_free a r q \<Longrightarrow> \<not> fits a q i"
proof -
  have n: "pages_n a < 2 ^ 31" using inv by (auto simp: page_inv_def)
  let ?n = "min (r + q) (pages_n a)"
  have w: "wrap32 (r + q) = r + q" using r q n by (intro wrap32_small) simp
  have rn: "r < ?n" using r q by simp
  show thesis
  proof (cases rule: find_bit_ref_cases [of "bitmap a" ?n r False])
    case none
    have c: "check_n_free a r q = ?n - r"
      using none(1) w n r by (simp add: check_n_free_def bitmap_find_bit_def find_bit_gen_ref sub32_small)
    show thesis
    proof (cases "r + q \<le> pages_n a")
      case True
      with c none(2) show thesis by (intro fit) (auto simp: fits_iff)
    next
      case False
      with c r show thesis by (intro less) (auto simp: fits_iff)
    qed
  next
    case (found b)
    have c: "check_n_free a r q = b - r"
      using found(1-3) w n r
      by (simp add: check_n_free_def bitmap_find_bit_def find_bit_gen_ref sub32_small)
    have "b \<noteq> r" using found r by auto
    with found have b: "r < b" by simp
    show thesis
    proof (rule less)
      show "check_n_free a r q \<noteq> q" "0 < check_n_free a r q" "r + check_n_free a r q \<le> pages_n a"
        using c b found by auto
      fix i assume i: "r \<le> i" "i < r + check_n_free a r q"
      then have "i \<le> b" "b < i + q" using c b found by auto
      with found(4) show "\<not> fits a q i" by (auto simp: fits_iff)
    qed
  qed
qed

lemma find_drop_None:
  assumes "\<And>i. i < k \<Longrightarrow> \<not> P i"
  shows "find P [0..<n] = find P [k..<n]"
proof (cases "k \<le> n")
  case True
  then have "[0..<n] = [0..<k] @ [k..<n]"
    by (metis le_add_diff_inverse plus_nat.add_0 upt_add_eq_append zero_le)
  moreover have "find P [0..<k] = None" using assms by (auto simp: find_None_iff)
  ultimately show ?thesis by (simp only: find_append_None)
next
  case False
  then have "find P [0..<n] = None" using assms by (auto simp: find_None_iff)
  with False show ?thesis by simp
qed

text \<open>The loop from page \<open>p\<close> on, when no run can start below \<open>p\<close>, returns the first fit.\<close>

lemma search_loop_first_fit:
  assumes inv: "page_inv a" and q: "0 < q" "q \<le> pages_n a" and p: "p \<le> pages_n a"
    and below: "\<And>i. i < p \<Longrightarrow> \<not> fits a q i"
  shows "search_loop a q p =
     (case first_fit a q of None \<Rightarrow> Some (None, a)
      | Some i \<Rightarrow> map_option (\<lambda>a'. (Some (page_i2ptr a i), a')) (mark_n_busy a i q))"
  using p below
proof (induction "pages_n a - p" arbitrary: p rule: less_induct)
  case less
  from inv show ?case
  proof (cases rule: search_first_free_cases [of a p])
    case none
    have "\<not> fits a q i" for i
    proof (cases "i < p")
      case True
      with less.prems show ?thesis by blast
    next
      case False
      with none(2) [of i] q show ?thesis by (auto simp: fits_iff)
    qed
    then have "first_fit a q = None" by (simp add: first_fit_def find_None_iff)
    with none show ?thesis by (simp add: search_loop.simps [of a q p])
  next
    case (found r)
    have below': "\<not> fits a q i" if "i < r" for i
    proof (cases "i < p")
      case True
      with less.prems show ?thesis by blast
    next
      case False
      with found(6) [of i] that q show ?thesis by (auto simp: fits_iff)
    qed
    from inv found(4,5) q show ?thesis
    proof (cases rule: check_n_free_cases)
      case fit
      have "first_fit a q = Some r"
        using q fit(2) below' found(4)
        by (simp add: first_fit_def find_eq_Some_least)
      with fit found show ?thesis
        by (simp add: search_loop.simps [of a q p] Let_def split: option.split)
    next
      case less': less
      let ?p = "r + check_n_free a r q"
      have "\<not> fits a q i" if "i < ?p" for i
        using below' [of i] less'(4) [of i] that by (cases "i < r") auto
      moreover have "pages_n a - ?p < pages_n a - p" using less' found by simp
      ultimately have "search_loop a q ?p =
        (case first_fit a q of None \<Rightarrow> Some (None, a)
         | Some i \<Rightarrow> map_option (\<lambda>a'. (Some (page_i2ptr a i), a')) (mark_n_busy a i q))"
        using less.hyps less'(3) by blast
      with less' found show ?thesis
        by (simp add: search_loop.simps [of a q p] Let_def)
    qed
  qed
qed

lemma page_i2ptr_eq:
  assumes "page_inv a" "i < pages_n a"
  shows "page_i2ptr a i = pages_start a + i * page_size a"
proof -
  have "i < 2 ^ 31" using assms by (simp add: page_inv_def)
  then have "sext32 i = i" by (simp add: sext32_def wrap32_small)
  moreover have "i * page_size a \<le> pages_n a * page_size a" using assms by simp
  then have "pages_start a + i * page_size a < 2 ^ 64" using assms(1) unfolding page_inv_def by linarith
  ultimately show ?thesis by (simp add: page_i2ptr_def wrap64_small)
qed

lemma page_ptr2i_eq:
  assumes "page_inv a" "i < pages_n a"
  shows "page_ptr2i a (pages_start a + i * page_size a) = i"
proof -
  have "i < 2 ^ 31" and ps: "0 < page_size a" using assms by (simp_all add: page_inv_def)
  moreover have "i * page_size a \<le> pages_n a * page_size a" using assms by simp
  then have "pages_start a + i * page_size a < 2 ^ 64" using assms(1) unfolding page_inv_def by linarith
  then have "sub64 (pages_start a + i * page_size a) (pages_start a) = i * page_size a"
    by (simp add: sub64_small)
  ultimately show ?thesis by (simp add: page_ptr2i_def wrap32_small)
qed

lemma first_fit_SomeD:
  assumes "first_fit a q = Some i"
  shows "0 < q" "fits a q i" "i < pages_n a" "\<And>j. j < i \<Longrightarrow> \<not> fits a q j"
proof -
  show "0 < q" using assms by (simp add: first_fit_def split: if_splits)
  then have f: "find (fits a q) [0..<pages_n a] = Some i" using assms by (simp add: first_fit_def)
  then show "fits a q i" "i < pages_n a" "\<And>j. j < i \<Longrightarrow> \<not> fits a q j"
    by (auto simp: find_Some_iff)
qed

lemma first_fit_NoneD:
  assumes "first_fit a q = None" "0 < q"
  shows "\<not> fits a q i"
  using assms by (fastforce simp: first_fit_def find_None_iff fits_iff)

lemma page_alloc_spec:
  assumes inv: "page_inv a"
  shows "page_alloc a q =
     (case first_fit a q of None \<Rightarrow> Some (None, a)
      | Some i \<Rightarrow> map_option (\<lambda>a'. (Some (pages_start a + i * page_size a), a')) (mark_n_busy a i q))"
proof (cases "q = 0 \<or> q > pages_n a")
  case True
  have "first_fit a q = None"
  proof (rule ccontr)
    assume "first_fit a q \<noteq> None"
    then obtain i where "first_fit a q = Some i" by blast
    with first_fit_SomeD [of a q i] True show False by (simp add: fits_iff)
  qed
  with True show ?thesis by (simp add: page_alloc_def search_multi_page_def)
next
  case False
  then have "search_loop a q 0 =
     (case first_fit a q of None \<Rightarrow> Some (None, a)
      | Some i \<Rightarrow> map_option (\<lambda>a'. (Some (page_i2ptr a i), a')) (mark_n_busy a i q))"
    by (intro search_loop_first_fit [OF inv]) auto
  with False show ?thesis
    by (auto simp: page_alloc_def search_multi_page_def page_i2ptr_eq [OF inv]
        dest: first_fit_SomeD(3) split: option.split)
qed

section \<open>Reserving a range\<close>

text \<open>Page \<open>j\<close> shares a byte with \<open>[x, y)\<close>.\<close>

definition page_touches :: "page_allocator \<Rightarrow> nat \<Rightarrow> addr \<Rightarrow> addr \<Rightarrow> bool" where
  "page_touches a j x y \<longleftrightarrow>
     pages_start a + j * page_size a < y \<and> x < pages_start a + (j + 1) * page_size a \<and> x < y"

lemma div_le_iff_less_Suc: "0 < (d::nat) \<Longrightarrow> x div d \<le> j \<longleftrightarrow> x < (j + 1) * d"
  by (metis Suc_eq_plus1 div_less_iff_less_mult less_Suc_eq_le)

lemma less_div_ceil_iff: "0 < (d::nat) \<Longrightarrow> j < (x + d - 1) div d \<longleftrightarrow> j * d < x"
proof -
  assume d: "0 < d"
  have "j < (x + d - 1) div d \<longleftrightarrow> Suc j \<le> (x + d - 1) div d" by linarith
  also have "\<dots> \<longleftrightarrow> Suc j * d \<le> x + d - 1" using d by (simp add: less_eq_div_iff_mult_less_eq)
  also have "\<dots> \<longleftrightarrow> j * d < x" using d by auto
  finally show ?thesis .
qed

lemma reserve_loop:
  assumes inv: "page_inv a" and hi: "hi \<le> pages_n a"
    and f: "fold reserve_one [lo..<hi] (bitmap a, 0) = (bm', n)"
  defines "a' \<equiv> a\<lparr>bitmap := bm', free := sub64 (free a) (n * page_size a)\<rparr>"
  shows "page_inv a'" "bm_bit bm' j \<longleftrightarrow> bm_bit (bitmap a) j \<or> lo \<le> j \<and> j < hi"
    "n = card {j \<in> {lo..<hi}. \<not> bm_bit (bitmap a) j}"
proof -
  have n: "pages_n a \<le> 64 * length (bitmap a)"
      "pages_start a + pages_n a * page_size a < 2 ^ 64"
      "free a = card (free_pages a) * page_size a" using inv by (auto simp: page_inv_def)
  have res: "length bm' = length (bitmap a)"
    "\<And>j. bm_bit bm' j \<longleftrightarrow> bm_bit (bitmap a) j \<or> (lo \<le> j \<and> j < hi)"
    "n = card {j \<in> {lo..<hi}. \<not> bm_bit (bitmap a) j}"
    using bm.set_loop [of "[lo..<hi]" "bitmap a" 0 bm' n] f hi n by (auto simp: reserve_one_eq)
  let ?new = "{j \<in> {lo..<hi}. \<not> bm_bit (bitmap a) j}"
  have fp: "free_pages a' = free_pages a - ?new"
    by (auto simp: a'_def free_pages_def res)
  have sub: "?new \<subseteq> free_pages a" using hi by (auto simp: free_pages_def)
  have cf: "card (free_pages a') = card (free_pages a) - n"
    using sub by (simp add: fp res(3) card_Diff_subset)
  have le: "n \<le> card (free_pages a)" using sub by (simp add: res(3) card_mono)
  have "card (free_pages a) \<le> card {..<pages_n a}"
    by (intro card_mono) (auto simp: free_pages_def)
  then have "card (free_pages a) * page_size a \<le> pages_n a * page_size a" by simp
  then have "free a < 2 ^ 64" using n(2,3) by linarith
  then have "sub64 (free a) (n * page_size a) = free a - n * page_size a"
    using le n by (intro sub64_small) simp_all
  then show "page_inv a'"
    using inv cf by (simp add: page_inv_def a'_def res(1) diff_mult_distrib n(3))
  show "bm_bit bm' j \<longleftrightarrow> bm_bit (bitmap a) j \<or> lo \<le> j \<and> j < hi" by (rule res)
  show "n = card ?new" by (rule res)
qed

text \<open>Which pages the loop of \<^const>\<open>page_reserve\<close> visits: those that touch the range.\<close>

lemma reserve_range:
  assumes inv: "page_inv a" and len: "x < y" "y < 2 ^ 64" "pages_start a < y"
    and j: "j < pages_n a" and e: "e = pages_start a + pages_n a * page_size a"
  defines "f \<equiv> max x (pages_start a)" and "t \<equiv> min y e"
  shows "(f - pages_start a) div page_size a \<le> j
      \<and> j < wrap64 (t - pages_start a + page_size a - 1) div page_size a \<longleftrightarrow> page_touches a j x y"
proof -
  have ps: "0 < page_size a" "page_size a \<le> pages_start a"
    and e64: "e < 2 ^ 64" using inv e by (auto simp: page_inv_def)
  have "t - pages_start a \<le> pages_n a * page_size a" using e by (simp add: t_def)
  then have "t - pages_start a + page_size a - 1 < 2 ^ 64"
    using e e64 ps by linarith
  then have w: "wrap64 (t - pages_start a + page_size a - 1) = t - pages_start a + page_size a - 1"
    by (rule wrap64_small)
  have 1: "(f - pages_start a) div page_size a \<le> j \<longleftrightarrow> x < pages_start a + (j + 1) * page_size a"
    using ps by (auto simp: div_le_iff_less_Suc f_def)
  have "Suc j * page_size a \<le> pages_n a * page_size a" using j by (intro mult_le_mono1) simp
  then have je: "pages_start a + j * page_size a < e" using ps(1) j e by simp
  have 2: "j < (t - pages_start a + page_size a - 1) div page_size a \<longleftrightarrow>
      pages_start a + j * page_size a < y"
    using je len(3) less_div_ceil_iff [OF ps(1), of j "t - pages_start a"] by (auto simp: t_def)
  from 1 2 len(1) show ?thesis unfolding w page_touches_def by blast
qed

section \<open>Initialisation\<close>

lemma unat_and_not_mask:
  fixes w :: u64
  assumes "k < 64"
  shows "unat (w AND NOT (mask k)) = unat w - unat w mod 2 ^ k"
proof -
  have "w AND NOT (mask k) = w AND NOT (take_bit k w)"
    by (rule bit_eqI) (auto simp: bit_simps)
  also have "\<dots> = w - take_bit k w"
  proof (rule disjunctive_diff_eq_and_not [symmetric])
    show "NOT w AND take_bit k w = 0" by (rule bit_eqI) (auto simp: bit_simps)
  qed
  finally have "w AND NOT (mask k) = w - take_bit k w" .
  moreover have "take_bit k w \<le> w" by (simp add: take_bit_eq_mask word_and_le2)
  moreover have "unat (take_bit k w) = unat w mod 2 ^ k"
    by (simp only: unsigned_take_bit_eq) (simp only: take_bit_eq_mod)
  ultimately show ?thesis by (simp add: unat_sub)
qed

lemma binalign_bound_eq:
  assumes "k < 64" "x + 2 ^ k \<le> 2 ^ 64"
  shows "binalign_bound x (2 ^ k) = (x + 2 ^ k - 1) div 2 ^ k * 2 ^ k"
proof -
  have pos: "0 < (2::nat) ^ k" by simp
  have "(word_of_nat (2 ^ k) - 1 :: u64) = mask k" by (simp add: mask_eq_exp_minus_1)
  moreover have "(word_of_nat x + mask k :: u64) = word_of_nat (x + (2 ^ k - 1))"
    using pos by (simp only: mask_eq_exp_minus_1 of_nat_add of_nat_diff Suc_leI) simp
  moreover have "unat (word_of_nat (x + (2 ^ k - 1)) :: u64) = x + (2 ^ k - 1)"
    using assms(2) pos by (simp only: unat_of_nat) simp
  ultimately have "binalign_bound x (2 ^ k) =
      (x + (2 ^ k - 1)) - (x + (2 ^ k - 1)) mod 2 ^ k"
    using assms(1) by (simp add: binalign_bound_def unat_and_not_mask)
  also have "\<dots> = (x + 2 ^ k - 1) div 2 ^ k * 2 ^ k"
    using pos by (simp add: minus_mod_eq_div_mult add_diff_assoc)
  finally show ?thesis .
qed

lemma binalign_bound_props:
  assumes "k < 64" "x + 2 ^ k \<le> 2 ^ 64"
  shows "x \<le> binalign_bound x (2 ^ k)" "binalign_bound x (2 ^ k) < x + 2 ^ k"
    "2 ^ k dvd binalign_bound x (2 ^ k)"
proof -
  let ?d = "(2::nat) ^ k" and ?y = "x + 2 ^ k - 1"
  have pos: "0 < ?d" by simp
  have "?y div ?d * ?d \<le> ?y" by simp
  moreover have "?y < ?y div ?d * ?d + ?d" using pos by (metis add.commute dividend_less_times_div mult.commute mult_Suc)
  ultimately show "x \<le> binalign_bound x ?d" "binalign_bound x ?d < x + ?d"
    unfolding binalign_bound_eq [OF assms] using pos by linarith+
  show "?d dvd binalign_bound x ?d" unfolding binalign_bound_eq [OF assms] by simp
qed

lemma init_shrink_ok:
  assumes "0 < ps" "0 < pages" "pages < 2 ^ 32" "start \<le> p_start"
    and "sizeof_page_allocator + bm_len \<le> (p_start - start) + (pages - 1) * ps"
  shows "\<exists>p' n'. init_shrink ps bm_len start p_start pages = Some (p', n')
     \<and> p' + n' * ps = p_start + pages * ps \<and> sizeof_page_allocator + bm_len \<le> p' - start
     \<and> p_start \<le> p' \<and> 0 < n' \<and> n' \<le> pages \<and> ps dvd p' - p_start"
  using assms
proof (induction ps bm_len start p_start pages rule: init_shrink.induct)
  case (1 ps bm_len start p_start pages)
  show ?case
  proof (cases "sizeof_page_allocator + bm_len > p_start - start")
    case False
    then show ?thesis using "1.prems" by (subst init_shrink.simps) auto
  next
    case True
    then have p2: "1 < pages" using "1.prems" by (cases "pages = 1") auto
    have s1: "sub32 pages 1 = pages - 1" using "1.prems" by (intro sub32_small) auto
    define k where "k = pages - 2"
    have k: "pages = k + 2" using p2 by (simp add: k_def)
    have "\<exists>p' n'. init_shrink ps bm_len start (p_start + ps) (k + 1) = Some (p', n')
     \<and> p' + n' * ps = p_start + ps + (k + 1) * ps \<and> sizeof_page_allocator + bm_len \<le> p' - start
     \<and> p_start + ps \<le> p' \<and> 0 < n' \<and> n' \<le> k + 1 \<and> ps dvd p' - (p_start + ps)"
      using "1.IH" [OF True refl refl] "1.prems" s1 by (simp add: k)
    then obtain p' n' where IH: "init_shrink ps bm_len start (p_start + ps) (k + 1) = Some (p', n')"
      "p' + n' * ps = p_start + ps + (k + 1) * ps" "sizeof_page_allocator + bm_len \<le> p' - start"
      "p_start + ps \<le> p'" "0 < n'" "n' \<le> k + 1" "ps dvd p' - (p_start + ps)" by blast
    have "p' - p_start = (p' - (p_start + ps)) + ps" using IH(4) by simp
    then have d: "ps dvd p' - p_start" using IH(7) by (metis dvd_add dvd_refl)
    have "init_shrink ps bm_len start p_start pages = Some (p', n')"
      using True IH(1) s1 k by (subst init_shrink.simps) (simp add: Let_def)
    moreover have "p' + n' * ps = p_start + pages * ps" using IH(2) k by simp
    ultimately show ?thesis using IH d k by simp
  qed
qed

lemma free_pages_code [code]:
  "free_pages a = set (filter (\<lambda>i. \<not> bm_bit (bitmap a) i) [0..<pages_n a])"
  by (auto simp: free_pages_def)

lemma fresh_bitmap_bit:
  "pages < 64 * n \<Longrightarrow> j < pages \<Longrightarrow> \<not> bm_bit (bitmap_set_bit (replicate n 0) pages) j"
proof -
  assume a: "pages < 64 * n" "j < pages"
  then have "j div 64 < n" by (simp add: less_mult_imp_div_less mult.commute)
  then have "\<not> bm_bit (replicate n 0) j" by (simp add: bm_bit_def)
  with a show ?thesis by (simp add: bm_bit_set)
qed

section \<open>Properties\<close>

text \<open>
  C4: On a well-formed allocator \<^const>\<open>page_alloc\<close> always returns.  It hands out the lowest run of
  the requested number of free pages, marking exactly that run busy and keeping the invariant (the
  \<open>free\<close> byte count included); it returns \<open>NULL\<close>, changing nothing, exactly when there is no such run.
\<close>

theorem page_alloc_first_fit:
  assumes "page_inv a"
  shows "\<exists>r a'. page_alloc a q = Some (r, a') \<and> page_inv a'
     \<and> (case first_fit a q of
          None \<Rightarrow> r = None \<and> a' = a
        | Some i \<Rightarrow> r = Some (pages_start a + i * page_size a)
            \<and> free_pages a' = free_pages a - {i..<i + q} \<and> {i..<i + q} \<subseteq> free_pages a
            \<and> same_geometry a a' \<and> free a' = free a - q * page_size a)"
proof (cases "first_fit a q")
  case None
  with assms show ?thesis by (simp add: page_alloc_spec)
next
  case (Some i)
  note i = first_fit_SomeD [OF Some]
  obtain a' where a': "mark_n_busy a i q = Some a'" "page_inv a'"
    "same_geometry a a'"
    "\<And>j. bm_bit (bitmap a') j \<longleftrightarrow> bm_bit (bitmap a) j \<or> i \<le> j \<and> j < i + q"
    "free a' = free a - q * page_size a"
    using mark_n_busy_ok [OF assms i(2)] by metis
  have "pages_n a' = pages_n a" using a'(3) by (simp add: same_geometry_def)
  then have "free_pages a' = free_pages a - {i..<i + q}" by (auto simp: free_pages_def a'(4))
  moreover have "{i..<i + q} \<subseteq> free_pages a" using i(2) by (auto simp: fits_iff free_pages_def)
  ultimately show ?thesis
    using Some a'(1,2,5) a'(3) by (simp add: page_alloc_spec [OF assms])
qed

definition demo_alloc :: page_allocator where
  "demo_alloc = \<lparr>pages_start = 8192, pages_n = 6, page_size = 4096, free = 12288,
     bitmap_len = 8, bitmap = [0x4d]\<rparr>"

lemma demo_alloc_sel:
  "pages_start demo_alloc = 8192" "page_size demo_alloc = 4096" "free demo_alloc = 12288"
  by (simp_all add: demo_alloc_def)

lemma upt_0_6: "[0..<6] = [0::nat, 1, 2, 3, 4, 5]"
  by (simp add: upt_rec)

lemma demo_alloc_facts:
  "free_pages demo_alloc = {1, 4, 5}" "page_inv demo_alloc" "first_fit demo_alloc 2 = Some 4"
proof -
  show fp: "free_pages demo_alloc = {1, 4, 5}"
    by (simp add: free_pages_code demo_alloc_def upt_0_6 bm_bit_def)
  show "page_inv demo_alloc" by (simp add: page_inv_def fp) (simp add: demo_alloc_def)
  show "first_fit demo_alloc 2 = Some 4"
    by (simp add: first_fit_def fits_def demo_alloc_def bm_bit_def upt_0_6 upt_rec_numeral)
qed

theorem page_alloc_first_fit_witness:
  "page_inv demo_alloc \<and> first_fit demo_alloc 2 = Some 4 \<and>
   (\<exists>r a'. page_alloc demo_alloc 2 = Some (r, a') \<and> page_inv a' \<and> r = Some 24576
     \<and> free_pages a' = {1})"
proof -
  have "{1, 4, 5} - {4..<4 + 2} = {1::nat}" by auto
  then show ?thesis
    using page_alloc_first_fit [OF demo_alloc_facts(2), of 2] demo_alloc_facts
    by (auto simp: demo_alloc_sel simp del: One_nat_def)
qed

text \<open>
  C5: Freeing what \<^const>\<open>page_alloc\<close> returned gives back exactly the pages it took: the set of free
  pages and the \<open>free\<close> byte count are those before the allocation, and the invariant holds.
\<close>

theorem page_alloc_free_roundtrip:
  assumes inv: "page_inv a" and alloc: "page_alloc a q = Some (Some p, a')"
  shows "\<exists>b. page_free a' p q = Some b \<and> page_inv b \<and> free_pages b = free_pages a
     \<and> free b = free a"
proof -
  obtain i where i: "first_fit a q = Some i" "p = pages_start a + i * page_size a"
      "mark_n_busy a i q = Some a'"
    using alloc by (auto simp: page_alloc_spec [OF inv] split: option.splits)
  note ff = first_fit_SomeD [OF i(1)]
  have a': "page_inv a'" "same_geometry a a'"
    "\<And>j. bm_bit (bitmap a') j \<longleftrightarrow> bm_bit (bitmap a) j \<or> i \<le> j \<and> j < i + q"
    using mark_n_busy_ok [OF inv ff(2)] i(3) by (metis option.inject)+
  have eqs: "pages_n a' = pages_n a" "page_size a' = page_size a" "pages_start a' = pages_start a"
    using a'(2) by (simp_all add: same_geometry_def)
  have q: "i + q \<le> pages_n a'" using ff(2) by (simp add: fits_iff eqs)
  have "wrap32 q = q" using q a'(1) by (intro wrap32_small) (simp add: page_inv_def)
  moreover have "page_ptr2i a' p = i" using page_ptr2i_eq [OF a'(1), of i] ff(3) i(2) by (simp add: eqs)
  moreover obtain b where b: "mark_n_free a' i q = Some b" "page_inv b"
    "same_geometry a' b"
    "\<And>j. bm_bit (bitmap b) j \<longleftrightarrow> bm_bit (bitmap a') j \<and> \<not> (i \<le> j \<and> j < i + q)"
    using mark_n_free_ok [OF a'(1) q] by metis
  ultimately have "page_free a' p q = Some b" by (simp add: page_free_def)
  moreover have "pages_n b = pages_n a" "page_size b = page_size a"
    using b(3) by (simp_all add: eqs same_geometry_def)
  moreover from this have "free_pages b = free_pages a"
    using ff(2) by (auto simp: free_pages_def b(4) a'(3) fits_iff)
  ultimately show ?thesis using b(2) inv by (auto simp: page_inv_def)
qed

theorem page_alloc_free_roundtrip_witness:
  "\<exists>p a' b. page_alloc demo_alloc 2 = Some (Some p, a') \<and> page_free a' p 2 = Some b
     \<and> free_pages b = {1, 4, 5} \<and> free b = 12288"
proof -
  obtain a' where a': "page_alloc demo_alloc 2 = Some (Some (8192 + 4 * 4096), a')"
    using mark_n_busy_ok [OF demo_alloc_facts(2), of 2 4] demo_alloc_facts(3)
      first_fit_SomeD(2) [OF demo_alloc_facts(3)]
    by (auto simp: page_alloc_spec [OF demo_alloc_facts(2)] demo_alloc_sel)
  from page_alloc_free_roundtrip [OF demo_alloc_facts(2) a'] a' demo_alloc_facts(1)
  show ?thesis unfolding demo_alloc_sel by metis
qed

text \<open>A range outside the pages, and the loop over a range that meets them.\<close>

lemma reserve_outside:
  assumes out: "y \<le> x \<or> y \<le> pages_start a \<or> pages_start a + pages_n a * page_size a \<le> x"
  shows "{j \<in> free_pages a. page_touches a j x y} = {}" "{j \<in> free_pages a. \<not> page_touches a j x y} = free_pages a"
proof -
  have none: "\<not> page_touches a j x y" if "j < pages_n a" for j
  proof -
    have "Suc j * page_size a \<le> pages_n a * page_size a" using that by (intro mult_le_mono1) simp
    with out show ?thesis by (auto simp: page_touches_def)
  qed
  then show "{j \<in> free_pages a. page_touches a j x y} = {}" "{j \<in> free_pages a. \<not> page_touches a j x y} = free_pages a"
    by (auto simp: free_pages_def)
qed

lemma reserve_inside:
  assumes inv: "page_inv a" and hi: "hi \<le> pages_n a" and touch: "\<And>j. j < pages_n a \<Longrightarrow> lo \<le> j \<and> j < hi \<longleftrightarrow> T j"
    and fold: "fold reserve_one [lo..<hi] (bitmap a, 0) = (bm', n)"
    and a': "a' = a\<lparr>bitmap := bm', free := sub64 (free a) (n * page_size a)\<rparr>"
  shows "page_inv a' \<and> same_geometry a a' \<and> free_pages a' = {j \<in> free_pages a. \<not> T j} \<and> n = card {j \<in> free_pages a. T j}"
proof -
  note loop = reserve_loop [OF inv hi fold]
  have "free_pages a' = {j \<in> free_pages a. \<not> T j}"
    using touch by (auto simp: free_pages_def a' loop(2))
  moreover have "{j \<in> {lo..<hi}. \<not> bm_bit (bitmap a) j} = {j \<in> free_pages a. T j}"
  proof (intro set_eqI)
    show "j \<in> {j \<in> {lo..<hi}. \<not> bm_bit (bitmap a) j} \<longleftrightarrow> j \<in> {j \<in> free_pages a. T j}" for j
      using touch [of j] hi by (cases "j < pages_n a") (auto simp: free_pages_def)
  qed
  ultimately show ?thesis using loop(1,3) by (simp add: same_geometry_def a')
qed

text \<open>
  C8: \<^const>\<open>page_reserve\<close> takes exactly the pages that share a byte with the given range: they are
  busy afterwards, no other page changes, the result counts the pages that were free before, and
  the invariant is kept.
\<close>

theorem page_reserve_spec:
  assumes inv: "page_inv a" and len: "start + len < 2 ^ 64"
    and res: "page_reserve a start len = (n, a')"
  shows "page_inv a' \<and> same_geometry a a'
     \<and> free_pages a' = {j \<in> free_pages a. \<not> page_touches a j start (start + len)}
     \<and> n = card {j \<in> free_pages a. page_touches a j start (start + len)}"
proof -
  let ?y = "start + len" and ?e = "pages_start a + pages_n a * page_size a"
  have w: "wrap64 ?e = ?e" "wrap64 ?y = ?y" using inv len by (auto simp: page_inv_def intro: wrap64_small)
  show ?thesis
  proof (cases "?y \<le> start \<or> ?y \<le> pages_start a \<or> ?e \<le> start")
    case True
    have "n = 0" "a' = a" using res True by (auto simp: page_reserve_def Let_def w)
    then show ?thesis using inv by (simp add: reserve_outside [OF True] same_geometry_def)
  next
    case False
    define f where "f = max start (pages_start a)"
    define t where "t = min ?y ?e"
    define lo where "lo = (f - pages_start a) div page_size a"
    define hi where "hi = wrap64 (t - pages_start a + page_size a - 1) div page_size a"
    have ft: "(if start < pages_start a then pages_start a else start) = f"
      "(if ?e < ?y then ?e else ?y) = t" by (auto simp: f_def t_def)
    obtain bm' n' where fold: "fold reserve_one [lo..<hi] (bitmap a, 0) = (bm', n')" by fastforce
    have "page_reserve a start len = (n', a\<lparr>bitmap := bm', free := sub64 (free a) (n' * page_size a)\<rparr>)"
      unfolding page_reserve_def Let_def w using False
      by (simp only: ft if_False lo_def [symmetric] hi_def [symmetric] fold prod.case)
    then have r: "n = n'" "a' = a\<lparr>bitmap := bm', free := sub64 (free a) (n' * page_size a)\<rparr>"
      using res by auto
    have ps: "0 < page_size a" using inv by (simp add: page_inv_def)
    have "wrap64 (t - pages_start a + page_size a - 1) \<le> t - pages_start a + page_size a - 1"
      by (simp add: wrap64_def)
    also have "\<dots> < (pages_n a + 1) * page_size a" using ps by (simp add: t_def)
    finally have hi: "hi \<le> pages_n a" using ps by (simp add: hi_def div_le_iff_less_Suc)
    show ?thesis unfolding r(1)
    proof (rule reserve_inside [OF inv hi _ fold r(2)])
      show "lo \<le> j \<and> j < hi \<longleftrightarrow> page_touches a j start ?y" if "j < pages_n a" for j
        using reserve_range [OF inv _ len _ that refl, of start] False
        unfolding lo_def hi_def f_def t_def by simp
    qed
  qed
qed

theorem page_reserve_spec_witness:
  "\<exists>n a'. page_reserve demo_alloc 20000 12288 = (n, a') \<and> page_inv a' \<and> n = 2
     \<and> free_pages a' = {1}"
proof -
  obtain n a' where r: "page_reserve demo_alloc 20000 12288 = (n, a')" by fastforce
  have h: "20000 + 12288 < (2::nat) ^ 64" by simp
  have t: "{j \<in> {1, 4, 5}. page_touches demo_alloc j 20000 (20000 + 12288)} = {4, 5}"
    "{j \<in> {1, 4, 5}. \<not> page_touches demo_alloc j 20000 (20000 + 12288)} = {1}"
    by (auto simp: page_touches_def demo_alloc_sel)
  from page_reserve_spec [OF demo_alloc_facts(2) h r] r t show ?thesis
    unfolding demo_alloc_facts(1) by simp
qed

text \<open>The allocator that initialisation leaves behind, from the numbers the code has computed.\<close>

lemma fresh_allocator_inv:
  fixes ps n m p :: nat
  assumes "0 < ps" "0 < n" "n < 2 ^ 31" "n < 64 * m" "ps \<le> p" "p + n * ps < 2 ^ 64"
  defines "a \<equiv> \<lparr>pages_start = p, pages_n = n, page_size = ps, free = wrap64 (n * ps),
      bitmap_len = 8 * m, bitmap = bitmap_set_bit (replicate m 0) n\<rparr>"
  shows "page_inv a" "free_pages a = {..<n}" "bm_bit (bitmap a) n"
proof -
  show fp: "free_pages a = {..<n}"
    using assms(4) by (auto simp: free_pages_def a_def fresh_bitmap_bit)
  show "page_inv a"
    using assms(1-6) by (simp add: page_inv_def fp) (simp add: a_def wrap64_small)
  show "bm_bit (bitmap a) n" using assms(4) by (simp add: a_def bm_bit_set)
qed

text \<open>The numbers: \<open>N\<close> pages to begin with, a bitmap of \<open>m\<close> words, \<open>n\<close> pages from \<open>p\<close> on in the end.\<close>

lemma init_numbers:
  assumes k: "6 \<le> k" "k \<le> 31" and len: "4 * 2 ^ k + 15 \<le> len" "len < 2 ^ 31 * 2 ^ k"
    and p0: "hdr < start + 16" "start \<le> hdr" "hdr \<le> p0" "p0 < hdr + 2 ^ k" "2 ^ k dvd p0"
    and N: "N = (start + len - p0) div 2 ^ k" and m: "m = (N + 64) div 64"
  obtains p n where "init_shrink (2 ^ k) (8 * m) hdr p0 N = Some (p, n)" "0 < n" "n < 2 ^ 31" "n < 64 * m"
    "p + n * 2 ^ k \<le> start + len" "2 ^ k dvd p" "2 ^ k \<le> p" "hdr + sizeof_page_allocator + 8 * m \<le> p"
    "p0 < start + len" "3 \<le> N" "N < 2 ^ 31"
proof -
  let ?ps = "(2::nat) ^ k"
  have ps: "64 \<le> ?ps" using power_increasing [OF k(1), of "2::nat"] by simp
  have e: "3 * ?ps \<le> start + len - p0" using len(1) p0 by linarith
  have N3: "3 \<le> N" using e ps by (simp add: N less_eq_div_iff_mult_less_eq)
  have "N \<le> len div ?ps" unfolding N using p0 by (intro div_le_mono) simp
  also have "\<dots> < 2 ^ 31" using len(2) by (simp add: div_less_iff_less_mult)
  finally have NL: "N < 2 ^ 31" .
  have m64: "64 * m \<le> N + 64" "N < 64 * m" by (simp_all add: m)
  have "(N - 1) * 64 \<le> (N - 1) * ?ps" using ps by simp
  then have room: "sizeof_page_allocator + 8 * m \<le> (p0 - hdr) + (N - 1) * ?ps"
    using N3 m64 unfolding sizeof_page_allocator_def by linarith
  obtain p n where sh: "init_shrink ?ps (8 * m) hdr p0 N = Some (p, n)"
    "p + n * ?ps = p0 + N * ?ps" "sizeof_page_allocator + 8 * m \<le> p - hdr"
    "p0 \<le> p" "0 < n" "n \<le> N" "?ps dvd p - p0"
    using init_shrink_ok [of ?ps N hdr p0 "8 * m"] room N3 NL p0 ps by auto
  have "N * ?ps \<le> start + len - p0" by (simp add: N)
  then have end_le: "p + n * ?ps \<le> start + len" "p0 < start + len" using sh(2) e ps by linarith+
  have pd: "?ps dvd p" using p0(5) sh(4,7) by (metis dvd_diffD le_add_diff_inverse dvd_add)
  have "0 < p" "hdr + sizeof_page_allocator + 8 * m \<le> p" using sh(3) by (simp_all add: sizeof_page_allocator_def)
  with pd show thesis
    using that [OF sh(1,5)] sh(6) NL m64 N3 end_le by (simp add: dvd_imp_le)
qed

text \<open>
  C14: Given a region of at least four pages and a little more, and of fewer than \<open>2 ^ 31\<close> pages,
  \<^const>\<open>page_allocator_init\<close> succeeds: the header, then the bitmap, then the page-aligned pages lie
  inside the region without overlapping, every page is free, the guard bit after the last page lies in
  the bitmap and is set, and the allocator is well-formed.
\<close>

theorem page_allocator_init_layout:
  assumes k: "6 \<le> k" "k \<le> 31" and len: "4 * 2 ^ k + 15 \<le> len" "len < 2 ^ 31 * 2 ^ k"
    and top: "start + len + 2 ^ k + 16 \<le> 2 ^ 64"
  shows "\<exists>hdr a. page_allocator_init start len (2 ^ k) = Some (hdr, a) \<and> page_inv a
     \<and> free_pages a = {..<pages_n a} \<and> 0 < pages_n a \<and> 16 dvd hdr \<and> 2 ^ k dvd pages_start a
     \<and> pages_n a < 64 * length (bitmap a) \<and> bm_bit (bitmap a) (pages_n a)
     \<and> bitmap_len a = 8 * length (bitmap a) \<and> start \<le> hdr
     \<and> hdr + sizeof_page_allocator + bitmap_len a \<le> pages_start a
     \<and> pages_start a + pages_n a * 2 ^ k \<le> start + len"
proof -
  let ?ps = "(2::nat) ^ k"
  define hdr where "hdr = binalign_bound start 16"
  define p0 where "p0 = binalign_bound hdr ?ps"
  define N where "N = (start + len - p0) div ?ps"
  define m where "m = (N + 64) div 64"
  have hdr: "start \<le> hdr" "hdr < start + 16" "16 dvd hdr"
    using binalign_bound_props [of 4 start] top by (simp_all add: hdr_def)
  have p0: "hdr \<le> p0" "p0 < hdr + ?ps" "?ps dvd p0"
    using binalign_bound_props [of k hdr] top hdr k unfolding p0_def by auto
  obtain p n where sh: "init_shrink ?ps (8 * m) hdr p0 N = Some (p, n)" "0 < n" "n < 2 ^ 31" "n < 64 * m"
    "p + n * ?ps \<le> start + len" "?ps dvd p" "?ps \<le> p" "hdr + sizeof_page_allocator + 8 * m \<le> p"
    "p0 < start + len" "3 \<le> N" "N < 2 ^ 31"
    by (rule init_numbers [OF k len hdr(2,1) p0 N_def m_def])
  have wN: "wrap32 N = N" "wrap32 (N + 1) = N + 1" using sh(11) by (simp_all add: wrap32_small)
  have bml: "BITMAP_SIZE (wrap32 (Suc N)) = m" using wN(2) by (simp add: BITMAP_SIZE_def m_def)
  define a where "a = \<lparr>pages_start = p, pages_n = n, page_size = ?ps, free = wrap64 (n * ?ps),
      bitmap_len = 8 * m, bitmap = bitmap_set_bit (replicate m 0) n\<rparr>"
  have "0 < ?ps" "p + n * ?ps < 2 ^ 64" using sh(5) top by auto
  note inv = fresh_allocator_inv [OF this(1) sh(2,3,4,7) this(2), folded a_def]
  have "sizeof_page_allocator \<le> 3 * ?ps" using power_increasing [OF k(1), of "2::nat"] by (simp add: sizeof_page_allocator_def)
  then have "\<not> len < ?ps + sizeof_page_allocator" "\<not> start + len \<le> p0" using len sh(9) by auto
  then have "page_allocator_init start len ?ps = Some (hdr, a)"
    using sh(10) by (simp add: page_allocator_init_def Let_def hdr_def [symmetric] p0_def [symmetric]
        N_def [symmetric] wN(1) bml sh(1) a_def)
  moreover have "pages_n a = n" "pages_start a = p" "bitmap_len a = 8 * m" "length (bitmap a) = m"
    by (simp_all add: a_def)
  ultimately show ?thesis using inv sh(2,4,5,6,8) hdr by simp
qed

theorem page_allocator_init_layout_witness:
  "\<exists>hdr a. page_allocator_init 1000 65536 (2 ^ 12) = Some (hdr, a) \<and> page_inv a
     \<and> free_pages a = {..<pages_n a} \<and> bm_bit (bitmap a) (pages_n a) \<and> pages_start a + pages_n a * 2 ^ 12 \<le> 1000 + 65536"
  using page_allocator_init_layout [of 12 65536 1000] by auto

end
