(* ===== verification/Dlist_Ptr.thy ===== *)
theory Dlist_Ptr
  imports Prelude
begin

text \<open>
  The intrusive circular doubly linked list of \<^verbatim>\<open>lib/libds/dlist\<close> at the level of its pointers: a
  store of \<open>next\<close> and \<open>prev\<close> fields, updated in the order the code writes them.  A list head with
  the items \<open>xs\<close> is the ring \<open>head # xs\<close>; the operations are shown to implement the operations on
  the sequence \<open>xs\<close> and to leave every other list of the store alone.
\<close>

section \<open>Definitions\<close>

record dlist_store =
  dnext :: "addr \<Rightarrow> addr"
  dprev :: "addr \<Rightarrow> addr"

definition set_next :: "addr \<Rightarrow> addr \<Rightarrow> dlist_store \<Rightarrow> dlist_store" where
  "set_next a v s = s\<lparr>dnext := (dnext s)(a := v)\<rparr>"

definition set_prev :: "addr \<Rightarrow> addr \<Rightarrow> dlist_store \<Rightarrow> dlist_store" where
  "set_prev a v s = s\<lparr>dprev := (dprev s)(a := v)\<rparr>"

definition dlist_add_between :: "addr \<Rightarrow> addr \<Rightarrow> addr \<Rightarrow> dlist_store \<Rightarrow> dlist_store" where
  "dlist_add_between new nxt prv s =
     (let s = set_prev new prv s; s = set_next new nxt s; s = set_prev nxt new s
      in set_next prv new s)"

definition dlist_head_init :: "addr \<Rightarrow> dlist_store \<Rightarrow> dlist_store" where
  "dlist_head_init head s = set_next head head (set_prev head head s)"

definition dlist_init :: "addr \<Rightarrow> dlist_store \<Rightarrow> dlist_store" where
  "dlist_init head s = set_next head head (set_prev head head s)"

definition dlist_add_next :: "addr \<Rightarrow> addr \<Rightarrow> dlist_store \<Rightarrow> dlist_store" where
  "dlist_add_next new list s = dlist_add_between new (dnext s list) list s"

definition dlist_add_prev :: "addr \<Rightarrow> addr \<Rightarrow> dlist_store \<Rightarrow> dlist_store" where
  "dlist_add_prev new list s = dlist_add_between new list (dprev s list) s"

definition dlist_del :: "addr \<Rightarrow> dlist_store \<Rightarrow> dlist_store" where
  "dlist_del head s =
     (let s = set_next (dprev s head) (dnext s head) s
      in set_prev (dnext s head) (dprev s head) s)"

definition dlist_del_init :: "addr \<Rightarrow> dlist_store \<Rightarrow> dlist_store" where
  "dlist_del_init head s = dlist_init head (dlist_del head s)"

definition dlist_move :: "addr \<Rightarrow> addr \<Rightarrow> dlist_store \<Rightarrow> dlist_store" where
  "dlist_move head list s = dlist_add_next head list (dlist_del head s)"

definition dlist_empty :: "addr \<Rightarrow> dlist_store \<Rightarrow> bool" where
  "dlist_empty head s \<longleftrightarrow> head = dnext s head"

text \<open>\<^verbatim>\<open>dlist_next\<close>, \<^verbatim>\<open>dlist_prev\<close> assert that the list is not empty: \<^const>\<open>None\<close> is the failed assertion.\<close>

definition dlist_next :: "addr \<Rightarrow> dlist_store \<Rightarrow> addr option" where
  "dlist_next list s = (if \<not> dlist_empty list s then Some (dnext s list) else None)"

definition dlist_prev :: "addr \<Rightarrow> dlist_store \<Rightarrow> addr option" where
  "dlist_prev list s = (if \<not> dlist_empty list s then Some (dprev s list) else None)"

text \<open>The or-null variants: \<^const>\<open>None\<close> is the null pointer they return for an empty list.\<close>

definition dlist_first_or_null :: "addr \<Rightarrow> dlist_store \<Rightarrow> addr option" where
  "dlist_first_or_null list s = (if \<not> dlist_empty list s then dlist_next list s else None)"

definition dlist_last_or_null :: "addr \<Rightarrow> dlist_store \<Rightarrow> addr option" where
  "dlist_last_or_null list s = (if \<not> dlist_empty list s then dlist_prev list s else None)"

text \<open>
  The link part of the paranoia check of the debug build: both neighbours point back.  Its poison
  word is not part of this store.
\<close>

definition dlist_debug_check :: "addr \<Rightarrow> dlist_store \<Rightarrow> bool" where
  "dlist_debug_check head s \<longleftrightarrow> dprev s (dnext s head) = head \<and> dnext s (dprev s head) = head"

text \<open>The links \<^verbatim>\<open>dlist_foreach\<close> visits from \<open>link\<close> until it is back at the head.\<close>

partial_function (option) dlist_foreach_from :: "dlist_store \<Rightarrow> addr \<Rightarrow> addr \<Rightarrow> addr list option" where
  "dlist_foreach_from s head link =
     (if link = head then Some []
      else Option.bind (dlist_foreach_from s head (dnext s link)) (\<lambda>xs. Some (link # xs)))"

definition dlist_foreach :: "dlist_store \<Rightarrow> addr \<Rightarrow> addr list option" where
  "dlist_foreach s head = dlist_foreach_from s head (dnext s head)"

section \<open>Rings\<close>

definition linked :: "dlist_store \<Rightarrow> addr \<Rightarrow> addr \<Rightarrow> bool" where
  "linked s a b \<longleftrightarrow> dnext s a = b \<and> dprev s b = a"

definition ring :: "dlist_store \<Rightarrow> addr list \<Rightarrow> bool" where
  "ring s ys \<longleftrightarrow> ys \<noteq> [] \<and> distinct ys \<and> successively (linked s) (ys @ [hd ys])"

text \<open>The list with head \<open>h\<close> holds the items \<open>xs\<close>, first to last.\<close>

definition dlist_items :: "dlist_store \<Rightarrow> addr \<Rightarrow> addr list \<Rightarrow> bool" where
  "dlist_items s h xs \<longleftrightarrow> ring s (h # xs)"

lemmas dlist_store_defs = set_next_def set_prev_def

lemma next_prev_upd [simp]:
  "dnext (set_next a v s) = (dnext s)(a := v)" "dprev (set_next a v s) = dprev s"
  "dprev (set_prev a v s) = (dprev s)(a := v)" "dnext (set_prev a v s) = dnext s"
  by (simp_all add: dlist_store_defs)

lemma ring_rotate: "ring s (x # ys) \<longleftrightarrow> ring s (ys @ [x])"
  by (cases ys) (auto simp: ring_def successively_append_iff successively_Cons hd_append)

lemma ring_rotate_append: "ring s (xs @ ys) \<longleftrightarrow> ring s (ys @ xs)"
proof (induction xs arbitrary: ys)
  case Nil
  then show ?case by simp
next
  case (Cons x xs)
  have "ring s ((x # xs) @ ys) \<longleftrightarrow> ring s (xs @ (ys @ [x]))" by (simp add: ring_rotate)
  also have "\<dots> \<longleftrightarrow> ring s ((ys @ [x]) @ xs)" by (rule Cons.IH)
  finally show ?case by simp
qed

lemma successively_linked_cong:
  assumes "\<And>a. a \<in> set (butlast zs) \<Longrightarrow> dnext s' a = dnext s a"
    and "\<And>a. a \<in> set (tl zs) \<Longrightarrow> dprev s' a = dprev s a"
  shows "successively (linked s') zs \<longleftrightarrow> successively (linked s) zs"
  using assms
proof (induction zs rule: induct_list012)
  case (3 a b zs)
  have "successively (linked s') (b # zs) \<longleftrightarrow> successively (linked s) (b # zs)"
    using "3.prems" by (intro "3.IH"(2)) (auto split: if_splits)
  then show ?case using "3.prems"(1) [of a] "3.prems"(2) [of b] by (simp add: linked_def)
qed auto

lemma ring_cong:
  assumes "\<And>a. a \<in> set ys \<Longrightarrow> dnext s' a = dnext s a \<and> dprev s' a = dprev s a"
  shows "ring s' ys \<longleftrightarrow> ring s ys"
proof (cases "ys = []")
  case True
  then show ?thesis by (simp add: ring_def)
next
  case False
  then have "set (butlast (ys @ [hd ys])) = set ys" "set (tl (ys @ [hd ys])) \<subseteq> set ys"
    by (auto dest: list.set_sel(2))
  then have "successively (linked s') (ys @ [hd ys]) \<longleftrightarrow> successively (linked s) (ys @ [hd ys])"
    using assms by (intro successively_linked_cong) auto
  then show ?thesis by (simp add: ring_def)
qed

lemma ring_single: "ring s [x] \<longleftrightarrow> dnext s x = x \<and> dprev s x = x"
  by (auto simp: ring_def linked_def)

text \<open>Consecutive elements of a ring, in the form the operations use them.\<close>

lemma ring_first_last:
  assumes "ring s ys"
  shows "dnext s (last ys) = hd ys" "dprev s (hd ys) = last ys"
proof -
  have "successively (linked s) (ys @ [hd ys])" "ys \<noteq> []" using assms by (auto simp: ring_def)
  then have "linked s (last ys) (hd ys)" by (simp add: successively_append_iff)
  then show "dnext s (last ys) = hd ys" "dprev s (hd ys) = last ys" by (auto simp: linked_def)
qed

lemma ring_insert:
  assumes r: "ring s ys" and new: "new \<notin> set ys"
  shows "ring (dlist_add_between new (hd ys) (last ys) s) (ys @ [new])"
proof -
  let ?s = "dlist_add_between new (hd ys) (last ys) s"
  have ys: "ys \<noteq> []" "distinct ys" "successively (linked s) ys"
    using r by (auto simp: ring_def successively_append_iff)
  have mem: "hd ys \<in> set ys" "last ys \<in> set ys" using ys by auto
  have hd_tl: "hd ys \<notin> set (tl ys)" using ys by (cases ys) auto
  have last_bl: "last ys \<notin> set (butlast ys)"
    using ys by (metis append_butlast_last_id distinct_append disjoint_iff list.set_intros(1))
  have "successively (linked ?s) ys \<longleftrightarrow> successively (linked s) ys"
    using new hd_tl last_bl mem
    by (intro successively_linked_cong)
      (auto simp: dlist_add_between_def Let_def dest: in_set_butlastD list.set_sel(2) [OF ys(1)])
  moreover have "linked ?s (last ys) new" "linked ?s new (hd ys)"
    using new mem by (auto simp: dlist_add_between_def Let_def linked_def)
  ultimately show ?thesis using ys new
    by (auto simp: ring_def successively_append_iff successively_Cons)
qed

lemma ring_delete:
  assumes r: "ring s (ys @ [x])" and ne: "ys \<noteq> []"
  shows "ring (dlist_del x s) ys"
proof -
  let ?s = "dlist_del x s"
  have ys: "distinct ys" "x \<notin> set ys" "successively (linked s) ys"
      "linked s (last ys) x" "linked s x (hd ys)"
    using r ne by (auto simp: ring_def successively_append_iff successively_Cons)
  have mem: "hd ys \<in> set ys" "last ys \<in> set ys" using ne by auto
  have nx: "dnext s x = hd ys" "dprev s x = last ys" using ys by (auto simp: linked_def)
  have hd_tl: "hd ys \<notin> set (tl ys)" using ys ne by (cases ys) auto
  have last_bl: "last ys \<notin> set (butlast ys)"
    using ys ne by (metis append_butlast_last_id distinct_append disjoint_iff list.set_intros(1))
  have "successively (linked ?s) ys \<longleftrightarrow> successively (linked s) ys"
    using hd_tl last_bl nx mem ys(2)
    by (intro successively_linked_cong) (auto simp: dlist_del_def Let_def)
  moreover have "linked ?s (last ys) (hd ys)"
    using nx mem ys(2) by (auto simp: dlist_del_def Let_def linked_def)
  ultimately show ?thesis using ys ne by (simp add: ring_def successively_append_iff)
qed

text \<open>What each operation writes outside the new element and its two neighbours: nothing.\<close>

lemma dlist_add_between_other:
  "a \<noteq> new \<Longrightarrow> a \<noteq> prv \<Longrightarrow> dnext (dlist_add_between new nxt prv s) a = dnext s a"
  "a \<noteq> new \<Longrightarrow> a \<noteq> nxt \<Longrightarrow> dprev (dlist_add_between new nxt prv s) a = dprev s a"
  by (simp_all add: dlist_add_between_def Let_def)

lemma dlist_del_other:
  "a \<noteq> dprev s x \<Longrightarrow> dnext (dlist_del x s) a = dnext s a"
  "a \<noteq> dnext s x \<Longrightarrow> dprev s x \<noteq> x \<Longrightarrow> dprev (dlist_del x s) a = dprev s a"
  by (auto simp: dlist_del_def Let_def)

section \<open>The operations on the sequence of items\<close>

lemma dlist_items_distinct: "dlist_items s h xs \<Longrightarrow> distinct (h # xs)"
  by (simp add: dlist_items_def ring_def)

lemma dlist_items_init: "dlist_items (dlist_init h s) h []"
  by (simp add: dlist_items_def dlist_init_def ring_single)

lemma dlist_items_next_prev:
  assumes "dlist_items s h xs"
  shows "dnext s h = hd (xs @ [h])" "dprev s h = last (h # xs)"
proof -
  show "dprev s h = last (h # xs)" using ring_first_last [of s "h # xs"] assms
    by (simp add: dlist_items_def)
  have "ring s (xs @ [h])" using assms by (simp add: dlist_items_def ring_rotate)
  then show "dnext s h = hd (xs @ [h])" using ring_first_last by fastforce
qed

lemma dlist_empty_iff: "dlist_items s h xs \<Longrightarrow> dlist_empty h s \<longleftrightarrow> xs = []"
  using dlist_items_next_prev(1) [of s h xs] dlist_items_distinct [of s h xs]
  by (cases xs) (auto simp: dlist_empty_def)

lemma dlist_items_add_prev:
  assumes "dlist_items s h xs" "new \<notin> set (h # xs)"
  shows "dlist_items (dlist_add_prev new h s) h (xs @ [new])"
  using ring_insert [of s "h # xs" new] assms dlist_items_next_prev(2) [OF assms(1)]
  by (simp add: dlist_items_def dlist_add_prev_def)

lemma dlist_items_add_next:
  assumes "dlist_items s h xs" "new \<notin> set (h # xs)"
  shows "dlist_items (dlist_add_next new h s) h (new # xs)"
proof -
  have "ring s (xs @ [h])" using assms by (simp add: dlist_items_def ring_rotate)
  from ring_insert [OF this, of new] assms(2)
  have "ring (dlist_add_between new (hd (xs @ [h])) h s) (xs @ [h, new])" by simp
  then have "ring (dlist_add_next new h s) ([h, new] @ xs)"
    using dlist_items_next_prev(1) [OF assms(1)] ring_rotate_append [of _ xs "[h, new]"]
    by (simp add: dlist_add_next_def)
  then show ?thesis by (simp add: dlist_items_def)
qed

text \<open>Insertion before an item, as the sorted lists do it.\<close>

lemma dlist_items_add_before:
  assumes "dlist_items s h (xs @ y # ys)" "new \<notin> set (h # xs @ y # ys)"
  shows "dlist_items (dlist_add_prev new y s) h (xs @ new # y # ys)"
proof -
  have r: "ring s ((y # ys) @ h # xs)"
    using assms(1) ring_rotate_append [of s "h # xs" "y # ys"] by (simp add: dlist_items_def)
  have "dprev s y = last ((y # ys) @ h # xs)" using ring_first_last(2) [OF r] by simp
  with ring_insert [OF r, of new] assms(2)
  have "ring (dlist_add_prev new y s) ((y # ys) @ (h # xs @ [new]))"
    by (simp add: dlist_add_prev_def)
  then show ?thesis
    using ring_rotate_append [of _ "y # ys" "h # xs @ [new]"] by (simp add: dlist_items_def)
qed

lemma dlist_items_del:
  assumes "dlist_items s h (xs @ x # ys)"
  shows "dlist_items (dlist_del x s) h (xs @ ys)"
proof -
  have "ring s ((h # xs @ [x]) @ ys)" using assms by (simp add: dlist_items_def)
  then have "ring s ((ys @ h # xs) @ [x])" by (subst (asm) ring_rotate_append) simp
  then have "ring (dlist_del x s) (ys @ h # xs)" by (rule ring_delete) simp
  then show ?thesis by (subst (asm) ring_rotate_append) (simp add: dlist_items_def)
qed

lemma dlist_items_del_init:
  assumes "dlist_items s h (xs @ x # ys)"
  shows "dlist_items (dlist_del_init x s) h (xs @ ys)" "dlist_items (dlist_del_init x s) x []"
proof -
  show "dlist_items (dlist_del_init x s) x []"
    by (simp add: dlist_del_init_def dlist_items_init)
  have "x \<notin> set (h # xs @ ys)" using dlist_items_distinct [OF assms] by auto
  then have "ring (dlist_init x (dlist_del x s)) (h # xs @ ys) = ring (dlist_del x s) (h # xs @ ys)"
    by (intro ring_cong) (auto simp: dlist_init_def)
  then show "dlist_items (dlist_del_init x s) h (xs @ ys)"
    using dlist_items_del [OF assms] by (simp add: dlist_del_init_def dlist_items_def)
qed

lemma ring_neighbours:
  assumes "ring s ys" "x \<in> set ys"
  shows "dnext s x \<in> set ys" "dprev s x \<in> set ys" "dprev s (dnext s x) = x" "dnext s (dprev s x) = x"
proof -
  obtain as bs where ys: "ys = as @ x # bs" using assms(2) by (meson split_list)
  have 1: "ring s (x # bs @ as)" using assms(1) ring_rotate_append [of s as "x # bs"] ys by simp
  then have 2: "ring s ((bs @ as) @ [x])" by (simp add: ring_rotate)
  note f1 = ring_first_last [OF 1] and f2 = ring_first_last [OF 2]
  have n: "dnext s x = hd ((bs @ as) @ [x])" using f2 by simp
  have p: "dprev s x = last (x # bs @ as)" using f1 by simp
  have "hd ((bs @ as) @ [x]) \<in> set ((bs @ as) @ [x])" "last (x # bs @ as) \<in> set (x # bs @ as)"
    by (rule hd_in_set, simp, rule last_in_set, simp)
  then show "dnext s x \<in> set ys" "dprev s x \<in> set ys" by (auto simp: n p ys)
  show "dprev s (dnext s x) = x" using f2(2) n by simp
  show "dnext s (dprev s x) = x" using f1(1) p by simp
qed

text \<open>The operations keep every list of the store whose nodes are not involved.\<close>

lemma ring_frame_between:
  assumes "new \<notin> set zs" "nxt \<notin> set zs" "prv \<notin> set zs"
  shows "ring (dlist_add_between new nxt prv s) zs \<longleftrightarrow> ring s zs"
proof (rule ring_cong)
  fix a assume "a \<in> set zs"
  with assms have "a \<noteq> new" "a \<noteq> nxt" "a \<noteq> prv" by auto
  then show "dnext (dlist_add_between new nxt prv s) a = dnext s a
      \<and> dprev (dlist_add_between new nxt prv s) a = dprev s a"
    by (simp add: dlist_add_between_other)
qed

lemma dlist_items_frame_add:
  assumes "dlist_items s h xs" "dlist_items s k ys" "set (h # xs) \<inter> set (k # ys) = {}"
    and "new \<notin> set (k # ys)" "y \<in> set (h # xs)"
  shows "dlist_items (dlist_add_prev new y s) k ys" "dlist_items (dlist_add_next new y s) k ys"
proof -
  have "dprev s y \<in> set (h # xs)" "dnext s y \<in> set (h # xs)"
    using assms(1,5) ring_neighbours unfolding dlist_items_def by blast+
  then have "dprev s y \<notin> set (k # ys)" "dnext s y \<notin> set (k # ys)" "y \<notin> set (k # ys)"
    using assms(3,5) by blast+
  then show "dlist_items (dlist_add_prev new y s) k ys" "dlist_items (dlist_add_next new y s) k ys"
    using assms(2,4) unfolding dlist_items_def dlist_add_prev_def dlist_add_next_def
    by (blast intro: ring_frame_between [THEN iffD2])+
qed

lemma dlist_items_frame_del:
  assumes "dlist_items s h xs" "dlist_items s k ys" "set (h # xs) \<inter> set (k # ys) = {}"
    and "x \<in> set xs"
  shows "dlist_items (dlist_del x s) k ys" "dlist_items (dlist_del_init x s) k ys"
proof -
  have n: "dprev s x \<in> set (h # xs)" "dnext s x \<in> set (h # xs)"
    using assms(1,4) ring_neighbours [of s "h # xs" x] unfolding dlist_items_def by auto
  have "dnext (dlist_del x s) a = dnext s a \<and> dprev (dlist_del x s) a = dprev s a"
    if "a \<in> set (k # ys)" for a
    using that n assms(3) by (auto simp: dlist_del_def Let_def)
  then show *: "dlist_items (dlist_del x s) k ys"
    using assms(2) unfolding dlist_items_def by (subst ring_cong) auto
  have "x \<notin> set (k # ys)" using assms(3,4) by auto
  then have "ring (dlist_init x (dlist_del x s)) (k # ys) = ring (dlist_del x s) (k # ys)"
    by (intro ring_cong) (auto simp: dlist_init_def)
  with * show "dlist_items (dlist_del_init x s) k ys"
    by (simp add: dlist_del_init_def dlist_items_def)
qed

lemma dlist_foreach_from_suffix:
  assumes "dlist_items s h (xs @ ys)"
  shows "dlist_foreach_from s h (hd (ys @ [h])) = Some ys"
  using assms
proof (induction ys arbitrary: xs)
  case Nil
  then show ?case by (simp add: dlist_foreach_from.simps)
next
  case (Cons y ys)
  then have IH: "dlist_foreach_from s h (hd (ys @ [h])) = Some ys" by (simp add: Cons.IH [of "xs @ [y]"])
  have "ring s ((h # xs @ [y]) @ ys)" using Cons.prems by (simp add: dlist_items_def)
  then have "ring s (ys @ h # xs @ [y])" by (subst (asm) ring_rotate_append)
  from ring_first_last(1) [OF this] have "dnext s y = hd (ys @ [h])" by (simp add: hd_append)
  moreover have "y \<noteq> h" using dlist_items_distinct [OF Cons.prems] by auto
  ultimately show ?case using IH by (simp add: dlist_foreach_from.simps [of s h y])
qed

lemma dlist_foreach_items: "dlist_items s h xs \<Longrightarrow> dlist_foreach s h = Some xs"
  using dlist_foreach_from_suffix [of s h "[]" xs] dlist_items_next_prev(1) [of s h xs]
  by (simp add: dlist_foreach_def)

lemma dlist_debug_check_items:
  "dlist_items s h xs \<Longrightarrow> x \<in> set (h # xs) \<Longrightarrow> dlist_debug_check x s"
  using ring_neighbours [of s "h # xs" x] by (simp add: dlist_items_def dlist_debug_check_def)

lemma dlist_items_remove1:
  assumes "dlist_items s h xs" "x \<in> set xs"
  shows "dlist_items (dlist_del x s) h (remove1 x xs)"
    "dlist_items (dlist_del_init x s) h (remove1 x xs)" "dlist_items (dlist_del_init x s) x []"
proof -
  obtain ys zs where xs: "xs = ys @ x # zs" "x \<notin> set ys" using assms(2) by (meson split_list_first)
  then have "remove1 x xs = ys @ zs" by (simp add: remove1_append)
  then show "dlist_items (dlist_del x s) h (remove1 x xs)"
    "dlist_items (dlist_del_init x s) h (remove1 x xs)" "dlist_items (dlist_del_init x s) x []"
    using assms(1) dlist_items_del dlist_items_del_init unfolding xs(1) by metis+
qed

section \<open>Properties\<close>

text \<open>
  C22: The pointer operations implement the operations on the sequence of items: adding before the
  head appends, adding after the head prepends, deleting removes the item, traversal returns
  the items in order and ends, and the emptiness test and the end lookups read the sequence.
\<close>

theorem dlist_refines_sequence:
  assumes "dlist_items s h xs"
  shows "(new \<notin> set (h # xs) \<longrightarrow> dlist_items (dlist_add_prev new h s) h (xs @ [new])
        \<and> dlist_items (dlist_add_next new h s) h (new # xs))
     \<and> (x \<in> set xs \<longrightarrow> dlist_items (dlist_del_init x s) h (remove1 x xs)
        \<and> dlist_items (dlist_del_init x s) x []
        \<and> dlist_items (dlist_move x h s) h (x # remove1 x xs))
     \<and> dlist_foreach s h = Some xs \<and> (dlist_empty h s \<longleftrightarrow> xs = [])
     \<and> dlist_first_or_null h s = (if xs = [] then None else Some (hd xs))
     \<and> dlist_last_or_null h s = (if xs = [] then None else Some (last xs))"
proof -
  have "dlist_items (dlist_move x h s) h (x # remove1 x xs)" if "x \<in> set xs"
  proof -
    have "x \<notin> set (h # remove1 x xs)" using dlist_items_distinct [OF assms] that by auto
    with dlist_items_remove1(1) [OF assms that] show ?thesis
      by (simp add: dlist_move_def dlist_items_add_next)
  qed
  moreover have "dlist_first_or_null h s = (if xs = [] then None else Some (hd xs))"
    "dlist_last_or_null h s = (if xs = [] then None else Some (last xs))"
    using dlist_items_next_prev [OF assms] dlist_empty_iff [OF assms]
    by (auto simp: dlist_first_or_null_def dlist_last_or_null_def dlist_next_def dlist_prev_def)
  ultimately show ?thesis
    using dlist_items_add_prev [OF assms, of new] dlist_items_add_next [OF assms, of new]
      dlist_items_remove1 [OF assms, of x] dlist_foreach_items [OF assms] dlist_empty_iff [OF assms]
    by simp
qed

definition demo_store :: dlist_store where
  "demo_store = dlist_add_prev 30 10 (dlist_add_prev 20 10 (dlist_init 10 \<lparr>dnext = id, dprev = id\<rparr>))"

theorem dlist_refines_sequence_witness:
  "dlist_items demo_store 10 [20, 30]
     \<and> dlist_items (dlist_add_next 40 10 demo_store) 10 [40, 20, 30]
     \<and> dlist_items (dlist_del_init 20 demo_store) 10 [30]
     \<and> dlist_foreach demo_store 10 = Some [20, 30]"
proof -
  have h: "dlist_items demo_store 10 [20, 30]"
    unfolding demo_store_def
    using dlist_items_add_prev [OF dlist_items_add_prev [OF dlist_items_init, of 20 10], of 30] by simp
  from dlist_refines_sequence [OF h, of 40 20] h show ?thesis by simp
qed

text \<open>
  C29: Lists do not disturb each other: adding to or deleting from one list leaves the items of
  every list that shares no node with it, and every node passes the link check of the debug build.
\<close>

theorem dlist_ops_frame:
  assumes "dlist_items s h xs" "dlist_items s k ys" "set (h # xs) \<inter> set (k # ys) = {}"
    and "new \<notin> set (k # ys)" "y \<in> set (h # xs)" "x \<in> set xs" "z \<in> set (k # ys)"
  shows "dlist_items (dlist_add_prev new y s) k ys \<and> dlist_items (dlist_add_next new y s) k ys
     \<and> dlist_items (dlist_del x s) k ys \<and> dlist_items (dlist_del_init x s) k ys
     \<and> dlist_debug_check z (dlist_del x s)"
  using dlist_items_frame_add [OF assms(1-5)] dlist_items_frame_del [OF assms(1-3,6)]
    dlist_debug_check_items assms(7) by blast

definition demo_store2 :: dlist_store where
  "demo_store2 = dlist_add_prev 60 50 (dlist_init 50 demo_store)"

theorem dlist_ops_frame_witness:
  "dlist_items demo_store2 10 [20, 30] \<and> dlist_items demo_store2 50 [60]
     \<and> dlist_items (dlist_del_init 20 demo_store2) 50 [60]
     \<and> dlist_items (dlist_add_prev 70 30 demo_store2) 50 [60]"
proof -
  have d: "dlist_items demo_store 10 [20, 30]"
    unfolding demo_store_def
    using dlist_items_add_prev [OF dlist_items_add_prev [OF dlist_items_init, of 20 10], of 30] by simp
  have "ring (dlist_init 50 demo_store) [10, 20, 30] = ring demo_store [10, 20, 30]"
    by (intro ring_cong) (auto simp: dlist_init_def)
  with d have 1: "dlist_items (dlist_init 50 demo_store) 10 [20, 30]" by (simp add: dlist_items_def)
  have 2: "dlist_items demo_store2 50 [60]"
    unfolding demo_store2_def using dlist_items_add_prev [OF dlist_items_init, of 60 50] by simp
  have 3: "dlist_items demo_store2 10 [20, 30]" unfolding demo_store2_def
    using dlist_items_frame_add(1) [OF dlist_items_init [of 50 demo_store] 1, of 60 50] by simp
  from dlist_ops_frame [OF 3 2, of 70 30 20 60] 2 3 show ?thesis by simp
qed

end
