(* ===== verification/Alloc_Interface.thy ===== *)
theory Alloc_Interface
  imports Main
begin

text \<open>
  The contract of an allocator of single objects: what an allocation may return, what a release
  gives back, and what follows for any client, in particular that exactly as many allocations
  succeed as there are objects left and that they are all different.
\<close>

locale object_allocator =
  fixes alloc :: "'s \<Rightarrow> ('a \<times> 's) option"
    and release :: "'a \<Rightarrow> 's \<Rightarrow> 's"
    and live :: "'s \<Rightarrow> 'a set"
    and universe :: "'s \<Rightarrow> 'a set"
    and invar :: "'s \<Rightarrow> bool"
  assumes alloc_Some: "invar s \<Longrightarrow> alloc s = Some (x, s') \<Longrightarrow>
      invar s' \<and> x \<in> universe s - live s \<and> live s' = insert x (live s) \<and> universe s' = universe s"
    and alloc_None: "invar s \<Longrightarrow> alloc s = None \<Longrightarrow> live s = universe s"
    and release: "invar s \<Longrightarrow> x \<in> live s \<Longrightarrow>
      invar (release x s) \<and> live (release x s) = live s - {x} \<and> universe (release x s) = universe s"
    and live_sub: "invar s \<Longrightarrow> live s \<subseteq> universe s"
    and universe_finite: "invar s \<Longrightarrow> finite (universe s)"
begin

primrec alloc_many :: "nat \<Rightarrow> 's \<Rightarrow> ('a list \<times> 's) option" where
  "alloc_many 0 s = Some ([], s)"
| "alloc_many (Suc n) s =
     (case alloc s of None \<Rightarrow> None
      | Some (x, s') \<Rightarrow> map_option (\<lambda>(xs, s''). (x # xs, s'')) (alloc_many n s'))"

definition room :: "'s \<Rightarrow> nat" where
  "room s = card (universe s - live s)"

lemma room_alloc:
  assumes "invar s" "alloc s = Some (x, s')"
  shows "room s = Suc (room s')"
proof -
  have "universe s - live s = insert x (universe s' - live s')" "x \<notin> universe s' - live s'"
    using alloc_Some [OF assms] by auto
  moreover have "finite (universe s' - live s')"
    using alloc_Some [OF assms] universe_finite assms(1) by auto
  ultimately show ?thesis by (simp add: room_def)
qed

lemma room_alloc_None: "invar s \<Longrightarrow> alloc s = None \<Longrightarrow> room s = 0"
  by (simp add: room_def alloc_None)

lemma alloc_iff_room: "invar s \<Longrightarrow> alloc s = None \<longleftrightarrow> room s = 0"
  using room_alloc room_alloc_None by (cases "alloc s") auto

text \<open>As many allocations as there is room succeed; they return pairwise different free objects.\<close>

lemma alloc_many_ok:
  assumes "invar s" "n \<le> room s"
  shows "\<exists>xs s'. alloc_many n s = Some (xs, s') \<and> invar s' \<and> length xs = n \<and> distinct xs
     \<and> set xs \<subseteq> universe s - live s \<and> live s' = live s \<union> set xs \<and> universe s' = universe s"
  using assms
proof (induction n arbitrary: s)
  case 0
  then show ?case by simp
next
  case (Suc n)
  then obtain x t where t: "alloc s = Some (x, t)" using alloc_iff_room [of s] by (cases "alloc s") auto
  note st = alloc_Some [OF Suc.prems(1) t]
  from room_alloc [OF Suc.prems(1) t] Suc.prems have "n \<le> room t" by simp
  with Suc.IH [of t] st obtain xs s' where "alloc_many n t = Some (xs, s')" "invar s'"
    "length xs = n" "distinct xs" "set xs \<subseteq> universe t - live t" "live s' = live t \<union> set xs"
    "universe s' = universe t" by blast
  with st t show ?case by auto
qed

lemma alloc_many_fail: "invar s \<Longrightarrow> room s < n \<Longrightarrow> alloc_many n s = None"
proof (induction n arbitrary: s)
  case (Suc n)
  show ?case
  proof (cases "alloc s")
    case (Some p)
    obtain x t where p: "p = (x, t)" by (cases p)
    with Suc Some alloc_Some [of s x t] room_alloc [of s x t] show ?thesis by simp
  qed simp
qed simp

lemma release_alloc_again:
  assumes "invar s" "x \<in> live s"
  shows "alloc (release x s) \<noteq> None"
proof -
  have "universe (release x s) \<noteq> live (release x s)"
    using release [OF assms] live_sub [OF assms(1)] assms(2) by auto
  then show ?thesis using alloc_None release [OF assms] by metis
qed

end

end
