(* ===== verification/Pool.thy ===== *)
theory Pool
  imports Prelude Alloc_Interface
begin

text \<open>
  The fixed-size object pool of \<^verbatim>\<open>mem/misc/pool.c\<close> with its free list, the intrusive singly linked
  list of \<^verbatim>\<open>lib/libds/slist\<close> whose links lie inside the free objects themselves.  The pool is shown to
  meet the contract of an object allocator and never to write into an object that is in use.
\<close>

section \<open>The intrusive singly linked list\<close>

type_synonym slinks = "addr \<Rightarrow> addr"  \<comment> \<open>the \<open>next\<close> field stored at an address\<close>

definition slist_link_init :: "addr \<Rightarrow> slinks \<Rightarrow> slinks" where
  "slist_link_init l m = m(l := l)"

definition slist_init :: "addr \<Rightarrow> slinks \<Rightarrow> slinks" where
  "slist_init l m = m(l := l)"

definition slist_empty :: "addr \<Rightarrow> slinks \<Rightarrow> bool" where
  "slist_empty l m \<longleftrightarrow> m l = l"

definition slist_first_link :: "addr \<Rightarrow> slinks \<Rightarrow> addr option" where
  "slist_first_link l m = (if slist_empty l m then None else Some (m l))"

definition slist_insert_after_link :: "addr \<Rightarrow> addr \<Rightarrow> slinks \<Rightarrow> slinks" where
  "slist_insert_after_link new l m = (let m = m(new := m l) in m(l := new))"

definition slist_add_first_link :: "addr \<Rightarrow> addr \<Rightarrow> slinks \<Rightarrow> slinks" where
  "slist_add_first_link new l m = slist_insert_after_link new l m"

definition slist_remove_first_link :: "addr \<Rightarrow> slinks \<Rightarrow> addr option \<times> slinks" where
  "slist_remove_first_link l m =
     (case slist_first_link l m of
        None \<Rightarrow> (None, m)
      | Some first \<Rightarrow> (Some first, slist_link_init first (m(l := m first))))"

lemmas slist_defs = slist_link_init_def slist_init_def slist_empty_def
  slist_first_link_def slist_insert_after_link_def slist_add_first_link_def
  slist_remove_first_link_def Let_def

section \<open>The pool\<close>

record pool =
  memory :: addr
  free_blocks :: addr     \<comment> \<open>the address of the list head\<close>
  obj_size :: nat
  pool_size :: nat
  bound_free :: addr
  links :: slinks         \<comment> \<open>the memory words that hold list links\<close>

definition pool_belong :: "pool \<Rightarrow> addr \<Rightarrow> bool" where
  "pool_belong pl obj \<longleftrightarrow> memory pl \<le> obj \<and> obj + obj_size pl \<le> memory pl + pool_size pl
     \<and> (obj - memory pl) mod obj_size pl = 0"

text \<open>The outer \<^const>\<open>None\<close> is a failed assertion, the inner one the null pointer.\<close>

definition pool_alloc :: "pool \<Rightarrow> (addr option \<times> pool) option" where
  "pool_alloc pl =
     (if \<not> slist_empty (free_blocks pl) (links pl) then
        let (obj, m) = slist_remove_first_link (free_blocks pl) (links pl)
        in Some (obj, pl\<lparr>links := m\<rparr>)
      else if bound_free pl \<noteq> memory pl + pool_size pl then
        let obj = bound_free pl; pl = pl\<lparr>bound_free := bound_free pl + obj_size pl\<rparr>
        in if bound_free pl \<le> memory pl + pool_size pl then Some (Some obj, pl) else None
      else Some (None, pl))"

definition pool_free :: "pool \<Rightarrow> addr \<Rightarrow> pool option" where
  "pool_free pl obj =
     (if obj \<noteq> 0 \<and> pool_belong pl obj then
        let m = slist_link_init obj (links pl)
        in Some (pl\<lparr>links := slist_add_first_link obj (free_blocks pl) m\<rparr>)
      else None)"

section \<open>Abstract view\<close>

definition slist_items :: "slinks \<Rightarrow> addr \<Rightarrow> addr list \<Rightarrow> bool" where
  "slist_items m l xs \<longleftrightarrow> distinct (l # xs) \<and> successively (\<lambda>a b. m a = b) (l # xs @ [l])"

partial_function (option) slist_walk :: "slinks \<Rightarrow> addr \<Rightarrow> addr \<Rightarrow> addr list option" where
  "slist_walk m l a =
     (if a = l then Some [] else Option.bind (slist_walk m l (m a)) (\<lambda>xs. Some (a # xs)))"

definition free_objs :: "pool \<Rightarrow> addr list" where
  "free_objs pl = the (slist_walk (links pl) (free_blocks pl) (links pl (free_blocks pl)))"

definition pool_slots :: "pool \<Rightarrow> addr set" where
  "pool_slots pl = (\<lambda>i. memory pl + i * obj_size pl) ` {..<pool_size pl div obj_size pl}"

definition pool_live :: "pool \<Rightarrow> addr set" where
  "pool_live pl = {x \<in> pool_slots pl. x < bound_free pl} - set (free_objs pl)"

definition pool_inv :: "pool \<Rightarrow> bool" where
  "pool_inv pl \<longleftrightarrow> 0 < obj_size pl \<and> obj_size pl dvd pool_size pl \<and> 0 < memory pl
     \<and> (\<exists>n \<le> pool_size pl div obj_size pl. bound_free pl = memory pl + n * obj_size pl)
     \<and> free_blocks pl \<notin> pool_slots pl
     \<and> (\<exists>xs. slist_items (links pl) (free_blocks pl) xs
          \<and> set xs \<subseteq> {x \<in> pool_slots pl. x < bound_free pl})"

text \<open>The pool as an allocator of single objects.\<close>

definition pool_get :: "pool \<Rightarrow> (addr \<times> pool) option" where
  "pool_get pl = (case pool_alloc pl of Some (Some x, pl') \<Rightarrow> Some (x, pl') | _ \<Rightarrow> None)"

definition pool_put :: "addr \<Rightarrow> pool \<Rightarrow> pool" where
  "pool_put x pl = (case pool_free pl x of Some pl' \<Rightarrow> pl' | None \<Rightarrow> pl)"

text \<open>The initial state laid down by the macro \<^verbatim>\<open>POOL_DEF\<close>.\<close>

definition POOL_DEF :: "addr \<Rightarrow> addr \<Rightarrow> nat \<Rightarrow> nat \<Rightarrow> slinks \<Rightarrow> pool" where
  "POOL_DEF storage head osize n m =
     \<lparr>memory = storage, free_blocks = head, obj_size = osize, pool_size = n * osize,
      bound_free = storage, links = slist_init head m\<rparr>"

primrec pool_alloc_n :: "nat \<Rightarrow> pool \<Rightarrow> (addr option list \<times> pool) option" where
  "pool_alloc_n 0 pl = Some ([], pl)"
| "pool_alloc_n (Suc k) pl =
     (case pool_alloc pl of
        None \<Rightarrow> None
      | Some (r, pl') \<Rightarrow> map_option (\<lambda>(rs, pl''). (r # rs, pl'')) (pool_alloc_n k pl'))"

text \<open>
  The histories of a pool of \<open>n\<close> objects: the client allocates, and frees only what it holds; the
  set collects the objects it holds. A client may write anything into the objects it holds.
\<close>

inductive pool_reach :: "addr \<Rightarrow> addr \<Rightarrow> nat \<Rightarrow> nat \<Rightarrow> addr set \<Rightarrow> pool \<Rightarrow> bool"
  for storage head osize n where
  init: "pool_reach storage head osize n {} (POOL_DEF storage head osize n m)"
| alloc: "pool_reach storage head osize n S pl \<Longrightarrow> pool_alloc pl = Some (Some x, pl') \<Longrightarrow>
    pool_reach storage head osize n (insert x S) pl'"
| free: "pool_reach storage head osize n S pl \<Longrightarrow> x \<in> S \<Longrightarrow> pool_free pl x = Some pl' \<Longrightarrow>
    pool_reach storage head osize n (S - {x}) pl'"
| client_write: "pool_reach storage head osize n S pl \<Longrightarrow> x \<in> S \<Longrightarrow>
    pool_reach storage head osize n S (pl\<lparr>links := (links pl)(x := v)\<rparr>)"

section \<open>The list\<close>

lemma slist_items_Nil: "slist_items m l [] \<longleftrightarrow> m l = l"
  by (simp add: slist_items_def)

lemma slist_items_Cons:
  "slist_items m l (x # xs) \<longleftrightarrow> distinct (l # x # xs) \<and> m l = x \<and> m x = hd (xs @ [l])
     \<and> successively (\<lambda>a b. m a = b) (xs @ [l])"
  by (auto simp: slist_items_def successively_Cons)

lemma slist_walk_suffix:
  assumes "successively (\<lambda>a b. m a = b) (xs @ [l])" "l \<notin> set xs"
  shows "slist_walk m l (hd (xs @ [l])) = Some xs"
  using assms
proof (induction xs)
  case Nil
  then show ?case by (simp add: slist_walk.simps)
next
  case (Cons x xs)
  then have "m x = hd (xs @ [l])" by (cases xs) auto
  moreover have "successively (\<lambda>a b. m a = b) (xs @ [l])" using Cons.prems by (cases xs) auto
  ultimately show ?case using Cons by (simp add: slist_walk.simps [of m l x])
qed

lemma slist_items_hd: "slist_items m l xs \<Longrightarrow> m l = hd (xs @ [l])"
  by (cases xs) (auto simp: slist_items_def)

lemma slist_walk_items: "slist_items m l xs \<Longrightarrow> slist_walk m l (m l) = Some xs"
  using slist_walk_suffix [of m xs l] slist_items_hd [of m l xs]
  by (cases xs) (auto simp: slist_items_def)

lemma successively_agree:
  "\<forall>x \<in> set (butlast zs). m' x = m x \<Longrightarrow>
     successively (\<lambda>x y. m' x = y) zs \<longleftrightarrow> successively (\<lambda>x y. m x = y) zs"
  by (induction zs rule: induct_list012) auto

lemma slist_items_add_first:
  assumes "slist_items m l xs" "x \<notin> set (l # xs)"
  shows "slist_items (slist_add_first_link x l m) l (x # xs)"
proof -
  have "successively (\<lambda>a b. m a = b) (xs @ [l])" using assms(1)
    by (cases xs) (auto simp: slist_items_def)
  then have "successively (\<lambda>a b. (m(x := m l, l := x)) a = b) (xs @ [l])"
    using assms by (subst successively_agree [of _ _ m]) (auto simp: slist_items_def)
  moreover have "distinct (l # xs)" using assms(1) by (simp add: slist_items_def)
  ultimately show ?thesis using assms(2) slist_items_hd [OF assms(1)]
    by (auto simp: slist_items_Cons slist_defs)
qed

lemma slist_items_remove_first:
  assumes "slist_items m l (x # xs)"
  shows "slist_remove_first_link l m = (Some x, m(l := m x, x := x))"
    "slist_items (m(l := m x, x := x)) l xs"
proof -
  have x: "m l = x" "x \<noteq> l" "l \<notin> set xs" "x \<notin> set xs" "distinct xs" "m x = hd (xs @ [l])"
    "successively (\<lambda>a b. m a = b) (xs @ [l])" using assms by (auto simp: slist_items_Cons)
  then show "slist_remove_first_link l m = (Some x, m(l := m x, x := x))" by (simp add: slist_defs)
  have "successively (\<lambda>a b. (m(l := m x, x := x)) a = b) (xs @ [l])"
    using x by (subst successively_agree [of _ _ m]) auto
  then show "slist_items (m(l := m x, x := x)) l xs"
    using x by (cases xs) (auto simp: slist_items_def)
qed

lemma slist_empty_items: "slist_items m l xs \<Longrightarrow> slist_empty l m \<longleftrightarrow> xs = []"
  by (cases xs) (auto simp: slist_items_def slist_defs)

section \<open>The pool\<close>

lemma pool_invE:
  assumes "pool_inv pl"
  obtains n xs where "0 < obj_size pl" "n \<le> pool_size pl div obj_size pl"
    "bound_free pl = memory pl + n * obj_size pl" "free_blocks pl \<notin> pool_slots pl"
    "slist_items (links pl) (free_blocks pl) xs" "free_objs pl = xs"
    "set xs \<subseteq> {x \<in> pool_slots pl. x < bound_free pl}"
    "pool_size pl = pool_size pl div obj_size pl * obj_size pl"
proof -
  from assms obtain n xs where *: "0 < obj_size pl" "obj_size pl dvd pool_size pl"
    "n \<le> pool_size pl div obj_size pl"
    "bound_free pl = memory pl + n * obj_size pl" "free_blocks pl \<notin> pool_slots pl"
    "slist_items (links pl) (free_blocks pl) xs"
    "set xs \<subseteq> {x \<in> pool_slots pl. x < bound_free pl}" by (auto simp: pool_inv_def)
  have "free_objs pl = xs" using slist_walk_items [OF *(6)] by (simp add: free_objs_def)
  moreover have "pool_size pl = pool_size pl div obj_size pl * obj_size pl" using *(2) by simp
  ultimately show thesis using * that by blast
qed

lemma pool_slots_below:
  "0 < obj_size pl \<Longrightarrow> n \<le> pool_size pl div obj_size pl \<Longrightarrow>
    {x \<in> pool_slots pl. x < memory pl + n * obj_size pl} = (\<lambda>i. memory pl + i * obj_size pl) ` {..<n}"
  by (auto simp: pool_slots_def)

lemma finite_pool_slots [simp]: "finite (pool_slots pl)"
  by (simp add: pool_slots_def)

lemma pool_live_slots: "pool_live pl \<subseteq> pool_slots pl"
  by (auto simp: pool_live_def)

lemma pool_slots_upd [simp]:
  "pool_slots (pl\<lparr>links := m\<rparr>) = pool_slots pl" "pool_slots (pl\<lparr>bound_free := b\<rparr>) = pool_slots pl"
  by (simp_all add: pool_slots_def)

lemma pool_belong_slot:
  assumes "pool_inv pl" "x \<in> pool_slots pl"
  shows "pool_belong pl x" "x \<noteq> 0"
proof -
  obtain n xs where e: "0 < obj_size pl" "n \<le> pool_size pl div obj_size pl"
    "pool_size pl = pool_size pl div obj_size pl * obj_size pl"
    using pool_invE [OF assms(1)] by metis
  from assms(2) obtain i where i: "i < pool_size pl div obj_size pl" "x = memory pl + i * obj_size pl"
    by (auto simp: pool_slots_def)
  have "Suc i * obj_size pl \<le> pool_size pl div obj_size pl * obj_size pl"
    using i by (intro mult_le_mono1) simp
  with i e(3) show "pool_belong pl x" by (simp add: pool_belong_def)
  show "x \<noteq> 0" using assms(1) i by (simp add: pool_inv_def)
qed

text \<open>The three ways an allocation goes.\<close>

lemma pool_alloc_cases:
  assumes inv: "pool_inv pl"
  obtains (reuse) x xs where "free_objs pl = x # xs"
      "pool_alloc pl = Some (Some x, pl\<lparr>links := (links pl)(free_blocks pl := links pl x, x := x)\<rparr>)"
      "slist_items ((links pl)(free_blocks pl := links pl x, x := x)) (free_blocks pl) xs"
  | (fresh) n where "free_objs pl = []" "n < pool_size pl div obj_size pl"
      "bound_free pl = memory pl + n * obj_size pl"
      "pool_alloc pl = Some (Some (bound_free pl), pl\<lparr>bound_free := bound_free pl + obj_size pl\<rparr>)"
  | (full) "free_objs pl = []" "bound_free pl = memory pl + pool_size pl"
      "pool_alloc pl = Some (None, pl)"
proof -
  obtain n xs where e: "0 < obj_size pl" "n \<le> pool_size pl div obj_size pl"
    "bound_free pl = memory pl + n * obj_size pl"
    "slist_items (links pl) (free_blocks pl) xs" "free_objs pl = xs"
    "pool_size pl = pool_size pl div obj_size pl * obj_size pl"
    using pool_invE [OF inv] by metis
  note emp = slist_empty_items [OF e(4)]
  show thesis
  proof (cases xs)
    case (Cons x ys)
    with e(4) have i: "slist_items (links pl) (free_blocks pl) (x # ys)" by simp
    show thesis
      using e(5) Cons emp slist_items_remove_first [OF i]
      by (intro reuse [of x ys]) (simp_all add: pool_alloc_def)
  next
    case Nil
    show thesis
    proof (cases "n = pool_size pl div obj_size pl")
      case True
      then have "bound_free pl = memory pl + pool_size pl" using e by simp
      with Nil e(5) emp show thesis by (intro full) (simp_all add: pool_alloc_def)
    next
      case False
      then have n: "n < pool_size pl div obj_size pl" using e by simp
      then have "Suc n * obj_size pl \<le> pool_size pl div obj_size pl * obj_size pl"
        by (intro mult_le_mono1) simp
      then have le: "bound_free pl + obj_size pl \<le> memory pl + pool_size pl" using e(3,6) by simp
      then have "bound_free pl \<noteq> memory pl + pool_size pl" using e(1) by linarith
      with le n Nil e(3,5) emp show thesis by (intro fresh [of n]) (simp_all add: pool_alloc_def Let_def)
    qed
  qed
qed

lemma free_objs_items:
  "slist_items (links pl) (free_blocks pl) xs \<Longrightarrow> free_objs pl = xs"
  using slist_walk_items by (simp add: free_objs_def)

lemma pool_inv_items: "pool_inv pl \<Longrightarrow> slist_items (links pl) (free_blocks pl) (free_objs pl)"
  using pool_invE by metis

lemma pool_inv_free: "pool_inv pl \<Longrightarrow> set (free_objs pl) \<subseteq> {x \<in> pool_slots pl. x < bound_free pl}"
  using pool_invE by metis

lemma pool_alloc_total: "pool_inv pl \<Longrightarrow> \<exists>r. pool_alloc pl = Some r"
  by (cases rule: pool_alloc_cases [of pl]) auto

lemma pool_alloc_step:
  assumes inv: "pool_inv pl" and a: "pool_alloc pl = Some (Some x, pl')"
  shows "pool_inv pl'" "x \<in> pool_slots pl - pool_live pl" "pool_live pl' = insert x (pool_live pl)"
    "pool_slots pl' = pool_slots pl" "\<forall>y. y \<noteq> x \<longrightarrow> y \<noteq> free_blocks pl \<longrightarrow> links pl' y = links pl y"
proof -
  have *: "pool_inv pl' \<and> x \<in> pool_slots pl - pool_live pl \<and> pool_live pl' = insert x (pool_live pl)
    \<and> pool_slots pl' = pool_slots pl \<and> (\<forall>y. y \<noteq> x \<longrightarrow> y \<noteq> free_blocks pl \<longrightarrow> links pl' y = links pl y)"
    using inv
  proof (cases rule: pool_alloc_cases)
    case (reuse y xs)
    then have x: "x = y" and pl': "pl' = pl\<lparr>links := (links pl)(free_blocks pl := links pl y, y := y)\<rparr>"
      using a by auto
    then have f: "free_objs pl' = xs" using reuse(3) by (intro free_objs_items) simp
    have "x \<notin> set xs" using pool_inv_items [OF inv] reuse(1) x by (simp add: slist_items_def)
    moreover have "pool_inv pl'" using inv reuse(3) pool_inv_free [OF inv] reuse(1)
      by (auto simp: pool_inv_def pl')
    ultimately show ?thesis using f reuse(1) x pl' pool_inv_free [OF inv]
      by (auto simp: pool_live_def)
  next
    case (fresh n)
    then have x: "x = bound_free pl" and pl': "pl' = pl\<lparr>bound_free := bound_free pl + obj_size pl\<rparr>"
      using a by auto
    have pos: "0 < obj_size pl" using inv by (simp add: pool_inv_def)
    have xs: "x \<in> pool_slots pl" using fresh x by (auto simp: pool_slots_def)
    have f: "free_objs pl' = []" using fresh(1) by (simp add: free_objs_def pl')
    have sl: "{y \<in> pool_slots pl. y < bound_free pl + obj_size pl}
        = insert x {y \<in> pool_slots pl. y < bound_free pl}"
      using pool_slots_below [of pl "Suc n"] pool_slots_below [of pl n] pos fresh x
      by (simp add: lessThan_Suc algebra_simps)
    have "\<exists>n\<le>pool_size pl' div obj_size pl'. bound_free pl' = memory pl' + n * obj_size pl'"
      using fresh by (intro exI [of _ "Suc n"]) (simp add: pl')
    moreover have "slist_items (links pl') (free_blocks pl') []"
      using pool_inv_items [OF inv] fresh(1) pl' by simp
    moreover have "set [] \<subseteq> {x \<in> pool_slots pl'. x < bound_free pl'}" by simp
    ultimately have "pool_inv pl'" using inv unfolding pool_inv_def pl' by force
    with f fresh(1) sl xs x pl' show ?thesis by (auto simp: pool_live_def)
  next
    case full
    then show ?thesis using a by simp
  qed
  then show "pool_inv pl'" "x \<in> pool_slots pl - pool_live pl" "pool_live pl' = insert x (pool_live pl)"
    "pool_slots pl' = pool_slots pl" "\<forall>y. y \<noteq> x \<longrightarrow> y \<noteq> free_blocks pl \<longrightarrow> links pl' y = links pl y"
    by blast+
qed

lemma pool_alloc_null:
  assumes inv: "pool_inv pl" and a: "pool_alloc pl = Some (None, pl')"
  shows "pl' = pl \<and> pool_live pl = pool_slots pl"
  using inv
proof (cases rule: pool_alloc_cases)
  case full
  obtain n xs where "pool_size pl = pool_size pl div obj_size pl * obj_size pl" "0 < obj_size pl"
    using pool_invE [OF inv] by metis
  then have "{x \<in> pool_slots pl. x < memory pl + pool_size pl} = pool_slots pl"
    using pool_slots_below [of pl "pool_size pl div obj_size pl"] by (simp add: pool_slots_def)
  then show ?thesis using full a by (simp add: pool_live_def)
qed (use a in simp_all)

lemma pool_free_step:
  assumes inv: "pool_inv pl" and x: "x \<in> pool_live pl"
  shows "\<exists>pl'. pool_free pl x = Some pl' \<and> pool_inv pl' \<and> pool_live pl' = pool_live pl - {x}
    \<and> pool_slots pl' = pool_slots pl \<and> free_objs pl' = x # free_objs pl
    \<and> (\<forall>y. y \<noteq> x \<longrightarrow> y \<noteq> free_blocks pl \<longrightarrow> links pl' y = links pl y)"
proof -
  have xsl: "x \<in> pool_slots pl" "x < bound_free pl" "x \<notin> set (free_objs pl)"
    using x by (auto simp: pool_live_def)
  note b = pool_belong_slot [OF inv xsl(1)]
  have ne: "x \<noteq> free_blocks pl" using inv xsl(1) by (auto simp: pool_inv_def)
  let ?m = "slist_link_init x (links pl)"
  let ?pl = "pl\<lparr>links := slist_add_first_link x (free_blocks pl) ?m\<rparr>"
  have "slist_items ?m (free_blocks pl) (free_objs pl)"
    using pool_inv_items [OF inv] xsl(3) ne successively_agree [of "free_blocks pl # free_objs pl @ [free_blocks pl]" ?m "links pl"]
    by (auto simp: slist_items_def slist_link_init_def butlast_append)
  then have it: "slist_items (links ?pl) (free_blocks pl) (x # free_objs pl)"
    using slist_items_add_first [of ?m "free_blocks pl"] ne xsl(3) by simp
  then have f: "free_objs ?pl = x # free_objs pl" by (intro free_objs_items) simp
  have "set (x # free_objs pl) \<subseteq> {y \<in> pool_slots pl. y < bound_free pl}"
    using pool_inv_free [OF inv] xsl by auto
  with inv it have "pool_inv ?pl" unfolding pool_inv_def by force
  moreover have "pool_free pl x = Some ?pl" using b by (simp add: pool_free_def Let_def)
  moreover have "\<forall>y. y \<noteq> x \<longrightarrow> y \<noteq> free_blocks pl \<longrightarrow> links ?pl y = links pl y" by (simp add: slist_defs)
  ultimately show ?thesis using f by (intro exI [of _ ?pl]) (auto simp: pool_live_def)
qed

lemma pool_get_Some: "pool_get pl = Some (x, pl') \<longleftrightarrow> pool_alloc pl = Some (Some x, pl')"
  by (auto simp: pool_get_def split: option.splits)

lemma pool_get_None: "pool_inv pl \<Longrightarrow> pool_get pl = None \<Longrightarrow> pool_alloc pl = Some (None, pl)"
  by (cases rule: pool_alloc_cases [of pl]) (auto simp: pool_get_def)

interpretation po: object_allocator pool_get pool_put pool_live pool_slots pool_inv
proof unfold_locales
  fix pl x pl' assume "pool_inv pl" "pool_get pl = Some (x, pl')"
  then show "pool_inv pl' \<and> x \<in> pool_slots pl - pool_live pl \<and> pool_live pl' = insert x (pool_live pl)
      \<and> pool_slots pl' = pool_slots pl"
    using pool_alloc_step unfolding pool_get_Some by blast
next
  fix pl assume "pool_inv pl" "pool_get pl = None"
  then show "pool_live pl = pool_slots pl" using pool_get_None pool_alloc_null by blast
next
  fix pl x assume "pool_inv pl" "x \<in> pool_live pl"
  then show "pool_inv (pool_put x pl) \<and> pool_live (pool_put x pl) = pool_live pl - {x}
      \<and> pool_slots (pool_put x pl) = pool_slots pl"
    using pool_free_step by (fastforce simp: pool_put_def)
qed (auto simp: pool_live_slots)

lemma POOL_DEF_inv:
  assumes "0 < osize" "0 < storage" "head \<notin> (\<lambda>i. storage + i * osize) ` {..<n}"
  shows "pool_inv (POOL_DEF storage head osize n m)" "pool_live (POOL_DEF storage head osize n m) = {}"
proof -
  have "slist_items (slist_init head m) head []" by (simp add: slist_items_def slist_defs)
  then show "pool_inv (POOL_DEF storage head osize n m)" using assms
    by (auto simp: pool_inv_def POOL_DEF_def pool_slots_def)
  show "pool_live (POOL_DEF storage head osize n m) = {}"
    by (auto simp: pool_live_def POOL_DEF_def pool_slots_def)
qed

lemma pool_client_write:
  assumes inv: "pool_inv pl" and x: "x \<in> pool_live pl"
  shows "pool_inv (pl\<lparr>links := (links pl)(x := v)\<rparr>)"
    "pool_live (pl\<lparr>links := (links pl)(x := v)\<rparr>) = pool_live pl"
proof -
  let ?pl = "pl\<lparr>links := (links pl)(x := v)\<rparr>"
  have "x \<noteq> free_blocks pl" "x \<notin> set (free_objs pl)"
    using x inv by (auto simp: pool_live_def pool_inv_def)
  then have it: "slist_items (links ?pl) (free_blocks ?pl) (free_objs pl)"
    using pool_inv_items [OF inv]
      successively_agree [of "free_blocks pl # free_objs pl @ [free_blocks pl]" "links ?pl" "links pl"]
    by (auto simp: slist_items_def butlast_append)
  then have "free_objs ?pl = free_objs pl" by (rule free_objs_items)
  then show "pool_live ?pl = pool_live pl" by (simp add: pool_live_def)
  show "pool_inv ?pl" using inv it pool_inv_free [OF inv] unfolding pool_inv_def by force
qed

lemma pool_reach_inv:
  assumes "pool_reach storage head osize n S pl"
    "0 < osize" "0 < storage" "head \<notin> (\<lambda>i. storage + i * osize) ` {..<n}"
  shows "pool_inv pl \<and> pool_live pl = S \<and> pool_slots pl = (\<lambda>i. storage + i * osize) ` {..<n}"
  using assms
proof (induction rule: pool_reach.induct)
  case (init m)
  then show ?case using POOL_DEF_inv [of osize storage head n m]
    by (simp add: POOL_DEF_def pool_slots_def)
next
  case (alloc S pl x pl')
  then show ?case using pool_alloc_step [of pl x pl'] by auto
next
  case (free S pl x pl')
  then show ?case using pool_free_step [of pl x] by auto
next
  case (client_write S pl x v)
  then show ?case using pool_client_write [of pl x v] by auto
qed

lemma pool_alloc_n_null: "pool_alloc pl = Some (None, pl) \<Longrightarrow> pool_alloc_n k pl = Some (replicate k None, pl)"
  by (induction k) simp_all

lemma pool_alloc_n_add: "pool_alloc_n j pl = Some (rs, pl') \<Longrightarrow> pool_alloc_n k pl' = Some (rs', pl'') \<Longrightarrow>
    pool_alloc_n (j + k) pl = Some (rs @ rs', pl'')"
  by (induction j arbitrary: pl rs) (auto split: option.splits)

lemma pool_alloc_n_many:
  "po.alloc_many k pl = Some (xs, pl') \<Longrightarrow> pool_alloc_n k pl = Some (map Some xs, pl')"
  by (induction k arbitrary: pl xs) (auto simp: pool_get_def split: option.splits)

lemma pool_alloc_n_room:
  assumes inv: "pool_inv pl"
  shows "\<exists>xs pl'. pool_alloc_n (po.room pl + k) pl = Some (map Some xs @ replicate k None, pl')
     \<and> distinct xs \<and> set xs = pool_slots pl - pool_live pl"
proof -
  obtain xs pl' where a: "po.alloc_many (po.room pl) pl = Some (xs, pl')" "pool_inv pl'"
    "length xs = po.room pl" "distinct xs" "set xs \<subseteq> pool_slots pl - pool_live pl"
    "pool_live pl' = pool_live pl \<union> set xs" "pool_slots pl' = pool_slots pl"
    using po.alloc_many_ok [OF inv] by blast
  have eq: "set xs = pool_slots pl - pool_live pl"
    using a(3-5) by (intro card_subset_eq) (simp_all add: distinct_card po.room_def)
  with a(6,7) have "po.room pl' = 0" by (auto simp: po.room_def)
  then have "pool_alloc pl' = Some (None, pl')"
    using po.alloc_iff_room [OF a(2)] pool_get_None [OF a(2)] by simp
  then show ?thesis
    using pool_alloc_n_add [OF pool_alloc_n_many [OF a(1)] pool_alloc_n_null] a(4) eq by blast
qed

section \<open>Properties\<close>

text \<open>
  C7: a pool of \<open>n\<close> objects, after any history of allocations, frees and client writes into held
  objects, serves exactly the objects the client does not hold, each once, and after them only
  null pointers, however often it is asked; no assertion fails.
\<close>

theorem pool_serves_free_objects:
  assumes "pool_reach storage head osize n S pl"
    and "0 < osize" "0 < storage" "head \<notin> (\<lambda>i. storage + i * osize) ` {..<n}"
  shows "\<exists>xs pl'. pool_alloc_n (n - card S + k) pl = Some (map Some xs @ replicate k None, pl')
     \<and> distinct xs \<and> set xs = (\<lambda>i. storage + i * osize) ` {..<n} - S"
proof -
  note r = pool_reach_inv [OF assms]
  have "S \<subseteq> pool_slots pl" using r pool_live_slots by blast
  moreover have "card (pool_slots pl) = n" using r assms(2)
    by (simp add: card_image inj_on_def)
  ultimately have "po.room pl = n - card S" using r finite_subset [of S "pool_slots pl"]
    by (simp add: po.room_def card_Diff_subset)
  then show ?thesis using pool_alloc_n_room [of pl k] r by simp
qed

lemma pool_demo_reach:
  "pool_reach 64 8 16 2 {64} (POOL_DEF 64 8 16 2 (\<lambda>_. 0)\<lparr>bound_free := 80\<rparr>)"
  using pool_reach.alloc [OF pool_reach.init, of 64 8 16 2 "\<lambda>_. 0" 64]
  by (simp add: POOL_DEF_def pool_alloc_def slist_defs)

theorem pool_serves_free_objects_witness:
  "\<exists>xs pl'. pool_alloc_n (2 - card {64::nat} + 3) (POOL_DEF 64 8 16 2 (\<lambda>_. 0)\<lparr>bound_free := 80\<rparr>)
       = Some (map Some xs @ replicate 3 None, pl')
     \<and> distinct xs \<and> set xs = (\<lambda>i. 64 + i * 16) ` {..<2} - {64}"
  by (rule pool_serves_free_objects [OF pool_demo_reach]) auto

text \<open>
  C27: freeing a held object succeeds, the next allocation returns that object, and the two together
  leave the free list, the boundary and every word of the other held objects as they were.
\<close>

theorem pool_free_alloc_lifo:
  assumes "pool_reach storage head osize n S pl" "x \<in> S"
    and "0 < osize" "0 < storage" "head \<notin> (\<lambda>i. storage + i * osize) ` {..<n}"
  shows "\<exists>pl' pl''. pool_free pl x = Some pl' \<and> pool_alloc pl' = Some (Some x, pl'')
     \<and> free_objs pl'' = free_objs pl \<and> bound_free pl'' = bound_free pl
     \<and> (\<forall>y. y \<in> S - {x} \<longrightarrow> links pl' y = links pl y \<and> links pl'' y = links pl y)"
proof -
  note r = pool_reach_inv [OF assms(1,3-5)]
  obtain pl' where f: "pool_free pl x = Some pl'" "pool_inv pl'" "pool_slots pl' = pool_slots pl"
    "free_objs pl' = x # free_objs pl" "\<forall>y. y \<noteq> x \<longrightarrow> y \<noteq> free_blocks pl \<longrightarrow> links pl' y = links pl y"
    using pool_free_step [of pl x] r assms(2) by blast
  have same: "free_blocks pl' = free_blocks pl" "bound_free pl' = bound_free pl"
    using f(1) by (auto simp: pool_free_def Let_def split: if_splits)
  have hd: "free_blocks pl \<notin> S" using r pool_live_slots by (auto simp: pool_inv_def)
  from f(2) show ?thesis
  proof (cases rule: pool_alloc_cases)
    case (reuse y xs)
    let ?pl = "pl'\<lparr>links := (links pl')(free_blocks pl' := links pl' y, y := y)\<rparr>"
    have y: "y = x" "xs = free_objs pl" using reuse(1) f(4) by auto
    have "free_objs ?pl = xs" using reuse(3) by (intro free_objs_items) simp
    then show ?thesis using f reuse y same hd
      by (intro exI [of _ pl'] exI [of _ ?pl]) auto
  qed (use f(4) in simp_all)
qed

theorem pool_free_alloc_lifo_witness:
  "\<exists>pl' pl''. pool_free (POOL_DEF 64 8 16 2 (\<lambda>_. 0)\<lparr>bound_free := 80\<rparr>) 64 = Some pl'
     \<and> pool_alloc pl' = Some (Some 64, pl'')
     \<and> free_objs pl'' = free_objs (POOL_DEF 64 8 16 2 (\<lambda>_. 0)\<lparr>bound_free := 80\<rparr>)"
proof -
  have "(8::nat) \<notin> (\<lambda>i. 64 + i * 16) ` {..<2}" by auto
  then show ?thesis using pool_free_alloc_lifo [OF pool_demo_reach, of 64] by auto
qed

end
