(* ===== verification/Queue_Interface.thy ===== *)
theory Queue_Interface
  imports Main
begin

text \<open>
  The contract of a bounded first-in first-out buffer that takes as many elements of a batch as it
  has room for and gives out as many as it holds. The lemmas a client needs are proved once here:
  batches that fit are stored whole, consecutive batches concatenate, and what was stored comes out
  in the same order whatever the sizes of the reads.
\<close>

locale bounded_fifo =
  fixes enq :: "'q \<Rightarrow> 'e list \<Rightarrow> int \<Rightarrow> (int \<times> 'q) option"
    and deq :: "'q \<Rightarrow> int \<Rightarrow> ('e list \<times> int \<times> 'q) option"
    and used :: "'q \<Rightarrow> int option"
    and space :: "'q \<Rightarrow> int option"
    and content :: "'q \<Rightarrow> 'e list"
    and room :: "'q \<Rightarrow> nat"
    and invar :: "'q \<Rightarrow> bool"
  assumes enq: "invar q \<Longrightarrow> n \<le> length xs \<Longrightarrow> n < 2 ^ 31 \<Longrightarrow>
      \<exists>q'. enq q xs (int n) = Some (int (min n (room q)), q') \<and> invar q'
         \<and> content q' = content q @ take (min n (room q)) xs
         \<and> length (content q') + room q' = length (content q) + room q"
    and deq: "invar q \<Longrightarrow> n < 2 ^ 31 \<Longrightarrow>
      \<exists>q'. deq q (int n) = Some (take n (content q), int (min n (length (content q))), q') \<and> invar q'
         \<and> content q' = drop n (content q)
         \<and> length (content q') + room q' = length (content q) + room q"
    and used: "invar q \<Longrightarrow> used q = Some (int (length (content q)))"
    and space: "invar q \<Longrightarrow> space q = Some (int (room q))"
begin

lemma enq_fits:
  assumes "invar q" "length xs \<le> room q" "length xs < 2 ^ 31"
  obtains q' where "enq q xs (int (length xs)) = Some (int (length xs), q')" "invar q'"
    "content q' = content q @ xs" "room q' = room q - length xs"
proof -
  obtain q' where q: "enq q xs (int (length xs)) = Some (int (min (length xs) (room q)), q')" "invar q'"
    "content q' = content q @ take (min (length xs) (room q)) xs"
    "length (content q') + room q' = length (content q) + room q"
    using enq [OF assms(1) _ assms(3), of xs] by auto
  with assms(2) show thesis by (intro that [of q']) simp_all
qed

lemma deq_prefix:
  assumes "invar q" "content q = xs @ ys" "length xs < 2 ^ 31"
  obtains q' where "deq q (int (length xs)) = Some (xs, int (length xs), q')" "invar q'" "content q' = ys"
    "room q' = room q + length xs"
  using deq [OF assms(1,3)] assms(2) that by auto

lemma used_zero: "invar q \<Longrightarrow> used q = Some 0 \<longleftrightarrow> content q = []"
  by (simp add: used)

text \<open>Writing and reading in pieces: the pieces concatenate.\<close>

primrec deq_all :: "nat list \<Rightarrow> 'q \<Rightarrow> ('e list \<times> 'q) option" where
  "deq_all [] q = Some ([], q)"
| "deq_all (n # ns) q =
     (case deq q (int n) of None \<Rightarrow> None
      | Some (xs, _, q') \<Rightarrow> map_option (\<lambda>(ys, q''). (xs @ ys, q'')) (deq_all ns q'))"

primrec enq_all :: "'e list list \<Rightarrow> 'q \<Rightarrow> 'q option" where
  "enq_all [] q = Some q"
| "enq_all (xs # xss) q =
     (case enq q xs (int (length xs)) of None \<Rightarrow> None | Some (_, q') \<Rightarrow> enq_all xss q')"

lemma deq_all_ok:
  assumes "invar q" "\<forall>n \<in> set ns. n < 2 ^ 31"
  shows "\<exists>q'. deq_all ns q = Some (take (sum_list ns) (content q), q') \<and> invar q'
     \<and> content q' = drop (sum_list ns) (content q)"
  using assms
proof (induction ns arbitrary: q)
  case Nil
  then show ?case by simp
next
  case (Cons n ns)
  then obtain q1 where 1: "deq q (int n) = Some (take n (content q), int (min n (length (content q))), q1)"
    "invar q1" "content q1 = drop n (content q)"
    using deq [of q n] by auto
  obtain q' where "deq_all ns q1 = Some (take (sum_list ns) (content q1), q')" "invar q'"
    "content q' = drop (sum_list ns) (content q1)"
    using Cons.IH [OF 1(2)] Cons.prems(2) by auto
  with 1 show ?case by (auto simp: take_add add.commute)
qed

lemma enq_all_ok:
  assumes "invar q" "length (concat xss) \<le> room q" "length (concat xss) < 2 ^ 31"
  shows "\<exists>q'. enq_all xss q = Some q' \<and> invar q' \<and> content q' = content q @ concat xss"
  using assms
proof (induction xss arbitrary: q)
  case Nil
  then show ?case by simp
next
  case (Cons xs xss)
  obtain q1 where 1: "enq q xs (int (length xs)) = Some (int (length xs), q1)" "invar q1"
    "content q1 = content q @ xs" "room q1 = room q - length xs"
    using enq_fits [OF Cons.prems(1), of xs] Cons.prems(2,3) by auto
  have fits: "length (concat xss) \<le> room q1" "length (concat xss) < 2 ^ 31"
    using Cons.prems(2,3) 1(4) by simp_all
  obtain q' where "enq_all xss q1 = Some q'" "invar q'" "content q' = content q1 @ concat xss"
    using Cons.IH [OF 1(2)] fits by blast
  with 1 show ?case by simp
qed

text \<open>Whatever is written into an empty buffer in pieces that fit is read back whole.\<close>

lemma write_read_all:
  assumes "invar q" "content q = []" "length (concat xss) \<le> room q" "length (concat xss) < 2 ^ 31"
    and "\<forall>n \<in> set ns. n < 2 ^ 31" "sum_list ns = length (concat xss)"
  shows "\<exists>q' q''. enq_all xss q = Some q' \<and> deq_all ns q' = Some (concat xss, q'') \<and> content q'' = []"
proof -
  obtain q' where "enq_all xss q = Some q'" "invar q'" "content q' = concat xss"
    using enq_all_ok [OF assms(1,3,4)] assms(2) by auto
  then show ?thesis using deq_all_ok [of q' ns] assms(5,6) by auto
qed

end

end
