(* ===== verification/Ring.thy ===== *)
theory Ring
  imports Prelude Queue_Interface "HOL-Library.Monad_Syntax"
begin

text \<open>
  Ring buffers: \<^verbatim>\<open>lib/libds/ring/ring.h\<close>, \<^verbatim>\<open>ring.c\<close>, \<^verbatim>\<open>lib/libds/ring_buff/ring_buff.c\<close> and
  \<^verbatim>\<open>ring_buff_alloc.c\<close>. Offsets are \<^verbatim>\<open>size_t\<close>, so every difference wraps at 64 bits; counts are
  C \<^verbatim>\<open>int\<close>. The storage is the list of its elements; a \<^verbatim>\<open>memcpy\<close> of \<open>n\<close> elements replaces a range.
  A failed assertion is \<^const>\<open>None\<close>.
\<close>

section \<open>The control block\<close>

record ring =
  head :: nat
  tail :: nat

definition ring_init :: ring where
  "ring_init = \<lparr>head = 0, tail = 0\<rparr>"

definition ring_assert_invariants :: "ring \<Rightarrow> nat \<Rightarrow> unit option" where
  "ring_assert_invariants r r_size = (if head r < r_size \<and> tail r < r_size then Some () else None)"

definition ring_empty :: "ring \<Rightarrow> bool" where
  "ring_empty r \<longleftrightarrow> head r = tail r"

definition ring_full :: "ring \<Rightarrow> nat \<Rightarrow> bool option" where
  "ring_full r r_size = do {
     ring_assert_invariants r r_size;
     Some (head r = sub64 (if tail r \<noteq> 0 then tail r else r_size) 1)
   }"

definition ring_wraps :: "ring \<Rightarrow> nat \<Rightarrow> bool option" where
  "ring_wraps r r_size = do {
     ring_assert_invariants r r_size;
     Some (head r < tail r)
   }"

definition ring_data_size :: "ring \<Rightarrow> nat \<Rightarrow> nat option" where
  "ring_data_size r r_size = do {
     let data_size = sub64 (head r) (tail r);
     w \<leftarrow> ring_wraps r r_size;
     Some (if w then wrap64 (data_size + r_size) else data_size)
   }"

definition ring_room_size :: "ring \<Rightarrow> nat \<Rightarrow> nat option" where
  "ring_room_size r r_size = do {
     let room_size = sub64 (sub64 (tail r) (head r)) 1;
     w \<leftarrow> ring_wraps r r_size;
     Some (if \<not> w then wrap64 (room_size + r_size) else room_size)
   }"

definition ring_can_read :: "ring \<Rightarrow> nat \<Rightarrow> nat \<Rightarrow> nat option" where
  "ring_can_read r r_size read_size = do {
     w \<leftarrow> ring_wraps r r_size;
     let nwrap_data_end = (if w then r_size else head r);
     Some (min read_size (sub64 nwrap_data_end (tail r)))
   }"

definition ring_can_write :: "ring \<Rightarrow> nat \<Rightarrow> nat \<Rightarrow> nat option" where
  "ring_can_write r r_size write_size = do {
     w \<leftarrow> ring_wraps r r_size;
     let nwrap_room_end = (if \<not> w then sub64 r_size (if tail r = 0 then 1 else 0) else sub64 (tail r) 1);
     Some (min write_size (sub64 nwrap_room_end (head r)))
   }"

definition ring_fixup_tail :: "ring \<Rightarrow> nat \<Rightarrow> ring" where
  "ring_fixup_tail r r_size = (if tail r \<ge> r_size then r\<lparr>tail := sub64 (tail r) r_size\<rparr> else r)"

definition ring_fixup_head :: "ring \<Rightarrow> nat \<Rightarrow> ring" where
  "ring_fixup_head r r_size = (if head r \<ge> r_size then r\<lparr>head := sub64 (head r) r_size\<rparr> else r)"

definition ring_just_read :: "ring \<Rightarrow> nat \<Rightarrow> nat \<Rightarrow> (nat \<times> ring) option" where
  "ring_just_read r r_size read_size = do {
     n \<leftarrow> ring_can_read r r_size read_size;
     if read_size \<le> n
     then Some (read_size, ring_fixup_tail (r\<lparr>tail := wrap64 (tail r + read_size)\<rparr>) r_size)
     else None
   }"

definition ring_just_write :: "ring \<Rightarrow> nat \<Rightarrow> nat \<Rightarrow> (nat \<times> ring) option" where
  "ring_just_write r r_size write_size = do {
     n \<leftarrow> ring_can_write r r_size write_size;
     if write_size \<le> n
     then Some (write_size, ring_fixup_head (r\<lparr>head := wrap64 (head r + write_size)\<rparr>) r_size)
     else None
   }"

definition ring_read :: "ring \<Rightarrow> nat \<Rightarrow> nat \<Rightarrow> (nat \<times> ring) option" where
  "ring_read r r_size read_size = do {
     n \<leftarrow> ring_can_read r r_size read_size;
     ring_just_read r r_size n
   }"

definition ring_write :: "ring \<Rightarrow> nat \<Rightarrow> nat \<Rightarrow> (nat \<times> ring) option" where
  "ring_write r r_size write_size = do {
     n \<leftarrow> ring_can_write r r_size write_size;
     ring_just_write r r_size n
   }"

section \<open>Copying through the ring\<close>

definition mem_read :: "'a list \<Rightarrow> nat \<Rightarrow> nat \<Rightarrow> 'a list" where
  "mem_read buf off n = take n (drop off buf)"

definition mem_write :: "'a list \<Rightarrow> nat \<Rightarrow> 'a list \<Rightarrow> 'a list" where
  "mem_write buf off xs = take off buf @ xs @ drop (off + length xs) buf"

text \<open>Both loops return the bytes moved, in order, with the number moved as their length.\<close>

partial_function (option) ring_read_all_into ::
  "ring \<Rightarrow> 'a list \<Rightarrow> nat \<Rightarrow> nat \<Rightarrow> ('a list \<times> ring) option" where
  "ring_read_all_into r r_buff r_size read_size =
     Option.bind (ring_can_read r r_size read_size) (\<lambda>block_size.
       if block_size = 0 then Some ([], r)
       else Option.bind (ring_just_read r r_size block_size) (\<lambda>(_, r').
            Option.bind (ring_read_all_into r' r_buff r_size (sub64 read_size block_size)) (\<lambda>(xs, r'').
              Some (mem_read r_buff (tail r) block_size @ xs, r''))))"

partial_function (option) ring_write_all_from ::
  "ring \<Rightarrow> 'a list \<Rightarrow> nat \<Rightarrow> 'a list \<Rightarrow> nat \<Rightarrow> nat \<Rightarrow> (nat \<times> 'a list \<times> ring) option" where
  "ring_write_all_from r r_buff r_size from_buff write_size count =
     Option.bind (ring_can_write r r_size write_size) (\<lambda>block_size.
       if block_size = 0 then Some (count, r_buff, r)
       else Option.bind (ring_just_write r r_size block_size) (\<lambda>(_, r').
              ring_write_all_from r' (mem_write r_buff (head r) (mem_read from_buff count block_size))
                r_size from_buff (sub64 write_size block_size) (wrap64 (count + block_size))))"

section \<open>Buffers of elements\<close>

record 'e ring_buff =
  rb_ring :: ring
  capacity :: nat
  storage :: "'e list"

text \<open>Conversions between \<^verbatim>\<open>int\<close> and \<^verbatim>\<open>size_t\<close>.\<close>

definition int_to_size :: "int \<Rightarrow> nat" where
  "int_to_size i = nat (i mod 2 ^ 64)"

definition size_to_int :: "nat \<Rightarrow> int" where
  "size_to_int n = signed_take_bit 31 (int n)"

definition ring_buff_init :: "int \<Rightarrow> 'e list \<Rightarrow> 'e ring_buff" where
  "ring_buff_init count stg = \<lparr>rb_ring = ring_init, capacity = int_to_size count, storage = stg\<rparr>"

definition ring_buff_get_cnt :: "'e ring_buff \<Rightarrow> int option" where
  "ring_buff_get_cnt b = map_option size_to_int (ring_data_size (rb_ring b) (capacity b))"

definition ring_buff_get_space :: "'e ring_buff \<Rightarrow> int option" where
  "ring_buff_get_space b = map_option size_to_int (ring_room_size (rb_ring b) (capacity b))"

text \<open>\<open>into\<close> is the element offset in the storage, \<open>from_buf\<close> the remaining source.\<close>

definition ring_buff_enqueue1 :: "'e ring_buff \<Rightarrow> nat \<Rightarrow> 'e list \<Rightarrow> int \<Rightarrow> (int \<times> 'e ring_buff) option" where
  "ring_buff_enqueue1 b into from_buf cnt = do {
     n \<leftarrow> ring_can_write (rb_ring b) (capacity b) (int_to_size cnt);
     let can_write = size_to_int n;
     let stg = mem_write (storage b) into (take (int_to_size can_write) from_buf);
     (_, r) \<leftarrow> ring_just_write (rb_ring b) (capacity b) (int_to_size can_write);
     Some (can_write, b\<lparr>storage := stg, rb_ring := r\<rparr>)
   }"

definition ring_buff_enqueue :: "'e ring_buff \<Rightarrow> 'e list \<Rightarrow> int \<Rightarrow> (int \<times> 'e ring_buff) option" where
  "ring_buff_enqueue b from_buf cnt = do {
     let write_to = head (rb_ring b);
     f \<leftarrow> ring_full (rb_ring b) (capacity b);
     if f then Some (0, b) else do {
       (written, b) \<leftarrow> ring_buff_enqueue1 b write_to from_buf cnt;
       f \<leftarrow> ring_full (rb_ring b) (capacity b);
       if f then Some (written, b) else do {
         let rest = cnt - written;
         if rest \<noteq> 0 then do {
           (w, b) \<leftarrow> ring_buff_enqueue1 b 0 (drop (int_to_size written) from_buf) rest;
           Some (written + w, b)
         } else Some (written, b)
       }
     }
   }"

definition ring_buff_dequeue1 :: "'e ring_buff \<Rightarrow> nat \<Rightarrow> int \<Rightarrow> ('e list \<times> int \<times> 'e ring_buff) option" where
  "ring_buff_dequeue1 b from cnt = do {
     n \<leftarrow> ring_can_read (rb_ring b) (capacity b) (int_to_size cnt);
     let can_read = size_to_int n;
     let xs = mem_read (storage b) from (int_to_size can_read);
     (_, r) \<leftarrow> ring_just_read (rb_ring b) (capacity b) (int_to_size can_read);
     Some (xs, can_read, b\<lparr>rb_ring := r\<rparr>)
   }"

text \<open>The list returned is what is written to \<open>into_buf\<close>, from its start.\<close>

definition ring_buff_dequeue :: "'e ring_buff \<Rightarrow> int \<Rightarrow> ('e list \<times> int \<times> 'e ring_buff) option" where
  "ring_buff_dequeue b cnt = do {
     let read_from = tail (rb_ring b);
     if ring_empty (rb_ring b) then Some ([], 0, b) else do {
       (xs, rd, b) \<leftarrow> ring_buff_dequeue1 b read_from cnt;
       if ring_empty (rb_ring b) then Some (xs, rd, b) else do {
         let rest = cnt - rd;
         if rest \<noteq> 0 then do {
           (ys, n, b) \<leftarrow> ring_buff_dequeue1 b 0 rest;
           Some (xs @ ys, rd + n, b)
         } else Some (xs, rd, b)
       }
     }
   }"

text \<open>\<open>zero\<close> is the element whose bytes are all zero; the offset is what \<^verbatim>\<open>*ret\<close> points to.\<close>

definition ring_buff_alloc :: "'e \<Rightarrow> 'e ring_buff \<Rightarrow> int \<Rightarrow> (int \<times> nat option \<times> 'e ring_buff) option" where
  "ring_buff_alloc zero b cnt = do {
     let write_to = head (rb_ring b);
     f \<leftarrow> ring_full (rb_ring b) (capacity b);
     if f then Some (0, None, b) else do {
       n \<leftarrow> ring_can_write (rb_ring b) (capacity b) (int_to_size cnt);
       let can_write = size_to_int n;
       let stg = mem_write (storage b) write_to (replicate (int_to_size can_write) zero);
       (w, r) \<leftarrow> ring_just_write (rb_ring b) (capacity b) (int_to_size can_write);
       Some (size_to_int w, Some write_to, b\<lparr>storage := stg, rb_ring := r\<rparr>)
     }
   }"

section \<open>Abstract view\<close>

definition ring_len :: "ring \<Rightarrow> nat \<Rightarrow> nat" where
  "ring_len r n = (if tail r \<le> head r then head r - tail r else head r + n - tail r)"

definition ring_content :: "ring \<Rightarrow> nat \<Rightarrow> 'a list \<Rightarrow> 'a list" where
  "ring_content r n buf = map (\<lambda>i. buf ! ((tail r + i) mod n)) [0..<ring_len r n]"

definition ring_ok :: "ring \<Rightarrow> nat \<Rightarrow> bool" where
  "ring_ok r n \<longleftrightarrow> head r < n \<and> tail r < n \<and> n < 2 ^ 64"

definition rb_inv :: "'e ring_buff \<Rightarrow> bool" where
  "rb_inv b \<longleftrightarrow> ring_ok (rb_ring b) (capacity b) \<and> length (storage b) = capacity b \<and> capacity b < 2 ^ 31"

definition rb_content :: "'e ring_buff \<Rightarrow> 'e list" where
  "rb_content b = ring_content (rb_ring b) (capacity b) (storage b)"

definition rb_room :: "'e ring_buff \<Rightarrow> nat" where
  "rb_room b = capacity b - 1 - length (rb_content b)"

text \<open>Histories of a buffer, against a queue that holds at most \<open>cap\<close> elements.\<close>

datatype 'e rb_op = Enq "'e list" | Deq nat

fun rb_step :: "'e rb_op \<Rightarrow> 'e ring_buff \<Rightarrow> (('e list \<times> int) \<times> 'e ring_buff) option" where
  "rb_step (Enq xs) b = map_option (\<lambda>(n, b). (([], n), b)) (ring_buff_enqueue b xs (int (length xs)))"
| "rb_step (Deq n) b = map_option (\<lambda>(xs, k, b). ((xs, k), b)) (ring_buff_dequeue b (int n))"

primrec rb_run :: "'e rb_op list \<Rightarrow> 'e ring_buff \<Rightarrow> (('e list \<times> int) list \<times> 'e ring_buff) option" where
  "rb_run [] b = Some ([], b)"
| "rb_run (x # xs) b = do {
     (o1, b) \<leftarrow> rb_step x b;
     (os, b) \<leftarrow> rb_run xs b;
     Some (o1 # os, b)
   }"

fun q_step :: "nat \<Rightarrow> 'e rb_op \<Rightarrow> 'e list \<Rightarrow> ('e list \<times> int) \<times> 'e list" where
  "q_step cap (Enq xs) q = (let k = min (length xs) (cap - length q) in (([], int k), q @ take k xs))"
| "q_step cap (Deq n) q = ((take n q, int (min n (length q))), drop n q)"

primrec q_run :: "nat \<Rightarrow> 'e rb_op list \<Rightarrow> 'e list \<Rightarrow> ('e list \<times> int) list \<times> 'e list" where
  "q_run cap [] q = ([], q)"
| "q_run cap (x # xs) q = (let (o1, q) = q_step cap x q; (os, q) = q_run cap xs q in (o1 # os, q))"

fun op_size :: "'e rb_op \<Rightarrow> nat" where
  "op_size (Enq xs) = length xs"
| "op_size (Deq n) = n"

section \<open>The control block\<close>

definition contig_data :: "ring \<Rightarrow> nat \<Rightarrow> nat" where
  "contig_data r n = (if tail r \<le> head r then head r - tail r else n - tail r)"

definition contig_room :: "ring \<Rightarrow> nat \<Rightarrow> nat" where
  "contig_room r n =
     (if tail r \<le> head r then n - (if tail r = 0 then 1 else 0) - head r else tail r - 1 - head r)"

lemma ring_wraps_eq: "ring_ok r n \<Longrightarrow> ring_wraps r n = Some (head r < tail r)"
  by (simp add: ring_wraps_def ring_assert_invariants_def ring_ok_def)

lemma ring_full_eq: "ring_ok r n \<Longrightarrow> ring_full r n = Some (ring_len r n = n - 1)"
  by (auto simp: ring_full_def ring_assert_invariants_def ring_ok_def ring_len_def sub64_small)

lemma ring_data_size_eq:
  assumes "ring_ok r n"
  shows "ring_data_size r n = Some (ring_len r n)"
proof (cases "tail r \<le> head r")
  case True
  then show ?thesis using assms
    by (simp add: ring_data_size_def ring_wraps_eq ring_len_def ring_ok_def sub64_small)
next
  case False
  then have "wrap64 (sub64 (head r) (tail r) + n) = head r + n - tail r"
    using assms unfolding ring_ok_def by (elim conjE) (simp add: sub64_wrap wrap64_over)
  with False show ?thesis using assms by (simp add: ring_data_size_def ring_wraps_eq ring_len_def)
qed

lemma ring_room_size_eq:
  assumes "ring_ok r n"
  shows "ring_room_size r n = Some (n - 1 - ring_len r n)"
proof -
  consider "tail r < head r" | "tail r = head r" | "head r < tail r" by linarith
  then show ?thesis
  proof cases
    case 1
    then have "wrap64 (sub64 (sub64 (tail r) (head r)) 1 + n) = n - 1 - (head r - tail r)"
      using assms unfolding ring_ok_def by (elim conjE) (simp add: sub64_wrap sub64_small wrap64_over)
    with 1 show ?thesis using assms by (simp add: ring_room_size_def ring_wraps_eq ring_len_def)
  next
    case 2
    then have "wrap64 (sub64 (sub64 (tail r) (head r)) 1 + n) = n - 1"
      using assms unfolding ring_ok_def by (elim conjE) (simp add: sub64_wrap sub64_small wrap64_over)
    with 2 show ?thesis using assms by (simp add: ring_room_size_def ring_wraps_eq ring_len_def)
  next
    case 3
    then have "sub64 (sub64 (tail r) (head r)) 1 = tail r - head r - 1"
      using assms unfolding ring_ok_def by (elim conjE) (simp add: sub64_small)
    moreover have "tail r - head r - 1 = n - 1 - ring_len r n"
      using 3 assms unfolding ring_ok_def by (elim conjE) (simp add: ring_len_def)
    ultimately show ?thesis using 3 assms by (simp add: ring_room_size_def ring_wraps_eq)
  qed
qed

lemma ring_can_read_eq: "ring_ok r n \<Longrightarrow> ring_can_read r n k = Some (min k (contig_data r n))"
  by (auto simp: ring_can_read_def ring_wraps_eq ring_ok_def contig_data_def sub64_small)

lemma ring_can_write_eq: "ring_ok r n \<Longrightarrow> ring_can_write r n k = Some (min k (contig_room r n))"
  by (auto simp: ring_can_write_def ring_wraps_eq ring_ok_def contig_room_def sub64_small)

lemma ring_just_read_eq:
  assumes "ring_ok r n" "k \<le> contig_data r n"
  shows "ring_just_read r n k = Some (k, r\<lparr>tail := (if tail r + k = n then 0 else tail r + k)\<rparr>)"
  using assms by (auto simp: ring_just_read_def ring_can_read_eq ring_fixup_tail_def ring_ok_def
      contig_data_def sub64_small wrap64_small split: if_splits)

lemma ring_just_write_eq:
  assumes "ring_ok r n" "k \<le> contig_room r n"
  shows "ring_just_write r n k = Some (k, r\<lparr>head := (if head r + k = n then 0 else head r + k)\<rparr>)"
  using assms by (auto simp: ring_just_write_def ring_can_write_eq ring_fixup_head_def ring_ok_def
      contig_room_def sub64_small wrap64_small split: if_splits)

text \<open>One contiguous write appends, one contiguous read takes from the front.\<close>

lemma mem_write_nth:
  "off + length xs \<le> length buf \<Longrightarrow> i < length buf \<Longrightarrow>
    mem_write buf off xs ! i = (if off \<le> i \<and> i < off + length xs then xs ! (i - off) else buf ! i)"
  by (auto simp: mem_write_def nth_append)

lemma length_mem_write [simp]: "off + length xs \<le> length buf \<Longrightarrow> length (mem_write buf off xs) = length buf"
  by (simp add: mem_write_def)

lemma ring_len_write:
  assumes "ring_ok r n" "k \<le> contig_room r n"
  defines "r' \<equiv> r\<lparr>head := (if head r + k = n then 0 else head r + k)\<rparr>"
  shows "ring_ok r' n \<and> ring_len r' n = ring_len r n + k \<and> head r + k \<le> n"
proof (cases "tail r \<le> head r")
  case True
  have le: "head r + k \<le> n" "tail r = 0 \<longrightarrow> head r + k < n"
    using True assms(1,2) by (auto simp: ring_ok_def contig_room_def)
  with True assms(1) show ?thesis by (cases "head r + k = n") (auto simp: r'_def ring_ok_def ring_len_def)
next
  case False
  then have "head r + k < tail r" using assms(2) by (simp add: contig_room_def)
  with False assms(1) show ?thesis by (auto simp: r'_def ring_ok_def ring_len_def)
qed

lemma ring_slot_write:
  assumes "ring_ok r n" "k \<le> contig_room r n" "i < ring_len r n + k"
  shows "i < ring_len r n \<Longrightarrow> (tail r + i) mod n < head r \<or> head r + k \<le> (tail r + i) mod n"
    "ring_len r n \<le> i \<Longrightarrow> (tail r + i) mod n = head r + (i - ring_len r n)"
proof -
  have ok: "head r < n" "tail r < n" using assms(1) by (simp_all add: ring_ok_def)
  have lt: "tail r + i < n + n"
    using assms(2,3) ok by (cases "tail r \<le> head r"; cases "tail r = 0") (simp_all add: contig_room_def ring_len_def)
  have m: "(tail r + i) mod n = (if tail r + i < n then tail r + i else tail r + i - n)"
    using lt by (simp add: mod_if)
  show "(tail r + i) mod n < head r \<or> head r + k \<le> (tail r + i) mod n" if "i < ring_len r n"
    using that ok assms(2) unfolding m
    by (cases "tail r \<le> head r"; cases "tail r + i < n"; cases "tail r = 0")
      (simp_all add: contig_room_def ring_len_def, arith+)
  show "(tail r + i) mod n = head r + (i - ring_len r n)" if "ring_len r n \<le> i"
    using that ok assms(2,3) unfolding m
    by (cases "tail r \<le> head r"; cases "tail r + i < n"; cases "tail r = 0") (simp_all add: contig_room_def ring_len_def)
qed

lemma ring_head_wraps:
  assumes "ring_ok r n" "k = contig_room r n" "ring_len r n + k \<noteq> n - 1"
  shows "head r + k = n"
proof (cases "tail r \<le> head r \<and> tail r \<noteq> 0")
  case True
  then show ?thesis using assms(1,2) by (simp add: ring_ok_def contig_room_def)
next
  case False
  then have "ring_len r n + k = n - 1"
    using assms(1,2) unfolding ring_ok_def ring_len_def contig_room_def
    by (cases "tail r = 0") simp_all
  with assms(3) show ?thesis by simp
qed

lemma ring_step_write:
  assumes "ring_ok r n" "length xs \<le> contig_room r n" "length buf = n"
  defines "r' \<equiv> r\<lparr>head := (if head r + length xs = n then 0 else head r + length xs)\<rparr>"
  shows "ring_ok r' n" "ring_len r' n = ring_len r n + length xs" "head r + length xs \<le> n"
    "ring_content r' n (mem_write buf (head r) xs) = ring_content r n buf @ xs"
proof -
  show "ring_ok r' n" and len: "ring_len r' n = ring_len r n + length xs" and le: "head r + length xs \<le> n"
    using ring_len_write [OF assms(1,2)] unfolding r'_def by blast+
  have tl: "tail r' = tail r" by (simp add: r'_def)
  show "ring_content r' n (mem_write buf (head r) xs) = ring_content r n buf @ xs"
  proof (rule nth_equalityI)
    fix i assume "i < length (ring_content r' n (mem_write buf (head r) xs))"
    then have i: "i < ring_len r n + length xs" by (simp add: ring_content_def len)
    note slot = ring_slot_write [OF assms(1,2) i]
    have lhs: "ring_content r' n (mem_write buf (head r) xs) ! i
        = mem_write buf (head r) xs ! ((tail r + i) mod n)"
      using i by (simp add: ring_content_def len tl)
    have pos: "(tail r + i) mod n < length buf" using assms(1,3) by (simp add: ring_ok_def)
    have fit: "head r + length xs \<le> length buf" using le assms(3) by simp
    show "ring_content r' n (mem_write buf (head r) xs) ! i = (ring_content r n buf @ xs) ! i"
    proof (cases "i < ring_len r n")
      case True
      then show ?thesis using slot(1) lhs mem_write_nth [OF fit pos]
        by (auto simp: nth_append ring_content_def)
    next
      case False
      then show ?thesis using slot(2) i lhs mem_write_nth [OF fit pos]
        by (auto simp: nth_append ring_content_def)
    qed
  qed (simp add: ring_content_def len)
qed

lemma ring_tail_wraps:
  assumes "ring_ok r n" "k = contig_data r n" "k < ring_len r n"
  shows "tail r + k = n"
  using assms by (cases "tail r \<le> head r") (simp_all add: ring_ok_def contig_data_def ring_len_def)

lemma ring_step_read:
  assumes "ring_ok r n" "k \<le> contig_data r n" "length buf = n"
  defines "r' \<equiv> r\<lparr>tail := (if tail r + k = n then 0 else tail r + k)\<rparr>"
  shows "ring_ok r' n" "ring_len r' n = ring_len r n - k"
    "ring_content r' n buf = drop k (ring_content r n buf)"
    "mem_read buf (tail r) k = take k (ring_content r n buf)" "tail r + k \<le> n" "k \<le> ring_len r n"
proof -
  show ok: "ring_ok r' n" and len: "ring_len r' n = ring_len r n - k" and le: "tail r + k \<le> n"
    and kl: "k \<le> ring_len r n"
    using assms(1,2) by (auto simp: r'_def ring_ok_def contig_data_def ring_len_def split: if_splits)
  have "(tail r' + i) mod n = (tail r + (k + i)) mod n" for i
    using le by (auto simp: r'_def add.assoc [symmetric])
  then show "ring_content r' n buf = drop k (ring_content r n buf)"
    using kl by (intro nth_equalityI) (simp_all add: ring_content_def len less_diff_conv add.commute)
  show "mem_read buf (tail r) k = take k (ring_content r n buf)"
    using le kl assms(1,3) by (intro nth_equalityI) (auto simp: ring_content_def mem_read_def ring_ok_def)
qed

section \<open>The copying loops\<close>

lemma contig_room_zero: "ring_ok r n \<Longrightarrow> contig_room r n = 0 \<longleftrightarrow> ring_len r n = n - 1"
  by (auto simp: ring_ok_def contig_room_def ring_len_def)

lemma contig_data_zero: "ring_ok r n \<Longrightarrow> contig_data r n = 0 \<longleftrightarrow> ring_len r n = 0"
  by (auto simp: ring_ok_def contig_data_def ring_len_def)

lemma ring_len_less: "ring_ok r n \<Longrightarrow> ring_len r n < n"
  by (auto simp: ring_ok_def ring_len_def)

lemma length_ring_content [simp]: "length (ring_content r n buf) = ring_len r n"
  by (simp add: ring_content_def)

lemma mem_read_drop: "mem_read xs i n = take n (drop i xs)"
  by (simp add: mem_read_def)

lemma ring_write_all_ok:
  assumes "ring_ok r n" "length buf = n" "count + k \<le> length src" "length src < 2 ^ 64"
  shows "\<exists>buf' r'. ring_write_all_from r buf n src k count
        = Some (count + min k (n - 1 - ring_len r n), buf', r')
     \<and> ring_ok r' n \<and> length buf' = n
     \<and> ring_content r' n buf' = ring_content r n buf @ take (min k (n - 1 - ring_len r n)) (drop count src)"
  using assms
proof (induction k arbitrary: r buf count rule: less_induct)
  case (less k)
  define b where "b = min k (contig_room r n)"
  have b: "ring_can_write r n k = Some b" "b \<le> contig_room r n" "b \<le> k"
    using less.prems(1) by (simp_all add: b_def ring_can_write_eq)
  show ?case
  proof (cases "b = 0")
    case True
    then have "min k (n - 1 - ring_len r n) = 0" using contig_room_zero [OF less.prems(1)] by (auto simp: b_def)
    with True less.prems show ?thesis
      by (subst ring_write_all_from.simps) (auto simp: b(1))
  next
    case False
    let ?xs = "mem_read src count b"
    let ?r = "r\<lparr>head := (if head r + b = n then 0 else head r + b)\<rparr>"
    let ?nb = "mem_write buf (head r) ?xs"
    have l: "length ?xs = b" using less.prems(3) b(3) by (simp add: mem_read_def)
    have st: "ring_ok ?r n" "ring_len ?r n = ring_len r n + b" "head r + b \<le> n"
      "ring_content ?r n ?nb = ring_content r n buf @ ?xs"
      using ring_step_write [of r n ?xs buf] less.prems(1,2) l b(2) by auto
    have lb: "length ?nb = n" using st(3) less.prems(2) l by simp
    have rec: "ring_write_all_from r buf n src k count = ring_write_all_from ?r ?nb n src (k - b) (count + b)"
      using False less.prems b(3)
      by (subst ring_write_all_from.simps)
        (simp add: b(1) ring_just_write_eq [OF less.prems(1) b(2)] sub64_small wrap64_small)
    have side: "k - b < k" "count + b + (k - b) \<le> length src" using False b(3) less.prems(3) by simp_all
    obtain buf' r' where ih: "ring_write_all_from ?r ?nb n src (k - b) (count + b)
        = Some (count + b + min (k - b) (n - 1 - ring_len ?r n), buf', r')" "ring_ok r' n" "length buf' = n"
      "ring_content r' n buf' = ring_content ?r n ?nb
        @ take (min (k - b) (n - 1 - ring_len ?r n)) (drop (count + b) src)"
      using less.IH [OF side(1) st(1) lb side(2) less.prems(4)] by blast
    have "b \<le> n - 1 - ring_len r n" using ring_len_less [OF st(1)] unfolding st(2) by simp
    then have m: "min k (n - 1 - ring_len r n) = b + min (k - b) (n - 1 - ring_len ?r n)"
      unfolding st(2) using b(3) by simp
    have eq: "take (min k (n - 1 - ring_len r n)) (drop count src)
        = ?xs @ take (min (k - b) (n - 1 - ring_len ?r n)) (drop (count + b) src)"
      unfolding m by (simp add: take_add mem_read_def add.commute)
    have "ring_write_all_from r buf n src k count = Some (count + min k (n - 1 - ring_len r n), buf', r')"
      unfolding rec ih(1) m by (simp only: add.assoc)
    moreover have "ring_content r' n buf' = ring_content r n buf @ take (min k (n - 1 - ring_len r n)) (drop count src)"
      unfolding ih(4) st(4) eq by (rule append_assoc)
    ultimately show ?thesis using ih(2,3) by blast
  qed
qed

lemma ring_read_all_ok:
  assumes "ring_ok r n" "length buf = n" "k < 2 ^ 64"
  shows "\<exists>r'. ring_read_all_into r buf n k = Some (take k (ring_content r n buf), r')
     \<and> ring_ok r' n \<and> ring_content r' n buf = drop k (ring_content r n buf)"
  using assms
proof (induction k arbitrary: r rule: less_induct)
  case (less k)
  define b where "b = min k (contig_data r n)"
  have b: "ring_can_read r n k = Some b" "b \<le> contig_data r n" "b \<le> k"
    using less.prems(1) by (simp_all add: b_def ring_can_read_eq)
  show ?case
  proof (cases "b = 0")
    case True
    then have "k = 0 \<or> ring_content r n buf = []"
      using contig_data_zero [OF less.prems(1)] by (auto simp: ring_content_def b_def)
    with True less.prems show ?thesis
      by (subst ring_read_all_into.simps) (auto simp: b(1))
  next
    case False
    let ?r = "r\<lparr>tail := (if tail r + b = n then 0 else tail r + b)\<rparr>"
    have st: "ring_ok ?r n" "ring_content ?r n buf = drop b (ring_content r n buf)"
      "mem_read buf (tail r) b = take b (ring_content r n buf)"
      using ring_step_read [of r n b buf] less.prems(1,2) b(2) by auto
    have side: "k - b < k" "k - b < 2 ^ 64" using False b(3) less.prems(3) by simp_all
    obtain r' where ih: "ring_read_all_into ?r buf n (k - b) = Some (take (k - b) (ring_content ?r n buf), r')"
      "ring_ok r' n" "ring_content r' n buf = drop (k - b) (ring_content ?r n buf)"
      using less.IH [OF side(1) st(1) less.prems(2) side(2)] by blast
    have "ring_read_all_into r buf n k
        = Some (mem_read buf (tail r) b @ take (k - b) (ring_content ?r n buf), r')"
      using False less.prems b(3) ih(1)
      by (subst ring_read_all_into.simps)
        (simp add: b(1) ring_just_read_eq [OF less.prems(1) b(2)] sub64_small)
    moreover have "take b (ring_content r n buf) @ take (k - b) (drop b (ring_content r n buf))
        = take k (ring_content r n buf)"
      using take_add [of b "k - b" "ring_content r n buf"] b(3) by simp
    ultimately show ?thesis using ih(2,3) st(2,3) b(3) by (intro exI [of _ r']) simp
  qed
qed

section \<open>Buffers of elements\<close>

lemma size_to_int_small [simp]: "n < 2 ^ 31 \<Longrightarrow> size_to_int n = int n"
  by (simp add: size_to_int_def signed_take_bit_int_eq_self)

lemma int_to_size_int [simp]: "n < 2 ^ 64 \<Longrightarrow> int_to_size (int n) = n"
  by (simp add: int_to_size_def nat_mod_as_int)

lemma rb_inv_len: "rb_inv b \<Longrightarrow> length (rb_content b) + rb_room b = capacity b - 1"
  using ring_len_less [of "rb_ring b" "capacity b"] by (simp add: rb_inv_def rb_content_def rb_room_def)

lemma rb_full_eq: "rb_inv b \<Longrightarrow> ring_full (rb_ring b) (capacity b) = Some (rb_room b = 0)"
  using ring_len_less [of "rb_ring b" "capacity b"]
  by (auto simp: rb_inv_def rb_room_def rb_content_def ring_full_eq)

lemma rb_empty_eq: "rb_inv b \<Longrightarrow> ring_empty (rb_ring b) \<longleftrightarrow> rb_content b = []"
  by (auto simp: rb_inv_def ring_ok_def ring_empty_def rb_content_def ring_content_def ring_len_def)

lemma contig_room_head0: "rb_inv b \<Longrightarrow> head (rb_ring b) = 0 \<Longrightarrow> contig_room (rb_ring b) (capacity b) = rb_room b"
  by (auto simp: rb_inv_def ring_ok_def rb_room_def rb_content_def contig_room_def ring_len_def)

lemma contig_data_tail0:
  "rb_inv b \<Longrightarrow> tail (rb_ring b) = 0 \<Longrightarrow> contig_data (rb_ring b) (capacity b) = length (rb_content b)"
  by (auto simp: rb_inv_def ring_ok_def rb_content_def contig_data_def ring_len_def)

lemma ring_buff_enqueue1_ok:
  assumes inv: "rb_inv b" and n: "n \<le> length src" "n < 2 ^ 31"
    and k: "k = min n (contig_room (rb_ring b) (capacity b))"
  shows "\<exists>b'. ring_buff_enqueue1 b (head (rb_ring b)) src (int n) = Some (int k, b') \<and> rb_inv b'
     \<and> rb_content b' = rb_content b @ take k src \<and> capacity b' = capacity b
     \<and> (k < n \<and> rb_room b' \<noteq> 0 \<longrightarrow> head (rb_ring b') = 0)"
proof -
  let ?r = "rb_ring b" and ?c = "capacity b"
  have ok: "ring_ok ?r ?c" "length (storage b) = ?c" "?c < 2 ^ 31" using inv by (simp_all add: rb_inv_def)
  have len: "length (take k src) = k" using k n by simp
  let ?r' = "?r\<lparr>head := (if head ?r + k = ?c then 0 else head ?r + k)\<rparr>"
  let ?b' = "b\<lparr>storage := mem_write (storage b) (head ?r) (take k src), rb_ring := ?r'\<rparr>"
  have kc: "k \<le> contig_room ?r ?c" using k by simp
  note st = ring_step_write [of ?r ?c "take k src" "storage b", unfolded len, OF ok(1) kc ok(2)]
  have "ring_buff_enqueue1 b (head ?r) src (int n) = Some (int k, ?b')"
    using n k ring_just_write_eq [OF ok(1) kc]
    by (simp add: ring_buff_enqueue1_def ring_can_write_eq [OF ok(1)])
  moreover have inv': "rb_inv ?b'" using st(1,3) ok len by (simp add: rb_inv_def del: length_take)
  moreover have "rb_content ?b' = rb_content b @ take k src" using st(4) by (simp add: rb_content_def)
  moreover have "k < n \<and> rb_room ?b' \<noteq> 0 \<longrightarrow> head ?r' = 0"
    using k st(2) ring_head_wraps [OF ok(1), of k] by (auto simp: rb_room_def rb_content_def)
  ultimately show ?thesis by (intro exI [of _ ?b']) simp
qed

lemma ring_buff_dequeue1_ok:
  assumes inv: "rb_inv b" and n: "n < 2 ^ 31"
    and k: "k = min n (contig_data (rb_ring b) (capacity b))"
  shows "\<exists>b'. ring_buff_dequeue1 b (tail (rb_ring b)) (int n) = Some (take k (rb_content b), int k, b') \<and> rb_inv b'
     \<and> rb_content b' = drop k (rb_content b) \<and> capacity b' = capacity b \<and> k \<le> length (rb_content b)
     \<and> (k < n \<and> rb_content b' \<noteq> [] \<longrightarrow> tail (rb_ring b') = 0)"
proof -
  let ?r = "rb_ring b" and ?c = "capacity b"
  have ok: "ring_ok ?r ?c" "length (storage b) = ?c" "?c < 2 ^ 31" using inv by (simp_all add: rb_inv_def)
  let ?r' = "?r\<lparr>tail := (if tail ?r + k = ?c then 0 else tail ?r + k)\<rparr>"
  let ?b' = "b\<lparr>rb_ring := ?r'\<rparr>"
  have kc: "k \<le> contig_data ?r ?c" using k by simp
  have st: "ring_ok ?r' ?c" "ring_content ?r' ?c (storage b) = drop k (ring_content ?r ?c (storage b))"
    "mem_read (storage b) (tail ?r) k = take k (ring_content ?r ?c (storage b))" "k \<le> ring_len ?r ?c"
    using ring_step_read [of ?r ?c k "storage b"] ok kc by simp_all
  have "ring_buff_dequeue1 b (tail ?r) (int n) = Some (take k (rb_content b), int k, ?b')"
    using n k ring_just_read_eq [OF ok(1) kc] st(3)
    by (simp add: ring_buff_dequeue1_def ring_can_read_eq [OF ok(1)] rb_content_def)
  moreover have inv': "rb_inv ?b'" using st(1) ok by (simp add: rb_inv_def)
  moreover have "rb_content ?b' = drop k (rb_content b)" using st(2) by (simp add: rb_content_def)
  moreover have "k < n \<and> rb_content ?b' \<noteq> [] \<longrightarrow> tail ?r' = 0"
    using k st(2) ring_tail_wraps [OF ok(1), of k] by (auto simp: rb_content_def ring_content_def)
  ultimately show ?thesis using st(4) by (intro exI [of _ ?b']) (simp add: rb_content_def)
qed

lemma ring_buff_enqueue_ok:
  assumes inv: "rb_inv b" and n: "n \<le> length src" "n < 2 ^ 31"
  shows "\<exists>b'. ring_buff_enqueue b src (int n) = Some (int (min n (rb_room b)), b') \<and> rb_inv b'
     \<and> rb_content b' = rb_content b @ take (min n (rb_room b)) src \<and> capacity b' = capacity b"
proof (cases "rb_room b = 0")
  case True
  then show ?thesis using inv by (simp add: ring_buff_enqueue_def rb_full_eq)
next
  case False
  obtain k b1 where 1: "ring_buff_enqueue1 b (head (rb_ring b)) src (int n) = Some (int k, b1)"
    "rb_inv b1" "rb_content b1 = rb_content b @ take k src" "capacity b1 = capacity b"
    "k < n \<and> rb_room b1 \<noteq> 0 \<longrightarrow> head (rb_ring b1) = 0"
    "k = min n (contig_room (rb_ring b) (capacity b))"
    using ring_buff_enqueue1_ok [OF inv n refl] by blast
  have kn: "k \<le> n" using 1(6) by simp
  have room: "rb_room b = rb_room b1 + k"
    using rb_inv_len [OF inv] rb_inv_len [OF 1(2)] 1(3,4) kn n(1) by simp
  show ?thesis
  proof (cases "rb_room b1 = 0 \<or> k = n")
    case True
    then have "min n (rb_room b) = k" using kn room by auto
    moreover have "ring_buff_enqueue b src (int n) = Some (int k, b1)"
      using True False by (auto simp: ring_buff_enqueue_def rb_full_eq [OF inv] 1(1) rb_full_eq [OF 1(2)])
    ultimately show ?thesis using 1(2-4) by simp
  next
    case more: False
    then have hd: "head (rb_ring b1) = 0" "rb_room b1 \<noteq> 0" "k < n" using 1(5) kn by auto
    have side: "n - k \<le> length (drop k src)" "n - k < 2 ^ 31" using n by simp_all
    obtain j b2 where 2: "ring_buff_enqueue1 b1 (head (rb_ring b1)) (drop k src) (int (n - k)) = Some (int j, b2)"
      "rb_inv b2" "rb_content b2 = rb_content b1 @ take j (drop k src)" "capacity b2 = capacity b1"
      "j = min (n - k) (contig_room (rb_ring b1) (capacity b1))"
      using ring_buff_enqueue1_ok [OF 1(2) side refl] by blast
    have j: "k + j = min n (rb_room b)" using contig_room_head0 [OF 1(2) hd(1)] 2(5) room kn by simp
    have "ring_buff_enqueue b src (int n) = Some (int k + int j, b2)"
      using False hd 2(1) n
      by (simp add: ring_buff_enqueue_def rb_full_eq [OF inv] 1(1) rb_full_eq [OF 1(2)] of_nat_diff)
    moreover have "rb_content b2 = rb_content b @ take (min n (rb_room b)) src"
      using 1(3) 2(3) by (simp add: j [symmetric] take_add)
    ultimately show ?thesis using 1(4) 2(2,4) j by (intro exI [of _ b2]) (simp flip: of_nat_add)
  qed
qed

lemma ring_buff_dequeue_ok:
  assumes inv: "rb_inv b" and n: "n < 2 ^ 31"
  shows "\<exists>b'. ring_buff_dequeue b (int n) = Some (take n (rb_content b), int (min n (length (rb_content b))), b')
     \<and> rb_inv b' \<and> rb_content b' = drop n (rb_content b) \<and> capacity b' = capacity b"
proof (cases "rb_content b = []")
  case True
  then show ?thesis using inv by (simp add: ring_buff_dequeue_def rb_empty_eq)
next
  case False
  obtain k b1 where 1: "ring_buff_dequeue1 b (tail (rb_ring b)) (int n) = Some (take k (rb_content b), int k, b1)"
    "rb_inv b1" "rb_content b1 = drop k (rb_content b)" "capacity b1 = capacity b" "k \<le> length (rb_content b)"
    "k < n \<and> rb_content b1 \<noteq> [] \<longrightarrow> tail (rb_ring b1) = 0"
    "k = min n (contig_data (rb_ring b) (capacity b))"
    using ring_buff_dequeue1_ok [OF inv n refl] by blast
  have kn: "k \<le> n" using 1(7) by simp
  show ?thesis
  proof (cases "rb_content b1 = [] \<or> k = n")
    case True
    then have "take n (rb_content b) = take k (rb_content b)" "drop n (rb_content b) = drop k (rb_content b)"
      "min n (length (rb_content b)) = k"
      using kn 1(3,5) by auto
    moreover have "ring_buff_dequeue b (int n) = Some (take k (rb_content b), int k, b1)"
      using True False by (auto simp: ring_buff_dequeue_def rb_empty_eq [OF inv] 1(1) rb_empty_eq [OF 1(2)])
    ultimately show ?thesis using 1(2-4) by simp
  next
    case more: False
    then have tl: "tail (rb_ring b1) = 0" "rb_content b1 \<noteq> []" "k < n" using 1(6) kn by auto
    have side: "n - k < 2 ^ 31" using n by simp
    obtain j b2 where 2: "ring_buff_dequeue1 b1 (tail (rb_ring b1)) (int (n - k)) = Some (take j (rb_content b1), int j, b2)"
      "rb_inv b2" "rb_content b2 = drop j (rb_content b1)" "capacity b2 = capacity b1"
      "j = min (n - k) (contig_data (rb_ring b1) (capacity b1))"
      using ring_buff_dequeue1_ok [OF 1(2) side refl] by blast
    have j: "j = min (n - k) (length (rb_content b1))" using contig_data_tail0 [OF 1(2) tl(1)] 2(5) by simp
    have "ring_buff_dequeue b (int n) = Some (take k (rb_content b) @ take j (rb_content b1), int k + int j, b2)"
      using False tl 2(1) n
      by (simp add: ring_buff_dequeue_def rb_empty_eq [OF inv] 1(1) rb_empty_eq [OF 1(2)] of_nat_diff)
    moreover have "int k + int j = int (min n (length (rb_content b)))"
      using j 1(3,5) kn by (simp flip: of_nat_add)
    moreover have "take j (rb_content b1) = take (n - k) (rb_content b1)"
      "drop j (rb_content b1) = drop (n - k) (rb_content b1)" using j by (auto simp: min_def)
    moreover have "take n (rb_content b) = take k (rb_content b) @ take (n - k) (rb_content b1)"
      using take_add [of k "n - k" "rb_content b"] kn 1(3) by simp
    ultimately show ?thesis using 1(3,4) 2(2-4) kn by (intro exI [of _ b2]) simp
  qed
qed

lemma rb_step_refines:
  assumes "rb_inv b" "op_size x < 2 ^ 31"
  shows "\<exists>b'. rb_step x b = Some (fst (q_step (capacity b - 1) x (rb_content b)), b') \<and> rb_inv b'
     \<and> rb_content b' = snd (q_step (capacity b - 1) x (rb_content b)) \<and> capacity b' = capacity b"
proof (cases x)
  case (Enq xs)
  then obtain b' where "ring_buff_enqueue b xs (int (length xs)) = Some (int (min (length xs) (rb_room b)), b')"
    "rb_inv b'" "rb_content b' = rb_content b @ take (min (length xs) (rb_room b)) xs" "capacity b' = capacity b"
    using ring_buff_enqueue_ok [OF assms(1), of "length xs" xs] assms(2) by auto
  then show ?thesis unfolding Enq by (simp add: rb_room_def Let_def)
next
  case (Deq n)
  then show ?thesis using ring_buff_dequeue_ok [OF assms(1), of n] assms(2) by auto
qed

lemma rb_run_refines:
  assumes "rb_inv b" "\<forall>x \<in> set xs. op_size x < 2 ^ 31"
  shows "\<exists>b'. rb_run xs b = Some (fst (q_run (capacity b - 1) xs (rb_content b)), b') \<and> rb_inv b'
     \<and> rb_content b' = snd (q_run (capacity b - 1) xs (rb_content b)) \<and> capacity b' = capacity b"
  using assms
proof (induction xs arbitrary: b)
  case (Cons x xs)
  then obtain b1 where 1: "rb_step x b = Some (fst (q_step (capacity b - 1) x (rb_content b)), b1)" "rb_inv b1"
    "rb_content b1 = snd (q_step (capacity b - 1) x (rb_content b))" "capacity b1 = capacity b"
    using rb_step_refines [OF Cons.prems(1), of x] by auto
  from Cons.IH [OF 1(2)] Cons.prems(2)
  obtain b2 where "rb_run xs b1 = Some (fst (q_run (capacity b1 - 1) xs (rb_content b1)), b2)" "rb_inv b2"
    "rb_content b2 = snd (q_run (capacity b1 - 1) xs (rb_content b1))" "capacity b2 = capacity b1" by auto
  then show ?case using 1 by (simp add: split_beta)
qed simp

lemma rb_get_cnt: "rb_inv b \<Longrightarrow> ring_buff_get_cnt b = Some (int (length (rb_content b)))"
  using ring_len_less [of "rb_ring b" "capacity b"]
  by (simp add: ring_buff_get_cnt_def rb_inv_def ring_data_size_eq rb_content_def)

lemma rb_get_space:
  assumes "rb_inv b"
  shows "ring_buff_get_space b = Some (int (rb_room b))"
proof -
  have "rb_room b < 2 ^ 31" using assms unfolding rb_inv_def rb_room_def by linarith
  moreover have "ring_room_size (rb_ring b) (capacity b) = Some (rb_room b)"
    using assms by (simp add: rb_inv_def ring_room_size_eq rb_content_def rb_room_def)
  ultimately show ?thesis by (simp add: ring_buff_get_space_def)
qed

interpretation rb: bounded_fifo ring_buff_enqueue ring_buff_dequeue ring_buff_get_cnt ring_buff_get_space
  rb_content rb_room rb_inv
proof unfold_locales
  fix b :: "'e ring_buff" and xs :: "'e list" and n :: nat
  assume inv: "rb_inv b"
  show "ring_buff_get_cnt b = Some (int (length (rb_content b)))" using inv by (rule rb_get_cnt)
  show "ring_buff_get_space b = Some (int (rb_room b))" using inv by (rule rb_get_space)
  assume n: "n < 2 ^ 31"
  show "\<exists>b'. ring_buff_dequeue b (int n) = Some (take n (rb_content b), int (min n (length (rb_content b))), b')
      \<and> rb_inv b' \<and> rb_content b' = drop n (rb_content b)
      \<and> length (rb_content b') + rb_room b' = length (rb_content b) + rb_room b"
    using ring_buff_dequeue_ok [OF inv n] rb_inv_len inv by metis
  assume l: "n \<le> length xs"
  show "\<exists>b'. ring_buff_enqueue b xs (int n) = Some (int (min n (rb_room b)), b') \<and> rb_inv b'
      \<and> rb_content b' = rb_content b @ take (min n (rb_room b)) xs
      \<and> length (rb_content b') + rb_room b' = length (rb_content b) + rb_room b"
    using ring_buff_enqueue_ok [OF inv l n] rb_inv_len inv by metis
qed

lemma rb_init:
  assumes "0 < count" "count < 2 ^ 31" "length stg = count"
  shows "rb_inv (ring_buff_init (int count) stg)" "rb_content (ring_buff_init (int count) stg) = []"
    "capacity (ring_buff_init (int count) stg) = count"
  using assms by (simp_all add: rb_inv_def ring_ok_def ring_buff_init_def ring_init_def rb_content_def
      ring_content_def ring_len_def)

section \<open>Properties\<close>

text \<open>
  C16: any history of enqueue and dequeue calls on a freshly initialised ring buffer of \<open>count\<close> slots
  returns exactly what a first-in first-out queue bounded by \<open>count - 1\<close> elements returns: the same
  counts and the same elements in the same order, over every wrap-around; no assertion fails, and the
  counts of used and free slots agree with the queue at the end.
\<close>

theorem ring_buff_refines_queue:
  assumes "0 < count" "count < 2 ^ 31" "length stg = count" "\<forall>x \<in> set ops. op_size x < 2 ^ 31"
  shows "\<exists>b'. rb_run ops (ring_buff_init (int count) stg) = Some (fst (q_run (count - 1) ops []), b')
     \<and> ring_buff_get_cnt b' = Some (int (length (snd (q_run (count - 1) ops []))))
     \<and> ring_buff_get_space b' = Some (int (count - 1 - length (snd (q_run (count - 1) ops []))))"
proof -
  note init = rb_init [OF assms(1-3)]
  obtain b' where "rb_run ops (ring_buff_init (int count) stg) = Some (fst (q_run (count - 1) ops []), b')"
    "rb_inv b'" "rb_content b' = snd (q_run (count - 1) ops [])" "capacity b' = count"
    using rb_run_refines [OF init(1) assms(4)] unfolding init(2,3) by blast
  then show ?thesis using rb_get_cnt [of b'] rb_get_space [of b'] by (simp add: rb_room_def)
qed

theorem ring_buff_refines_queue_witness:
  "\<exists>b'. rb_run [Enq [1, 2], Deq 1, Enq [3, 4, 5], Deq 2] (ring_buff_init (int 4) [0, 0, 0, 0::nat])
     = Some ([([], 2), ([1], 1), ([], 2), ([2, 3], 2)], b')
     \<and> ring_buff_get_cnt b' = Some (int (length [4::nat]))"
proof -
  let ?ops = "[Enq [1, 2], Deq 1, Enq [3, 4, 5], Deq 2::nat rb_op]"
  have q: "q_run (4 - 1) ?ops [] = ([([], 2), ([1], 1), ([], 2), ([2, 3], 2)], [4])"
    by (simp add: Let_def)
  have "\<forall>x \<in> set ?ops. op_size x < 2 ^ 31" by simp
  from ring_buff_refines_queue [OF _ _ _ this, of 4 "[0, 0, 0, 0]"] show ?thesis
    unfolding q fst_conv snd_conv by fastforce
qed

text \<open>
  C32: the two copying loops of \<^verbatim>\<open>ring.c\<close> terminate; writing \<open>k\<close> bytes stores as many as there is room
  for behind the content already there, and reading at least that much afterwards returns the old
  content followed by the bytes written.
\<close>

theorem ring_write_read_all:
  assumes "ring_ok r n" "length buf = n" "k \<le> length src" "length src < 2 ^ 64" "n \<le> m" "m < 2 ^ 64"
  shows "\<exists>buf' r' r''. ring_write_all_from r buf n src k 0 = Some (min k (n - 1 - ring_len r n), buf', r')
     \<and> ring_read_all_into r' buf' n m
         = Some (ring_content r n buf @ take (min k (n - 1 - ring_len r n)) src, r'')
     \<and> ring_empty r''"
proof -
  obtain buf' r' where w: "ring_write_all_from r buf n src k 0 = Some (min k (n - 1 - ring_len r n), buf', r')"
    "ring_ok r' n" "length buf' = n"
    "ring_content r' n buf' = ring_content r n buf @ take (min k (n - 1 - ring_len r n)) src"
    using ring_write_all_ok [OF assms(1,2), of 0 k src] assms(3,4) by auto
  obtain r'' where rd: "ring_read_all_into r' buf' n m = Some (take m (ring_content r' n buf'), r'')" "ring_ok r'' n"
    "ring_content r'' n buf' = drop m (ring_content r' n buf')"
    using ring_read_all_ok [OF w(2,3) assms(6)] by blast
  have "ring_len r' n < m" using ring_len_less [OF w(2)] assms(5) by simp
  then have all: "take m (ring_content r' n buf') = ring_content r' n buf'" "drop m (ring_content r' n buf') = []"
    by simp_all
  then have "ring_len r'' n = 0" using rd(3) by (metis length_ring_content list.size(3))
  then have "ring_empty r''" using rd(2) by (auto simp: ring_empty_def ring_len_def ring_ok_def split: if_splits)
  with w rd(1) all(1) show ?thesis by auto
qed

theorem ring_write_read_all_witness:
  "\<exists>buf' r' r''. ring_write_all_from \<lparr>head = 1, tail = 3\<rparr> [7, 8, 9, 6::nat] 4 [1, 2, 3] 3 0 = Some (1, buf', r')
     \<and> ring_read_all_into r' buf' 4 9 = Some ([6, 7, 1], r'') \<and> ring_empty r''"
proof -
  have c: "ring_content \<lparr>head = 1, tail = 3\<rparr> 4 [7, 8, 9, 6::nat] = [6, 7]" "ring_len \<lparr>head = 1, tail = 3\<rparr> 4 = 2"
    by (simp_all add: ring_content_def ring_len_def upt_conv_Cons)
  have "ring_ok \<lparr>head = 1, tail = 3\<rparr> 4" by (simp add: ring_ok_def)
  from ring_write_read_all [OF this, of "[7, 8, 9, 6::nat]" 3 "[1, 2, 3]" 9] show ?thesis
    unfolding c by simp
qed

end
