(* ===== verification/Msg_Buff.thy ===== *)
theory Msg_Buff
  imports Ring "HOL-Library.Word"
begin

text \<open>
  Message buffers on top of the byte ring: \<^verbatim>\<open>lib/libds/msg_buff\<close>. A message is stored as its length,
  a \<^verbatim>\<open>size_t\<close> of eight bytes, followed by its bytes. The size is written and read back through
  \<^verbatim>\<open>memcpy\<close>, modelled for the little-endian byte order.
\<close>

type_synonym msg_buff = "u8 ring_buff"

fun size_bytes :: "nat \<Rightarrow> nat \<Rightarrow> u8 list" where
  "size_bytes 0 v = []"
| "size_bytes (Suc k) v = word_of_nat (v mod 256) # size_bytes k (v div 256)"

fun bytes_size :: "u8 list \<Rightarrow> nat" where
  "bytes_size [] = 0"
| "bytes_size (b # bs) = unat b + 256 * bytes_size bs"

definition sizeof_size_t :: nat where
  "sizeof_size_t = 8"

definition msg_buff_init :: "u8 list \<Rightarrow> nat \<Rightarrow> msg_buff" where
  "msg_buff_init stg sz = ring_buff_init (size_to_int sz) stg"

definition msg_buff_empty :: "msg_buff \<Rightarrow> bool option" where
  "msg_buff_empty b = map_option (\<lambda>n. 0 = n) (ring_buff_get_cnt b)"

definition msg_buff_space :: "msg_buff \<Rightarrow> nat option" where
  "msg_buff_space b = do {
     s \<leftarrow> ring_buff_get_space b;
     let space = int_to_size s;
     Some (if space < sizeof_size_t then 0 else space - sizeof_size_t)
   }"

definition msg_buff_enqueue :: "msg_buff \<Rightarrow> u8 list \<Rightarrow> nat \<Rightarrow> (nat \<times> msg_buff) option" where
  "msg_buff_enqueue b src nbyte =
     (if nbyte = 0 then Some (0, b) else do {
        s \<leftarrow> ring_buff_get_space b;
        if int_to_size s < wrap64 (nbyte + sizeof_size_t) then Some (0, b)
        else do {
          (_, b) \<leftarrow> ring_buff_enqueue b (size_bytes sizeof_size_t nbyte) (int sizeof_size_t);
          (n, b) \<leftarrow> ring_buff_enqueue b src (size_to_int nbyte);
          Some (int_to_size n, b)
        }
      })"

text \<open>The loop that throws the rest of a message away, sixteen bytes at a time.\<close>

partial_function (option) msg_buff_drain :: "nat \<Rightarrow> msg_buff \<Rightarrow> msg_buff option" where
  "msg_buff_drain msg_size b =
     (if msg_size = 0 then Some b
      else Option.bind (ring_buff_dequeue b 16) (\<lambda>(_, n, b).
             msg_buff_drain (sub64 msg_size (int_to_size n)) b))"

text \<open>The bytes returned are those copied to \<open>dst\<close>, also when the call reports zero.\<close>

definition msg_buff_dequeue :: "msg_buff \<Rightarrow> nat \<Rightarrow> (nat \<times> u8 list \<times> msg_buff) option" where
  "msg_buff_dequeue b nbyte = do {
     e \<leftarrow> msg_buff_empty b;
     if e then Some (0, [], b)
     else do {
       (hdr, _, b) \<leftarrow> ring_buff_dequeue b (int sizeof_size_t);
       let msg_size = bytes_size hdr;
       if nbyte < msg_size then do {
         (dst, n, b) \<leftarrow> ring_buff_dequeue b (size_to_int nbyte);
         b \<leftarrow> msg_buff_drain (sub64 msg_size (int_to_size n)) b;
         Some (0, dst, b)
       } else do {
         (dst, n, b) \<leftarrow> ring_buff_dequeue b (size_to_int msg_size);
         Some (int_to_size n, dst, b)
       }
     }
   }"

section \<open>Abstract view\<close>

definition msg_frame :: "u8 list \<Rightarrow> u8 list" where
  "msg_frame m = size_bytes sizeof_size_t (length m) @ m"

text \<open>The buffer holds these messages.\<close>

definition msgs :: "msg_buff \<Rightarrow> u8 list list \<Rightarrow> bool" where
  "msgs b ms \<longleftrightarrow> rb_inv b \<and> rb_content b = concat (map msg_frame ms) \<and> [] \<notin> set ms"

section \<open>Framing\<close>

lemma length_size_bytes [simp]: "length (size_bytes k v) = k"
  by (induction k v rule: size_bytes.induct) simp_all

lemma bytes_size_bytes: "v < 256 ^ k \<Longrightarrow> bytes_size (size_bytes k v) = v"
proof (induction k v rule: size_bytes.induct)
  case (2 k v)
  then have "v div 256 < 256 ^ k" by (simp add: less_mult_imp_div_less mult.commute)
  with 2 show ?case by (simp add: unat_of_nat)
qed simp

lemma bytes_size_header: "n < 2 ^ 64 \<Longrightarrow> bytes_size (size_bytes 8 n) = n"
  by (rule bytes_size_bytes) simp

lemma length_msg_frame [simp]: "length (msg_frame m) = 8 + length m"
  by (simp add: msg_frame_def sizeof_size_t_def)

lemma rb_room_bound: "rb_inv b \<Longrightarrow> rb_room b < 2 ^ 31" "rb_inv b \<Longrightarrow> length (rb_content b) < 2 ^ 31"
  using rb_inv_len [of b] unfolding rb_inv_def by linarith+

lemma msg_buff_empty_eq: "rb_inv b \<Longrightarrow> msg_buff_empty b = Some (rb_content b = [])"
  by (auto simp: msg_buff_empty_def rb_get_cnt)

lemma msg_buff_space_eq: "rb_inv b \<Longrightarrow> msg_buff_space b = Some (rb_room b - 8)"
  using rb_room_bound(1) [of b] by (auto simp: msg_buff_space_def rb_get_space sizeof_size_t_def Let_def)

lemma msg_buff_enqueue_ok:
  assumes inv: "rb_inv b" and m: "m \<noteq> []" and fits: "length m + 8 \<le> rb_room b"
  shows "\<exists>b'. msg_buff_enqueue b m (length m) = Some (length m, b') \<and> rb_inv b'
     \<and> rb_content b' = rb_content b @ msg_frame m \<and> rb_room b' = rb_room b - (length m + 8)"
proof -
  note bd = rb_room_bound [OF inv]
  have len: "length m < 2 ^ 31" using bd fits by linarith
  obtain b1 where 1: "ring_buff_enqueue b (size_bytes 8 (length m)) 8 = Some (8, b1)"
    "rb_inv b1" "rb_content b1 = rb_content b @ size_bytes 8 (length m)" "rb_room b1 = rb_room b - 8"
    using rb.enq_fits [OF inv, of "size_bytes 8 (length m)"] fits by auto
  have fits1: "length m \<le> rb_room b1" using 1(4) fits by simp
  obtain b2 where 2: "ring_buff_enqueue b1 m (int (length m)) = Some (int (length m), b2)"
    "rb_inv b2" "rb_content b2 = rb_content b1 @ m" "rb_room b2 = rb_room b1 - length m"
    using rb.enq_fits [OF 1(2) fits1 len] by blast
  have w: "wrap64 (length m + 8) = length m + 8" using len by (simp add: wrap64_small)
  have "msg_buff_enqueue b m (length m) = Some (length m, b2)"
    using m fits bd len 1(1) 2(1) w
    by (simp add: msg_buff_enqueue_def rb_get_space [OF inv] sizeof_size_t_def)
  with 1 2 show ?thesis by (intro exI [of _ b2]) (simp add: msg_frame_def sizeof_size_t_def)
qed

lemma msg_buff_enqueue_full:
  assumes "rb_inv b" "m = [] \<or> rb_room b < length m + 8" "length m + 8 < 2 ^ 64"
  shows "msg_buff_enqueue b m (length m) = Some (0, b)"
  using assms rb_room_bound(1) [OF assms(1)]
  by (auto simp: msg_buff_enqueue_def rb_get_space sizeof_size_t_def wrap64_small)

lemma msg_buff_dequeue_header:
  assumes inv: "rb_inv b" and c: "rb_content b = msg_frame m @ rest"
  obtains b1 where "ring_buff_dequeue b (int sizeof_size_t) = Some (size_bytes 8 (length m), 8, b1)"
    "msg_buff_empty b = Some False" "rb_inv b1" "rb_content b1 = m @ rest" "bytes_size (size_bytes 8 (length m)) = length m"
    "length m < 2 ^ 31" "rb_room b1 = rb_room b + 8"
proof -
  have len: "length m < 2 ^ 31" using rb_room_bound(2) [OF inv] c by simp
  have c': "rb_content b = size_bytes 8 (length m) @ (m @ rest)" using c by (simp add: msg_frame_def sizeof_size_t_def)
  obtain b1 where "ring_buff_dequeue b 8 = Some (size_bytes 8 (length m), 8, b1)" "rb_inv b1"
    "rb_content b1 = m @ rest" "rb_room b1 = rb_room b + 8"
    using rb.deq_prefix [OF inv c'] by auto
  moreover have "rb_content b \<noteq> []" using c' by (metis append_is_Nil_conv length_size_bytes list.size(3) zero_neq_numeral)
  ultimately show thesis using len msg_buff_empty_eq [OF inv] bytes_size_header [of "length m"]
    by (intro that [of b1]) (simp_all add: sizeof_size_t_def)
qed

lemma msg_buff_dequeue_ok:
  assumes inv: "rb_inv b" and c: "rb_content b = msg_frame m @ rest" and n: "length m \<le> nbyte"
  shows "\<exists>b'. msg_buff_dequeue b nbyte = Some (length m, m, b') \<and> rb_inv b' \<and> rb_content b' = rest
     \<and> rb_room b' = rb_room b + (length m + 8)"
proof -
  obtain b1 where 1: "ring_buff_dequeue b (int sizeof_size_t) = Some (size_bytes 8 (length m), 8, b1)"
    "msg_buff_empty b = Some False" "rb_inv b1" "rb_content b1 = m @ rest" "bytes_size (size_bytes 8 (length m)) = length m"
    "length m < 2 ^ 31" "rb_room b1 = rb_room b + 8"
    using msg_buff_dequeue_header [OF inv c] by blast
  obtain b2 where 2: "ring_buff_dequeue b1 (int (length m)) = Some (m, int (length m), b2)" "rb_inv b2"
    "rb_content b2 = rest" "rb_room b2 = rb_room b1 + length m"
    using rb.deq_prefix [OF 1(3,4,6)] by blast
  have "msg_buff_dequeue b nbyte = Some (length m, m, b2)"
    using 1(6) n by (simp add: msg_buff_dequeue_def 1(1,2,5) 2(1) Let_def)
  with 1(7) 2 show ?thesis by auto
qed

text \<open>Draining: exact when the rest of the message is all there is, endless when it overshoots.\<close>

lemma msg_buff_drain_alone:
  assumes "rb_inv b" "length (rb_content b) = n"
  shows "\<exists>b'. msg_buff_drain n b = Some b' \<and> rb_inv b' \<and> rb_content b' = []
     \<and> length (rb_content b') + rb_room b' = length (rb_content b) + rb_room b"
  using assms
proof (induction n arbitrary: b rule: less_induct)
  case (less n)
  show ?case
  proof (cases "n = 0")
    case True
    then show ?thesis using less.prems by (subst msg_buff_drain.simps) auto
  next
    case False
    obtain b1 where 1: "ring_buff_dequeue b 16 = Some (take 16 (rb_content b), int (min 16 n), b1)" "rb_inv b1"
      "rb_content b1 = drop 16 (rb_content b)"
      "length (rb_content b1) + rb_room b1 = length (rb_content b) + rb_room b"
      using rb.deq [OF less.prems(1), of 16] less.prems(2) by auto
    have n: "n < 2 ^ 31" using rb_room_bound(2) [OF less.prems(1)] less.prems(2) by simp
    have s: "sub64 n (int_to_size (int (min 16 n))) = n - 16" using n by (auto simp: sub64_small min_def)
    have "msg_buff_drain n b = msg_buff_drain (n - 16) b1"
      using False 1(1) s by (subst msg_buff_drain.simps) simp
    moreover have "length (rb_content b1) = n - 16" using 1(3) less.prems(2) by simp
    ultimately show ?thesis using less.IH [of "n - 16" b1] False 1(2,4) by auto
  qed
qed

lemma msg_buff_drain_overshoot:
  "msg_buff_drain n b = Some b' \<Longrightarrow> \<not> (rb_inv b \<and> length (rb_content b) < n \<and> n < 2 ^ 64)"
proof (erule msg_buff_drain.raw_induct [rotated])
  fix drain :: "nat \<Rightarrow> msg_buff \<Rightarrow> msg_buff option" and n :: nat and b b' :: msg_buff
  assume ih: "\<And>n b b'. drain n b = Some b' \<Longrightarrow> \<not> (rb_inv b \<and> length (rb_content b) < n \<and> n < 2 ^ 64)"
    and body: "(if n = 0 then Some b
      else Option.bind (ring_buff_dequeue b 16) (\<lambda>(_, m, b). drain (sub64 n (int_to_size m)) b)) = Some b'"
  show "\<not> (rb_inv b \<and> length (rb_content b) < n \<and> n < 2 ^ 64)"
  proof (intro notI, elim conjE)
    assume inv: "rb_inv b" and n: "length (rb_content b) < n" "n < 2 ^ 64"
    let ?k = "min 16 (length (rb_content b))"
    obtain b1 where d: "ring_buff_dequeue b 16 = Some (take 16 (rb_content b), int ?k, b1)" "rb_inv b1"
      "rb_content b1 = drop 16 (rb_content b)"
      using rb.deq [OF inv, of 16] by auto
    have s: "sub64 n (int_to_size (int ?k)) = n - ?k" using n by (simp add: sub64_small)
    have "drain (n - ?k) b1 = Some b'" using body n d(1) s by simp
    from ih [OF this] show False using n d(2,3) by auto
  qed
qed

lemma msg_buff_drain_never:
  assumes "rb_inv b" "length (rb_content b) < n" "n < 2 ^ 64"
  shows "msg_buff_drain n b = None"
  using msg_buff_drain_overshoot [of n b] assms by (cases "msg_buff_drain n b") auto

lemma msg_buff_drain_hangs:
  assumes "rb_inv b" "n mod 16 \<noteq> 0" "n < length (rb_content b)"
  shows "msg_buff_drain n b = None"
  using assms
proof (induction n arbitrary: b rule: less_induct)
  case (less n)
  let ?k = "min 16 (length (rb_content b))"
  have n0: "n \<noteq> 0" using less.prems(2) by auto
  obtain b1 where d: "ring_buff_dequeue b 16 = Some (take 16 (rb_content b), int ?k, b1)" "rb_inv b1"
    "rb_content b1 = drop 16 (rb_content b)"
    using rb.deq [OF less.prems(1), of 16] by auto
  have bd: "length (rb_content b) < 2 ^ 31" using rb_room_bound(2) [OF less.prems(1)] .
  have step: "msg_buff_drain n b = msg_buff_drain (sub64 n ?k) b1"
    using n0 d(1) by (subst msg_buff_drain.simps) simp
  show ?case
  proof (cases "16 \<le> n")
    case True
    then have "sub64 n ?k = n - 16" using less.prems(3) bd by (simp add: sub64_small)
    moreover have "(n - 16) mod 16 \<noteq> 0" using True less.prems(2) by (simp add: le_mod_geq)
    ultimately show ?thesis using less.IH [of "n - 16" b1] True less.prems(3) d(2,3) step by simp
  next
    case False
    then have k: "n < ?k" "?k < 2 ^ 64" using less.prems(3) by simp_all
    then have s: "sub64 n ?k = 2 ^ 64 + n - ?k" by (rule sub64_wrap)
    have "length (rb_content b1) < sub64 n ?k" "sub64 n ?k < 2 ^ 64"
      unfolding s d(3) using k bd by (simp, linarith)
    then show ?thesis using msg_buff_drain_never [OF d(2)] step by simp
  qed
qed

lemma msg_frames_length: "length (concat (map msg_frame ms)) = (\<Sum>m \<leftarrow> ms. length m + 8)"
  by (induction ms) simp_all

lemma msgs_room: "msgs b ms \<Longrightarrow> rb_room b = capacity b - 1 - (\<Sum>m \<leftarrow> ms. length m + 8)"
  by (simp add: msgs_def rb_room_def flip: msg_frames_length)

lemma msg_buff_dequeue_short:
  assumes inv: "rb_inv b" and c: "rb_content b = msg_frame m @ rest" and n: "nbyte < length m"
  obtains b1 where "rb_inv b1" "rb_content b1 = drop nbyte m @ rest"
    "msg_buff_dequeue b nbyte
       = Option.bind (msg_buff_drain (length m - nbyte) b1) (\<lambda>b. Some (0, take nbyte m, b))"
proof -
  obtain b1 where 1: "ring_buff_dequeue b (int sizeof_size_t) = Some (size_bytes 8 (length m), 8, b1)"
    "msg_buff_empty b = Some False" "rb_inv b1" "rb_content b1 = m @ rest" "bytes_size (size_bytes 8 (length m)) = length m"
    "length m < 2 ^ 31"
    using msg_buff_dequeue_header [OF inv c] by blast
  have nb: "nbyte < 2 ^ 31" using n 1(6) by simp
  obtain b2 where 2: "ring_buff_dequeue b1 (int nbyte) = Some (take nbyte m, int nbyte, b2)" "rb_inv b2"
    "rb_content b2 = drop nbyte m @ rest"
    using rb.deq [OF 1(3) nb] 1(4) n by auto
  have "msg_buff_dequeue b nbyte
      = Option.bind (msg_buff_drain (length m - nbyte) b2) (\<lambda>b. Some (0, take nbyte m, b))"
    using nb n 1(6) by (simp add: msg_buff_dequeue_def 1(1,2,5) 2(1) Let_def sub64_small)
  with 2 show thesis using that by blast
qed

section \<open>Properties\<close>

text \<open>
  C26: a message buffer refines a queue of messages: a non-empty message is appended exactly when it
  fits together with its eight-byte header, otherwise nothing changes and zero is returned; a read
  with a large enough buffer returns the oldest message whole; a read from an empty buffer returns
  zero; and a read that is too short for the only message there is drops that message.
\<close>

theorem msg_buff_refines_messages:
  assumes "msgs b ms" "length m + 8 < 2 ^ 64"
  shows "(m \<noteq> [] \<and> (\<Sum>m \<leftarrow> ms. length m + 8) + (length m + 8) \<le> capacity b - 1 \<longrightarrow>
      (\<exists>b'. msg_buff_enqueue b m (length m) = Some (length m, b') \<and> msgs b' (ms @ [m])))
   \<and> (m = [] \<or> capacity b - 1 < (\<Sum>m \<leftarrow> ms. length m + 8) + (length m + 8) \<longrightarrow>
      msg_buff_enqueue b m (length m) = Some (0, b))
   \<and> (ms = x # xs \<and> length x \<le> nbyte \<longrightarrow>
      (\<exists>b'. msg_buff_dequeue b nbyte = Some (length x, x, b') \<and> msgs b' xs))
   \<and> (ms = [] \<longrightarrow> msg_buff_dequeue b nbyte = Some (0, [], b))
   \<and> (ms = [x] \<and> nbyte < length x \<longrightarrow>
      (\<exists>b'. msg_buff_dequeue b nbyte = Some (0, take nbyte x, b') \<and> msgs b' []))"
proof (intro conjI)
  have inv: "rb_inv b" and c: "rb_content b = concat (map msg_frame ms)" and ne: "[] \<notin> set ms"
    using assms(1) by (simp_all add: msgs_def)
  note room = msgs_room [OF assms(1)]
  show "m \<noteq> [] \<and> (\<Sum>m \<leftarrow> ms. length m + 8) + (length m + 8) \<le> capacity b - 1 \<longrightarrow>
      (\<exists>b'. msg_buff_enqueue b m (length m) = Some (length m, b') \<and> msgs b' (ms @ [m]))"
    using msg_buff_enqueue_ok [OF inv, of m] room c ne by (fastforce simp: msgs_def)
  show "m = [] \<or> capacity b - 1 < (\<Sum>m \<leftarrow> ms. length m + 8) + (length m + 8) \<longrightarrow>
      msg_buff_enqueue b m (length m) = Some (0, b)"
  proof (intro impI msg_buff_enqueue_full [OF inv _ assms(2)])
    assume "m = [] \<or> capacity b - 1 < (\<Sum>m \<leftarrow> ms. length m + 8) + (length m + 8)"
    then show "m = [] \<or> rb_room b < length m + 8" unfolding room by linarith
  qed
  show "ms = x # xs \<and> length x \<le> nbyte \<longrightarrow>
      (\<exists>b'. msg_buff_dequeue b nbyte = Some (length x, x, b') \<and> msgs b' xs)"
    using msg_buff_dequeue_ok [OF inv, of x "concat (map msg_frame xs)" nbyte] c ne by (auto simp: msgs_def)
  show "ms = [] \<longrightarrow> msg_buff_dequeue b nbyte = Some (0, [], b)"
    using c by (simp add: msg_buff_dequeue_def msg_buff_empty_eq [OF inv])
  show "ms = [x] \<and> nbyte < length x \<longrightarrow>
      (\<exists>b'. msg_buff_dequeue b nbyte = Some (0, take nbyte x, b') \<and> msgs b' [])"
  proof (intro impI, elim conjE)
    assume ms: "ms = [x]" and n: "nbyte < length x"
    then have "rb_content b = msg_frame x @ []" using c by simp
    then obtain b1 where b1: "rb_inv b1" "rb_content b1 = drop nbyte x @ []"
      "msg_buff_dequeue b nbyte
         = Option.bind (msg_buff_drain (length x - nbyte) b1) (\<lambda>b. Some (0, take nbyte x, b))"
      using msg_buff_dequeue_short [OF inv _ n] by blast
    then show "\<exists>b'. msg_buff_dequeue b nbyte = Some (0, take nbyte x, b') \<and> msgs b' []"
      using msg_buff_drain_alone [OF b1(1), of "length x - nbyte"] by (auto simp: msgs_def)
  qed
qed

lemma msgs_init: "0 < n \<Longrightarrow> n < 2 ^ 31 \<Longrightarrow> msgs (msg_buff_init (replicate n 0) n) []"
  using rb_init [of n "replicate n 0"] by (simp add: msgs_def msg_buff_init_def)

theorem msg_buff_refines_messages_witness:
  "\<exists>b'. msg_buff_enqueue (msg_buff_init (replicate 32 0) 32) [1, 2, 3] 3 = Some (3, b') \<and> msgs b' [[1, 2, 3]]"
proof -
  have c: "capacity (msg_buff_init (replicate 32 0) 32) = 32" by (simp add: msg_buff_init_def ring_buff_init_def int_to_size_def)
  have "msgs (msg_buff_init (replicate 32 0) 32) []" by (rule msgs_init) simp_all
  then have "\<exists>b'. msg_buff_enqueue (msg_buff_init (replicate 32 0) 32) [1, 2, 3] (length [1, 2, 3::u8])
      = Some (length [1, 2, 3::u8], b') \<and> msgs b' [[1, 2, 3]]"
    using msg_buff_refines_messages [of "msg_buff_init (replicate 32 0) 32" "[]" "[1, 2, 3]"] c by simp
  then show ?thesis by (simp add: eval_nat_numeral)
qed

text \<open>
  C36: a read that is too short for the oldest message, while another message is queued behind it,
  does not return unless the bytes cut off are a multiple of sixteen: the draining loop reads into
  the next message, its counter wraps below zero and never reaches zero again.
\<close>

theorem msg_buff_short_read_hangs:
  assumes "msgs b (x # y # ms)" "nbyte < length x" "(length x - nbyte) mod 16 \<noteq> 0"
  shows "msg_buff_dequeue b nbyte = None"
proof -
  have inv: "rb_inv b" and c: "rb_content b = msg_frame x @ concat (map msg_frame (y # ms))"
    using assms(1) by (simp_all add: msgs_def)
  obtain b1 where b1: "rb_inv b1" "rb_content b1 = drop nbyte x @ concat (map msg_frame (y # ms))"
    "msg_buff_dequeue b nbyte
       = Option.bind (msg_buff_drain (length x - nbyte) b1) (\<lambda>b. Some (0, take nbyte x, b))"
    using msg_buff_dequeue_short [OF inv c assms(2)] by blast
  have "length x - nbyte < length (rb_content b1)" unfolding b1(2) using assms(2) by simp
  then show ?thesis using msg_buff_drain_hangs [OF b1(1) assms(3)] b1(3) by simp
qed

theorem msg_buff_short_read_hangs_witness:
  "\<exists>b. msgs b [[1, 2, 3], [4]] \<and> msg_buff_dequeue b 1 = None"
proof -
  have c: "capacity (msg_buff_init (replicate 40 0) 40) = 40" by (simp add: msg_buff_init_def ring_buff_init_def int_to_size_def)
  have i: "msgs (msg_buff_init (replicate 40 0) 40) []" by (rule msgs_init) simp_all
  obtain b1 where b1: "rb_inv b1" "rb_content b1 = msg_frame [1, 2, 3]" "rb_room b1 = 28"
    using msg_buff_enqueue_ok [of "msg_buff_init (replicate 40 0) 40" "[1, 2, 3]"] i msgs_room [OF i] c
    by (auto simp: msgs_def)
  obtain b2 where "rb_inv b2" "rb_content b2 = msg_frame [1, 2, 3] @ msg_frame [4]"
    using msg_buff_enqueue_ok [of b1 "[4]"] b1 by auto
  then have "msgs b2 [[1, 2, 3], [4]]" by (simp add: msgs_def)
  then show ?thesis using msg_buff_short_read_hangs [of b2 "[1, 2, 3]" "[4]" "[]" 1] by auto
qed

end
