(* ===== verification/Indexator.thy ===== *)
theory Indexator
  imports Prelude "HOL-Library.Monad_Syntax"
begin

text \<open>
  The allocator of small numbers, \<^verbatim>\<open>lib/libds/indexator\<close>: a bit per number and four cached candidates
  for the next allocation. Numbers are \<^verbatim>\<open>size_t\<close>; \<^verbatim>\<open>INDEX_NONE\<close> is the largest of them. A failed
  assertion and an undefined shift are \<^const>\<open>None\<close>.
\<close>

datatype index_type = INDEX_RANDOM | INDEX_MIN | INDEX_MAX | INDEX_PREV | INDEX_NEXT

record indexator =
  i_last :: nat
  i_min :: nat
  i_max :: nat
  i_prev :: nat
  i_next :: nat
  i_mask :: "u64 list"
  i_start :: nat
  i_end :: nat
  clamp_min :: nat
  clamp_max :: nat

definition INDEX_NONE :: nat where
  "INDEX_NONE = 2 ^ 64 - 1"

definition EINVAL :: int where
  "EINVAL = 22"

definition assert_that :: "bool \<Rightarrow> unit option" where
  "assert_that p = (if p then Some () else None)"

text \<open>The expression \<^verbatim>\<open>1 << bit\<close> has type \<^verbatim>\<open>int\<close>: it is defined for shifts below 31 only.\<close>

definition int_bit :: "nat \<Rightarrow> u64 option" where
  "int_bit b = (if b < 31 then Some (push_bit b 1) else None)"

definition INDEX_DATA_LEN :: "nat \<Rightarrow> nat" where
  "INDEX_DATA_LEN capacity = (capacity + 64 - 1) div 64"

definition ind_check :: "indexator \<Rightarrow> nat \<Rightarrow> int" where
  "ind_check ind idx =
     (if idx = INDEX_NONE then - EINVAL
      else if \<not> (idx \<ge> i_start ind \<and> idx \<le> i_end ind) then - EINVAL
      else 0)"

definition ind_get_bit :: "indexator \<Rightarrow> nat \<Rightarrow> int option" where
  "ind_get_bit ind idx = do {
     assert_that (idx \<noteq> INDEX_NONE);
     assert_that (idx \<ge> i_start ind \<and> idx \<le> i_end ind);
     let word = (idx - i_start ind) div 64;
     let bt = (idx - i_start ind) mod 64;
     m \<leftarrow> int_bit bt;
     Some (uint ((i_mask ind ! word) AND m))
   }"

definition ind_set_bit :: "indexator \<Rightarrow> nat \<Rightarrow> indexator option" where
  "ind_set_bit ind idx = do {
     assert_that (idx \<noteq> INDEX_NONE);
     assert_that (idx \<ge> i_start ind \<and> idx \<le> i_end ind);
     let word = (idx - i_start ind) div 64;
     let bt = (idx - i_start ind) mod 64;
     m \<leftarrow> int_bit bt;
     assert_that (NOT (i_mask ind ! word) AND m \<noteq> 0);
     Some (ind\<lparr>i_mask := (i_mask ind)[word := (i_mask ind ! word) OR m]\<rparr>)
   }"

definition ind_unset_bit :: "indexator \<Rightarrow> nat \<Rightarrow> indexator option" where
  "ind_unset_bit ind idx = do {
     assert_that (idx \<noteq> INDEX_NONE);
     assert_that (idx \<ge> i_start ind \<and> idx \<le> i_end ind);
     let word = (idx - i_start ind) div 64;
     let bt = (idx - i_start ind) mod 64;
     m \<leftarrow> int_bit bt;
     assert_that ((i_mask ind ! word) AND m \<noteq> 0);
     Some (ind\<lparr>i_mask := (i_mask ind)[word := (i_mask ind ! word) AND NOT m]\<rparr>)
   }"

fun ind_find_less :: "indexator \<Rightarrow> nat \<Rightarrow> nat \<Rightarrow> nat \<Rightarrow> nat option" where
  "ind_find_less ind idx mn none =
     (if idx > mn then do {
        l \<leftarrow> ind_get_bit ind (idx - 1);
        if l = 0 then Some (idx - 1) else ind_find_less ind (idx - 1) mn none
      } else Some none)"

declare ind_find_less.simps [simp del]

function ind_find_more :: "indexator \<Rightarrow> nat \<Rightarrow> nat \<Rightarrow> nat \<Rightarrow> nat option" where
  "ind_find_more ind idx mx none =
     (if idx < mx then do {
        l \<leftarrow> ind_get_bit ind (idx + 1);
        if l = 0 then Some (idx + 1) else ind_find_more ind (idx + 1) mx none
      } else Some none)"
  by pat_completeness auto
termination
  by (relation "measure (\<lambda>(_, idx, mx, _). mx - idx)") auto

declare ind_find_more.simps [simp del]

text \<open>The random numbers are a parameter: the sequence the C library's generator produces.\<close>

partial_function (option) ind_rand_loop :: "indexator \<Rightarrow> nat \<Rightarrow> (nat \<Rightarrow> nat) \<Rightarrow> nat \<Rightarrow> nat option" where
  "ind_rand_loop ind capacity rnd k =
     Option.bind (ind_get_bit ind (clamp_min ind + rnd k mod capacity)) (\<lambda>l.
       if l \<noteq> 0 then ind_rand_loop ind capacity rnd (Suc k)
       else Some (clamp_min ind + rnd k mod capacity))"

definition ind_find_rand :: "indexator \<Rightarrow> (nat \<Rightarrow> nat) \<Rightarrow> nat option" where
  "ind_find_rand ind rnd =
     (if i_min ind = INDEX_NONE then Some INDEX_NONE
      else ind_rand_loop ind (clamp_max ind - clamp_min ind + 1) rnd 0)"

definition index_init :: "nat \<Rightarrow> nat \<Rightarrow> indexator option" where
  "index_init start capacity = do {
     assert_that (capacity \<noteq> 0);
     assert_that (wrap64 (start + capacity) \<noteq> INDEX_NONE);
     let e = sub64 (wrap64 (start + capacity)) 1;
     Some \<lparr>i_last = INDEX_NONE, i_min = start, i_max = e, i_prev = e, i_next = start,
           i_mask = replicate (INDEX_DATA_LEN capacity) 0, i_start = start, i_end = e,
           clamp_min = start, clamp_max = e\<rparr>
   }"

definition index_capacity :: "indexator \<Rightarrow> nat" where
  "index_capacity ind = wrap64 (sub64 (i_end ind) (i_start ind) + 1)"

definition index_clean :: "indexator \<Rightarrow> indexator" where
  "index_clean ind =
     (let n = INDEX_DATA_LEN (index_capacity ind)
      in ind\<lparr>i_last := INDEX_NONE, i_min := i_start ind, i_next := i_start ind, clamp_min := i_start ind,
             i_max := i_end ind, i_prev := i_end ind, clamp_max := i_end ind,
             i_mask := replicate n 0 @ drop n (i_mask ind)\<rparr>)"

definition index_find :: "indexator \<Rightarrow> index_type \<Rightarrow> (nat \<Rightarrow> nat) \<Rightarrow> nat option" where
  "index_find ind ty rnd =
     (case ty of
        INDEX_RANDOM \<Rightarrow> ind_find_rand ind rnd
      | INDEX_MIN \<Rightarrow> Some (i_min ind)
      | INDEX_MAX \<Rightarrow> Some (i_max ind)
      | INDEX_PREV \<Rightarrow> Some (i_prev ind)
      | INDEX_NEXT \<Rightarrow> Some (i_next ind))"

definition index_lock :: "indexator \<Rightarrow> nat \<Rightarrow> indexator option" where
  "index_lock ind idx = do {
     ind \<leftarrow> ind_set_bit ind idx;
     assert_that (idx \<noteq> INDEX_NONE);
     if idx \<ge> clamp_min ind \<and> idx \<le> clamp_max ind then do {
       let ind = ind\<lparr>i_last := idx\<rparr>;
       mn \<leftarrow> (if idx = i_min ind then ind_find_more ind (i_min ind) (clamp_max ind) INDEX_NONE
             else Some (i_min ind));
       let ind = ind\<lparr>i_min := mn\<rparr>;
       mx \<leftarrow> (if idx = i_max ind then ind_find_less ind (i_max ind) (clamp_min ind) INDEX_NONE
             else Some (i_max ind));
       let ind = ind\<lparr>i_max := mx\<rparr>;
       pv \<leftarrow> ind_find_less ind idx (clamp_min ind) (i_max ind);
       let ind = ind\<lparr>i_prev := pv\<rparr>;
       nx \<leftarrow> ind_find_more ind idx (clamp_max ind) (i_min ind);
       Some (ind\<lparr>i_next := nx\<rparr>)
     } else Some ind
   }"

definition index_locked :: "indexator \<Rightarrow> nat \<Rightarrow> int option" where
  "index_locked ind idx =
     (if ind_check ind idx \<noteq> 0 then Some (ind_check ind idx)
      else ind_get_bit ind idx)"

definition index_try_lock :: "indexator \<Rightarrow> nat \<Rightarrow> (int \<times> indexator) option" where
  "index_try_lock ind idx =
     (if ind_check ind idx \<noteq> 0 then Some (ind_check ind idx, ind)
      else do {
        l \<leftarrow> ind_get_bit ind idx;
        if l \<noteq> 0 then Some (0, ind)
        else do { ind \<leftarrow> index_lock ind idx; Some (1, ind) }
      })"

definition unlock_min_max :: "indexator \<Rightarrow> nat \<Rightarrow> indexator" where
  "unlock_min_max ind idx =
     (let ind = ind\<lparr>i_min := (if idx < i_min ind then idx else i_min ind)\<rparr>
      in ind\<lparr>i_max := (if idx > i_max ind then idx else i_max ind)\<rparr>)"

definition unlock_prev_next :: "indexator \<Rightarrow> nat \<Rightarrow> indexator" where
  "unlock_prev_next ind idx =
     (let ind = ind\<lparr>i_prev :=
            (if (idx > i_prev ind \<and> idx < i_last ind)
                \<or> (i_prev ind > i_last ind \<and> (idx > i_prev ind \<or> idx < i_last ind))
                \<or> i_prev ind = i_last ind
             then idx else i_prev ind)\<rparr>
      in ind\<lparr>i_next :=
            (if (idx < i_next ind \<and> idx > i_last ind)
                \<or> (i_next ind < i_last ind \<and> (idx < i_next ind \<or> idx > i_last ind))
                \<or> i_next ind = i_last ind
             then idx else i_next ind)\<rparr>)"

definition index_unlock :: "indexator \<Rightarrow> nat \<Rightarrow> indexator option" where
  "index_unlock ind idx =
     (if ind_check ind idx \<noteq> 0 then Some ind
      else do {
        ind \<leftarrow> ind_unset_bit ind idx;
        assert_that (idx \<noteq> INDEX_NONE);
        if idx \<ge> clamp_min ind \<and> idx \<le> clamp_max ind then do {
          assert_that (i_last ind \<noteq> INDEX_NONE);
          Some (if i_min ind = INDEX_NONE
                then ind\<lparr>i_min := idx, i_max := idx, i_prev := idx, i_next := idx\<rparr>
                else unlock_prev_next (unlock_min_max ind idx) idx)
        } else Some ind
      })"

definition index_alloc :: "indexator \<Rightarrow> index_type \<Rightarrow> (nat \<Rightarrow> nat) \<Rightarrow> (nat \<times> indexator) option" where
  "index_alloc ind ty rnd = do {
     idx \<leftarrow> index_find ind ty rnd;
     if idx \<noteq> INDEX_NONE then do { ind \<leftarrow> index_lock ind idx; Some (idx, ind) }
     else Some (idx, ind)
   }"

definition index_free :: "indexator \<Rightarrow> nat \<Rightarrow> indexator option" where
  "index_free ind idx = index_unlock ind idx"

definition index_clamp :: "indexator \<Rightarrow> nat \<Rightarrow> nat \<Rightarrow> indexator option" where
  "index_clamp ind mn mx = do {
     assert_that (mn \<ge> i_start ind);
     assert_that (mx \<le> i_end ind);
     assert_that (i_last ind = INDEX_NONE);
     let ind = ind\<lparr>i_min := mn, i_next := mn, clamp_min := mn, i_max := mx, i_prev := mx, clamp_max := mx\<rparr>;
     a \<leftarrow> index_locked ind (i_min ind);
     assert_that (a = 0);
     b \<leftarrow> index_locked ind (i_max ind);
     assert_that (b = 0);
     c \<leftarrow> index_locked ind (i_prev ind);
     assert_that (c = 0);
     d \<leftarrow> index_locked ind (i_next ind);
     assert_that (d = 0);
     Some ind
   }"

section \<open>Abstract view\<close>

definition locked :: "indexator \<Rightarrow> nat \<Rightarrow> bool" where
  "locked ind i \<longleftrightarrow> i_start ind \<le> i \<and> i \<le> i_end ind
     \<and> bit (i_mask ind ! ((i - i_start ind) div 64)) ((i - i_start ind) mod 64)"

definition free_idx :: "indexator \<Rightarrow> nat set" where
  "free_idx ind = {i. clamp_min ind \<le> i \<and> i \<le> clamp_max ind \<and> \<not> locked ind i}"

definition is_least :: "nat set \<Rightarrow> nat \<Rightarrow> nat \<Rightarrow> bool" where
  "is_least S d m \<longleftrightarrow> (if S = {} then m = d else m \<in> S \<and> (\<forall>x \<in> S. m \<le> x))"

definition is_greatest :: "nat set \<Rightarrow> nat \<Rightarrow> nat \<Rightarrow> bool" where
  "is_greatest S d m \<longleftrightarrow> (if S = {} then m = d else m \<in> S \<and> (\<forall>x \<in> S. x \<le> m))"

text \<open>What the four cached candidates stand for.\<close>

definition cached_ok :: "indexator \<Rightarrow> bool" where
  "cached_ok ind \<longleftrightarrow>
     is_least (free_idx ind) INDEX_NONE (i_min ind)
   \<and> is_greatest (free_idx ind) INDEX_NONE (i_max ind)
   \<and> is_least {i \<in> free_idx ind. i_last ind < i} (i_min ind) (i_next ind)
   \<and> is_greatest {i \<in> free_idx ind. i < i_last ind} (i_max ind) (i_prev ind)"

definition ind_shape :: "indexator \<Rightarrow> bool" where
  "ind_shape ind \<longleftrightarrow> i_start ind \<le> clamp_min ind \<and> clamp_min ind \<le> clamp_max ind
     \<and> clamp_max ind \<le> i_end ind \<and> i_end ind < INDEX_NONE \<and> i_end ind < i_start ind + 31
     \<and> i_mask ind \<noteq> []"

definition ind_inv :: "indexator \<Rightarrow> bool" where
  "ind_inv ind \<longleftrightarrow> ind_shape ind \<and> cached_ok ind
     \<and> ((\<exists>i. locked ind i \<and> clamp_min ind \<le> i \<and> i \<le> clamp_max ind) \<longrightarrow> i_last ind \<noteq> INDEX_NONE)"

text \<open>
  The histories of an indexator over the numbers \<open>start .. start + capacity - 1\<close>, with the set of
  numbers handed out: allocations of every kind, explicit locks, releases of what was handed out, and
  clamping while nothing is.
\<close>

inductive index_reach :: "nat \<Rightarrow> nat \<Rightarrow> nat set \<Rightarrow> indexator \<Rightarrow> bool" for start capacity where
  init: "index_init start capacity = Some ind \<Longrightarrow> index_reach start capacity {} ind"
| clamp: "index_reach start capacity {} ind \<Longrightarrow> mn \<le> mx \<Longrightarrow> index_clamp ind mn mx = Some ind' \<Longrightarrow>
    index_reach start capacity {} ind'"
| alloc: "index_reach start capacity S ind \<Longrightarrow> index_alloc ind ty rnd = Some (i, ind') \<Longrightarrow> i \<noteq> INDEX_NONE \<Longrightarrow>
    index_reach start capacity (insert i S) ind'"
| try_lock: "index_reach start capacity S ind \<Longrightarrow> index_try_lock ind i = Some (1, ind') \<Longrightarrow>
    index_reach start capacity (insert i S) ind'"
| free: "index_reach start capacity S ind \<Longrightarrow> i \<in> S \<Longrightarrow> index_free ind i = Some ind' \<Longrightarrow>
    index_reach start capacity (S - {i}) ind'"

section \<open>The bits\<close>

lemma word_and_bit: "(w :: u64) AND 2 ^ n = (if bit w n then 2 ^ n else 0)"
  by (rule bit_word_eqI) (auto simp: bit_simps)

lemma word_bit_neq_0: "n < 64 \<Longrightarrow> (2 :: u64) ^ n \<noteq> 0"
  by simp

lemma in_range:
  assumes "ind_shape ind" "i_start ind \<le> i" "i \<le> i_end ind"
  shows "i - i_start ind < 31" "i \<noteq> INDEX_NONE"
  using assms by (auto simp: ind_shape_def)

lemma locked_eq: "ind_shape ind \<Longrightarrow> i_start ind \<le> i \<Longrightarrow> i \<le> i_end ind \<Longrightarrow>
    locked ind i \<longleftrightarrow> bit (i_mask ind ! 0) (i - i_start ind)"
  using in_range [of ind i] by (simp add: locked_def)

lemma ind_get_bit_eq:
  assumes "ind_shape ind" "i_start ind \<le> i" "i \<le> i_end ind"
  shows "ind_get_bit ind i = Some (if locked ind i then uint ((2 :: u64) ^ (i - i_start ind)) else 0)"
  using in_range [OF assms] assms
  by (simp add: ind_get_bit_def assert_that_def int_bit_def locked_eq word_and_bit Let_def)

lemma ind_get_bit_zero:
  assumes "ind_shape ind" "i_start ind \<le> i" "i \<le> i_end ind"
  obtains v where "ind_get_bit ind i = Some v" "v = 0 \<longleftrightarrow> \<not> locked ind i"
proof (cases "locked ind i")
  case True
  have "uint ((2 :: u64) ^ (i - i_start ind)) \<noteq> 0"
    using word_bit_neq_0 [of "i - i_start ind"] in_range [OF assms] unfolding uint_0_iff by linarith
  then show thesis using that ind_get_bit_eq [OF assms] True by auto
next
  case False
  then show thesis using that ind_get_bit_eq [OF assms] by auto
qed

lemma shape_mask: "ind_shape (ind\<lparr>i_mask := m\<rparr>) \<longleftrightarrow> ind_shape ind" if "m \<noteq> []" "i_mask ind \<noteq> []"
  using that by (simp add: ind_shape_def)

lemma ind_set_bit_ok:
  assumes sh: "ind_shape ind" and r: "i_start ind \<le> i" "i \<le> i_end ind" and fr: "\<not> locked ind i"
  obtains m where "ind_set_bit ind i = Some (ind\<lparr>i_mask := m\<rparr>)" "m \<noteq> []"
    "\<And>j. locked (ind\<lparr>i_mask := m\<rparr>) j \<longleftrightarrow> locked ind j \<or> j = i"
proof -
  let ?m = "(i_mask ind)[0 := (i_mask ind ! 0) OR 2 ^ (i - i_start ind)]"
  note b = in_range [OF sh r]
  have ne: "i_mask ind \<noteq> []" using sh by (simp add: ind_shape_def)
  have "NOT (i_mask ind ! 0) AND 2 ^ (i - i_start ind) \<noteq> 0"
    using fr b sh r by (simp add: locked_eq word_and_bit bit_simps word_bit_neq_0)
  then have 1: "ind_set_bit ind i = Some (ind\<lparr>i_mask := ?m\<rparr>)"
    using b r by (simp add: ind_set_bit_def assert_that_def int_bit_def Let_def)
  have 2: "locked (ind\<lparr>i_mask := ?m\<rparr>) j \<longleftrightarrow> locked ind j \<or> j = i" for j
  proof (cases "i_start ind \<le> j \<and> j \<le> i_end ind")
    case True
    then have j: "j - i_start ind < 31" using in_range [OF sh] by simp
    show ?thesis using True r j b ne by (auto simp: locked_def bit_simps)
  next
    case False
    then show ?thesis using r by (auto simp: locked_def)
  qed
  show thesis using 1 2 ne by (intro that [of ?m]) simp_all
qed

lemma ind_unset_bit_ok:
  assumes sh: "ind_shape ind" and r: "i_start ind \<le> i" "i \<le> i_end ind" and lk: "locked ind i"
  obtains m where "ind_unset_bit ind i = Some (ind\<lparr>i_mask := m\<rparr>)" "m \<noteq> []"
    "\<And>j. locked (ind\<lparr>i_mask := m\<rparr>) j \<longleftrightarrow> locked ind j \<and> j \<noteq> i"
proof -
  let ?m = "(i_mask ind)[0 := (i_mask ind ! 0) AND NOT (2 ^ (i - i_start ind))]"
  note b = in_range [OF sh r]
  have ne: "i_mask ind \<noteq> []" using sh by (simp add: ind_shape_def)
  have "(i_mask ind ! 0) AND 2 ^ (i - i_start ind) \<noteq> 0"
    using lk b sh r by (simp add: locked_eq word_and_bit bit_simps word_bit_neq_0)
  then have 1: "ind_unset_bit ind i = Some (ind\<lparr>i_mask := ?m\<rparr>)"
    using b r by (simp add: ind_unset_bit_def assert_that_def int_bit_def Let_def)
  have 2: "locked (ind\<lparr>i_mask := ?m\<rparr>) j \<longleftrightarrow> locked ind j \<and> j \<noteq> i" for j
  proof (cases "i_start ind \<le> j \<and> j \<le> i_end ind")
    case True
    then have j: "j - i_start ind < 31" using in_range [OF sh] by simp
    show ?thesis using True r j b ne by (auto simp: locked_def bit_simps)
  next
    case False
    then show ?thesis using r by (auto simp: locked_def)
  qed
  show thesis using 1 2 ne by (intro that [of ?m]) simp_all
qed

section \<open>The searches\<close>

lemma is_least_step:
  "a \<in> S \<Longrightarrow> \<forall>x \<in> S. a \<le> x \<Longrightarrow> is_least S d a"
  "a \<in> S \<Longrightarrow> \<forall>x \<in> S. x \<le> a \<Longrightarrow> is_greatest S d a"
  by (auto simp: is_least_def is_greatest_def)

lemma ind_find_more_ok:
  assumes "ind_shape ind" "i_start ind \<le> idx" "mx \<le> i_end ind"
  shows "\<exists>r. ind_find_more ind idx mx none = Some r \<and> is_least {i. idx < i \<and> i \<le> mx \<and> \<not> locked ind i} none r"
  using assms
proof (induction ind idx mx none rule: ind_find_more.induct)
  case (1 ind idx mx none)
  show ?case
  proof (cases "idx < mx")
    case False
    then show ?thesis by (subst ind_find_more.simps) (auto simp: is_least_def)
  next
    case True
    obtain v where v: "ind_get_bit ind (idx + 1) = Some v" "v = 0 \<longleftrightarrow> \<not> locked ind (idx + 1)"
      using ind_get_bit_zero [OF 1(2), of "idx + 1"] 1(3,4) True by auto
    show ?thesis
    proof (cases "v = 0")
      case vz: True
      then show ?thesis using True v by (subst ind_find_more.simps) (auto intro!: is_least_step)
    next
      case vn: False
      have "{i. idx < i \<and> i \<le> mx \<and> \<not> locked ind i} = {i. idx + 1 < i \<and> i \<le> mx \<and> \<not> locked ind i}"
        using v(2) vn by auto (metis Suc_lessI)
      then show ?thesis using 1(1) [OF True v(1) vn 1(2)] 1(3,4) True v vn
        by (subst ind_find_more.simps) simp
    qed
  qed
qed

lemma ind_find_less_ok:
  assumes "ind_shape ind" "i_start ind \<le> mn" "idx \<le> Suc (i_end ind)"
  shows "\<exists>r. ind_find_less ind idx mn none = Some r \<and> is_greatest {i. mn \<le> i \<and> i < idx \<and> \<not> locked ind i} none r"
  using assms
proof (induction ind idx mn none rule: ind_find_less.induct)
  case (1 ind idx mn none)
  show ?case
  proof (cases "mn < idx")
    case False
    then show ?thesis by (subst ind_find_less.simps) (auto simp: is_greatest_def)
  next
    case True
    have r: "i_start ind \<le> idx - 1" "idx - 1 \<le> i_end ind" using 1(3,4) True by simp_all
    obtain v where v: "ind_get_bit ind (idx - 1) = Some v" "v = 0 \<longleftrightarrow> \<not> locked ind (idx - 1)"
      using ind_get_bit_zero [OF 1(2) r] by blast
    show ?thesis
    proof (cases "v = 0")
      case vz: True
      then show ?thesis using True v by (subst ind_find_less.simps) (auto intro!: is_least_step)
    next
      case vn: False
      have "i < idx - 1 \<longleftrightarrow> i < idx" if "\<not> locked ind i" for i
        using that v(2) vn True by (cases "i = idx - 1") auto
      then have "{i. mn \<le> i \<and> i < idx \<and> \<not> locked ind i} = {i. mn \<le> i \<and> i < idx - 1 \<and> \<not> locked ind i}"
        by auto
      then show ?thesis using 1(1) [OF True v(1) vn 1(2)] 1(3,4) True v vn
        by (subst ind_find_less.simps) simp
    qed
  qed
qed

section \<open>How a candidate changes\<close>

lemma least_remove:
  assumes "is_least S d m" "a \<in> S"
  shows "a = m \<Longrightarrow> is_least {x \<in> S. a < x} e r \<Longrightarrow> is_least (S - {a}) e r"
    "a \<noteq> m \<Longrightarrow> is_least (S - {a}) e m"
proof -
  show "is_least (S - {a}) e r" if "a = m" "is_least {x \<in> S. a < x} e r"
  proof -
    have "\<forall>x \<in> S. a \<le> x" using that(1) assms by (auto simp: is_least_def split: if_splits)
    then have "{x \<in> S. a < x} = S - {a}" by (auto simp: le_less)
    then show ?thesis using that(2) by simp
  qed
  show "is_least (S - {a}) e m" if "a \<noteq> m" using that assms by (auto simp: is_least_def split: if_splits)
qed

lemma greatest_remove:
  assumes "is_greatest S d m" "a \<in> S"
  shows "a = m \<Longrightarrow> is_greatest {x \<in> S. x < a} e r \<Longrightarrow> is_greatest (S - {a}) e r"
    "a \<noteq> m \<Longrightarrow> is_greatest (S - {a}) e m"
proof -
  show "is_greatest (S - {a}) e r" if "a = m" "is_greatest {x \<in> S. x < a} e r"
  proof -
    have "\<forall>x \<in> S. x \<le> a" using that(1) assms by (auto simp: is_greatest_def split: if_splits)
    then have "{x \<in> S. x < a} = S - {a}" by (auto simp: le_less)
    then show ?thesis using that(2) by simp
  qed
  show "is_greatest (S - {a}) e m" if "a \<noteq> m" using that assms by (auto simp: is_greatest_def split: if_splits)
qed

lemma least_insert: "is_least S d m \<Longrightarrow> S \<noteq> {} \<Longrightarrow> is_least (insert a S) e (if a < m then a else m)"
  by (auto simp: is_least_def)

lemma greatest_insert: "is_greatest S d m \<Longrightarrow> S \<noteq> {} \<Longrightarrow> is_greatest (insert a S) e (if m < a then a else m)"
  by (auto simp: is_greatest_def)

lemma next_insert:
  assumes "is_least S d mn" "S \<noteq> {}" "a \<notin> S" and nx: "is_least {i \<in> S. l < i} mn nx"
  shows "is_least {i \<in> insert a S. l < i} (if a < mn then a else mn)
     (if (a < nx \<and> a > l) \<or> (nx < l \<and> (a < nx \<or> a > l)) \<or> nx = l then a else nx)"
    (is "is_least ?T ?m (if ?c then a else nx)")
proof (cases "\<exists>x \<in> S. l < x")
  case True
  then have n: "nx \<in> S" "l < nx" "\<forall>x \<in> S. l < x \<longrightarrow> nx \<le> x" using nx by (auto simp: is_least_def split: if_splits)
  then have c: "?c \<longleftrightarrow> l < a \<and> a < nx" by auto
  show ?thesis
  proof (cases "?c")
    case True
    then have "a \<in> ?T" "\<forall>x \<in> ?T. a \<le> x" using c n(3) by (auto simp: less_imp_le dest: order_less_le_trans)
    then show ?thesis using True by (simp only: if_True is_least_step)
  next
    case False
    then have "nx \<in> ?T" "\<forall>x \<in> ?T. nx \<le> x" using c n by (auto simp: not_less)
    then show ?thesis using False by (simp only: if_False is_least_step)
  qed
next
  case False
  then have n: "nx = mn" using nx by (simp add: is_least_def)
  have mn: "mn \<in> S" "mn \<le> l" "a \<noteq> mn" using assms(1-3) False by (auto simp: is_least_def not_less)
  have c: "?c \<longleftrightarrow> l < a \<or> a < mn" using n mn by auto
  show ?thesis
  proof (cases "l < a")
    case True
    then have "?T = {a}" using False by auto
    then show ?thesis using True c by (simp add: is_least_def)
  next
    case al: False
    then have "?T = {}" using False by auto
    then show ?thesis using al c n by (simp add: is_least_def)
  qed
qed

lemma prev_insert:
  assumes "is_greatest S d mx" "S \<noteq> {}" "a \<notin> S" and pv: "is_greatest {i \<in> S. i < l} mx pv"
  shows "is_greatest {i \<in> insert a S. i < l} (if mx < a then a else mx)
     (if (a > pv \<and> a < l) \<or> (pv > l \<and> (a > pv \<or> a < l)) \<or> pv = l then a else pv)"
    (is "is_greatest ?T ?m (if ?c then a else pv)")
proof (cases "\<exists>x \<in> S. x < l")
  case True
  then have n: "pv \<in> S" "pv < l" "\<forall>x \<in> S. x < l \<longrightarrow> x \<le> pv" using pv by (auto simp: is_greatest_def split: if_splits)
  then have c: "?c \<longleftrightarrow> a < l \<and> pv < a" by auto
  show ?thesis
  proof (cases "?c")
    case True
    then have "a \<in> ?T" "\<forall>x \<in> ?T. x \<le> a" using c n(3) by (auto simp: less_imp_le dest: order_le_less_trans)
    then show ?thesis using True by (simp only: if_True is_least_step)
  next
    case False
    then have "pv \<in> ?T" "\<forall>x \<in> ?T. x \<le> pv" using c n by (auto simp: not_less)
    then show ?thesis using False by (simp only: if_False is_least_step)
  qed
next
  case False
  then have n: "pv = mx" using pv by (simp add: is_greatest_def)
  have mx: "mx \<in> S" "l \<le> mx" "a \<noteq> mx" using assms(1-3) False by (auto simp: is_greatest_def not_less)
  have c: "?c \<longleftrightarrow> a < l \<or> mx < a" using n mx by auto
  show ?thesis
  proof (cases "a < l")
    case True
    then have "?T = {a}" using False by auto
    then show ?thesis using True c by (simp add: is_greatest_def)
  next
    case al: False
    then have "?T = {}" using False by auto
    then show ?thesis using al c n by (simp add: is_greatest_def)
  qed
qed

section \<open>Locking and unlocking\<close>

lemma shape_upd [simp]:
  "ind_shape (ind\<lparr>i_last := v\<rparr>) = ind_shape ind" "ind_shape (ind\<lparr>i_min := v\<rparr>) = ind_shape ind"
  "ind_shape (ind\<lparr>i_max := v\<rparr>) = ind_shape ind" "ind_shape (ind\<lparr>i_prev := v\<rparr>) = ind_shape ind"
  "ind_shape (ind\<lparr>i_next := v\<rparr>) = ind_shape ind"
  by (simp_all add: ind_shape_def)

lemma locked_upd [simp]:
  "locked (ind\<lparr>i_last := v\<rparr>) = locked ind" "locked (ind\<lparr>i_min := v\<rparr>) = locked ind"
  "locked (ind\<lparr>i_max := v\<rparr>) = locked ind" "locked (ind\<lparr>i_prev := v\<rparr>) = locked ind"
  "locked (ind\<lparr>i_next := v\<rparr>) = locked ind"
  by (simp_all add: locked_def fun_eq_iff)

lemma free_idx_upd [simp]:
  "free_idx (ind\<lparr>i_last := v\<rparr>) = free_idx ind" "free_idx (ind\<lparr>i_min := v\<rparr>) = free_idx ind"
  "free_idx (ind\<lparr>i_max := v\<rparr>) = free_idx ind" "free_idx (ind\<lparr>i_prev := v\<rparr>) = free_idx ind"
  "free_idx (ind\<lparr>i_next := v\<rparr>) = free_idx ind"
  by (simp_all add: free_idx_def)

lemma free_idx_range: "ind_shape ind \<Longrightarrow> i \<in> free_idx ind \<Longrightarrow> i_start ind \<le> i \<and> i \<le> i_end ind \<and> i \<noteq> INDEX_NONE"
  by (auto simp: free_idx_def ind_shape_def)

lemma ind_get_bit_cong:
  "i_start ind' = i_start ind \<Longrightarrow> i_end ind' = i_end ind \<Longrightarrow> i_mask ind' = i_mask ind \<Longrightarrow>
    ind_get_bit ind' i = ind_get_bit ind i"
  by (simp add: ind_get_bit_def)

lemma ind_find_more_cong:
  "i_start ind' = i_start ind \<Longrightarrow> i_end ind' = i_end ind \<Longrightarrow> i_mask ind' = i_mask ind \<Longrightarrow>
    ind_find_more ind' i mx d = ind_find_more ind i mx d"
proof (induction ind i mx d rule: ind_find_more.induct)
  case (1 ind i mx d)
  then have g: "ind_get_bit ind' (i + 1) = ind_get_bit ind (i + 1)" by (intro ind_get_bit_cong)
  show ?case
    using 1 by (subst (1 2) ind_find_more.simps) (cases "ind_get_bit ind (i + 1)"; simp add: g [simplified])
qed

lemma ind_find_less_cong:
  "i_start ind' = i_start ind \<Longrightarrow> i_end ind' = i_end ind \<Longrightarrow> i_mask ind' = i_mask ind \<Longrightarrow>
    ind_find_less ind' i mn d = ind_find_less ind i mn d"
proof (induction ind i mn d rule: ind_find_less.induct)
  case (1 ind i mn d)
  then have g: "ind_get_bit ind' (i - 1) = ind_get_bit ind (i - 1)" by (intro ind_get_bit_cong)
  show ?case
    using 1 by (subst (1 2) ind_find_less.simps) (cases "ind_get_bit ind (i - 1)"; simp add: g [simplified])
qed

lemma ind_find_upd [simp]:
  "ind_find_more (ind\<lparr>i_min := v\<rparr>) i mx d = ind_find_more ind i mx d"
  "ind_find_more (ind\<lparr>i_max := v\<rparr>) i mx d = ind_find_more ind i mx d"
  "ind_find_more (ind\<lparr>i_prev := v\<rparr>) i mx d = ind_find_more ind i mx d"
  "ind_find_less (ind\<lparr>i_min := v\<rparr>) i mx d = ind_find_less ind i mx d"
  "ind_find_less (ind\<lparr>i_max := v\<rparr>) i mx d = ind_find_less ind i mx d"
  by (rule ind_find_more_cong ind_find_less_cong; simp)+

lemma index_lock_cached:
  assumes sh: "ind_shape ind1" and F1: "free_idx ind1 = F - {idx}" and i: "idx \<in> F"
    and cl: "clamp_min ind1 \<le> idx" "idx \<le> clamp_max ind1"
    and F: "is_least F INDEX_NONE (i_min ind1)" "is_greatest F INDEX_NONE (i_max ind1)"
  obtains mn mx pv nx where
    "(if idx = i_min ind1 then ind_find_more ind1 (i_min ind1) (clamp_max ind1) INDEX_NONE
      else Some (i_min ind1)) = Some mn"
    "(if idx = i_max ind1 then ind_find_less ind1 (i_max ind1) (clamp_min ind1) INDEX_NONE
      else Some (i_max ind1)) = Some mx"
    "ind_find_less ind1 idx (clamp_min ind1) mx = Some pv" "ind_find_more ind1 idx (clamp_max ind1) mn = Some nx"
    "is_least (free_idx ind1) INDEX_NONE mn" "is_greatest (free_idx ind1) INDEX_NONE mx"
    "is_least {j \<in> free_idx ind1. idx < j} mn nx" "is_greatest {j \<in> free_idx ind1. j < idx} mx pv"
proof -
  have up: "{j. idx < j \<and> j \<le> clamp_max ind1 \<and> \<not> locked ind1 j} = {j \<in> free_idx ind1. idx < j}"
    and dn: "{j. clamp_min ind1 \<le> j \<and> j < idx \<and> \<not> locked ind1 j} = {j \<in> free_idx ind1. j < idx}"
    using cl by (auto simp: free_idx_def)
  have sb: "i_start ind1 \<le> idx" "clamp_max ind1 \<le> i_end ind1" "i_start ind1 \<le> clamp_min ind1" "idx \<le> Suc (i_end ind1)"
    using sh cl by (auto simp: ind_shape_def)
  have more: "\<exists>v. ind_find_more ind1 idx (clamp_max ind1) d = Some v \<and> is_least {j \<in> free_idx ind1. idx < j} d v" for d
    using ind_find_more_ok [OF sh sb(1,2), of d] unfolding up .
  have less: "\<exists>v. ind_find_less ind1 idx (clamp_min ind1) d = Some v \<and> is_greatest {j \<in> free_idx ind1. j < idx} d v" for d
    using ind_find_less_ok [OF sh sb(3,4), of d] unfolding dn .
  have eqs: "{x \<in> F. idx < x} = {x \<in> free_idx ind1. idx < x}" "{x \<in> F. x < idx} = {x \<in> free_idx ind1. x < idx}"
    unfolding F1 by auto
  have "\<exists>mn. (if idx = i_min ind1 then ind_find_more ind1 (i_min ind1) (clamp_max ind1) INDEX_NONE
      else Some (i_min ind1)) = Some mn \<and> is_least (free_idx ind1) INDEX_NONE mn"
    using more [of INDEX_NONE] least_remove [OF F(1) i, unfolded eqs, folded F1] by metis
  moreover have "\<exists>mx. (if idx = i_max ind1 then ind_find_less ind1 (i_max ind1) (clamp_min ind1) INDEX_NONE
      else Some (i_max ind1)) = Some mx \<and> is_greatest (free_idx ind1) INDEX_NONE mx"
    using less [of INDEX_NONE] greatest_remove [OF F(2) i, unfolded eqs, folded F1] by metis
  ultimately show thesis using more less that by blast
qed

lemma index_lock_ok:
  assumes inv: "ind_inv ind" and i: "idx \<in> free_idx ind"
  shows "\<exists>ind'. index_lock ind idx = Some ind' \<and> ind_inv ind' \<and> i_last ind' = idx
     \<and> (\<forall>j. locked ind' j \<longleftrightarrow> locked ind j \<or> j = idx)
     \<and> clamp_min ind' = clamp_min ind \<and> clamp_max ind' = clamp_max ind
     \<and> i_start ind' = i_start ind \<and> i_end ind' = i_end ind"
proof -
  have sh: "ind_shape ind" and ok: "cached_ok ind" using inv by (simp_all add: ind_inv_def)
  note r = free_idx_range [OF sh i]
  have cl: "clamp_min ind \<le> idx" "idx \<le> clamp_max ind" "\<not> locked ind idx" using i by (simp_all add: free_idx_def)
  obtain m where m: "ind_set_bit ind idx = Some (ind\<lparr>i_mask := m\<rparr>)" "m \<noteq> []"
    "\<And>j. locked (ind\<lparr>i_mask := m\<rparr>) j \<longleftrightarrow> locked ind j \<or> j = idx"
    using ind_set_bit_ok [OF sh _ _ cl(3)] r by blast
  define ind1 where "ind1 = ind\<lparr>i_mask := m, i_last := idx\<rparr>"
  have sh1: "ind_shape ind1" using sh m(2) by (simp add: ind1_def ind_shape_def)
  have lk1: "locked ind1 j \<longleftrightarrow> locked ind j \<or> j = idx" for j using m(3) by (simp add: ind1_def)
  have c1: "clamp_min ind1 = clamp_min ind" "clamp_max ind1 = clamp_max ind" "i_min ind1 = i_min ind"
    "i_max ind1 = i_max ind" "i_start ind1 = i_start ind" "i_end ind1 = i_end ind" "i_last ind1 = idx"
    by (simp_all add: ind1_def)
  have F1: "free_idx ind1 = free_idx ind - {idx}" by (auto simp: free_idx_def lk1 c1)
  have F: "is_least (free_idx ind) INDEX_NONE (i_min ind1)" "is_greatest (free_idx ind) INDEX_NONE (i_max ind1)"
    using ok by (simp_all add: cached_ok_def c1)
  have cl1: "clamp_min ind1 \<le> idx" "idx \<le> clamp_max ind1" using cl c1 by simp_all
  obtain mn mx pv nx where *:
    "(if idx = i_min ind1 then ind_find_more ind1 (i_min ind1) (clamp_max ind1) INDEX_NONE
      else Some (i_min ind1)) = Some mn"
    "(if idx = i_max ind1 then ind_find_less ind1 (i_max ind1) (clamp_min ind1) INDEX_NONE
      else Some (i_max ind1)) = Some mx"
    "ind_find_less ind1 idx (clamp_min ind1) mx = Some pv" "ind_find_more ind1 idx (clamp_max ind1) mn = Some nx"
    "is_least (free_idx ind1) INDEX_NONE mn" "is_greatest (free_idx ind1) INDEX_NONE mx"
    "is_least {j \<in> free_idx ind1. idx < j} mn nx" "is_greatest {j \<in> free_idx ind1. j < idx} mx pv"
    using index_lock_cached [OF sh1 F1 i cl1 F] by blast
  let ?ind = "ind1\<lparr>i_min := mn, i_max := mx, i_prev := pv, i_next := nx\<rparr>"
  have "index_lock ind idx = Some ?ind"
    using r cl *(1-4) by (cases "i_min ind = idx"; cases "i_max ind = idx")
      (simp_all add: index_lock_def m(1) assert_that_def Let_def ind1_def [symmetric] c1)
  moreover have "ind_inv ?ind" using sh1 *(5-8) r by (simp add: ind_inv_def cached_ok_def c1)
  ultimately show ?thesis using lk1 c1 by (intro exI [of _ ?ind]) simp
qed

lemma unlock_upd [simp]:
  "free_idx (unlock_min_max ind idx) = free_idx ind" "free_idx (unlock_prev_next ind idx) = free_idx ind"
  "locked (unlock_min_max ind idx) = locked ind" "locked (unlock_prev_next ind idx) = locked ind"
  "ind_shape (unlock_min_max ind idx) = ind_shape ind" "ind_shape (unlock_prev_next ind idx) = ind_shape ind"
  "i_last (unlock_min_max ind idx) = i_last ind" "i_last (unlock_prev_next ind idx) = i_last ind"
  by (simp_all add: unlock_min_max_def unlock_prev_next_def Let_def)

lemma unlock_min_max_sel:
  "i_min (unlock_min_max ind idx) = (if idx < i_min ind then idx else i_min ind)"
  "i_max (unlock_min_max ind idx) = (if i_max ind < idx then idx else i_max ind)"
  "i_prev (unlock_min_max ind idx) = i_prev ind" "i_next (unlock_min_max ind idx) = i_next ind"
  "clamp_min (unlock_min_max ind idx) = clamp_min ind" "clamp_max (unlock_min_max ind idx) = clamp_max ind"
  "i_start (unlock_min_max ind idx) = i_start ind" "i_end (unlock_min_max ind idx) = i_end ind"
  by (simp_all add: unlock_min_max_def Let_def)

lemma unlock_prev_next_sel:
  "i_min (unlock_prev_next ind idx) = i_min ind" "i_max (unlock_prev_next ind idx) = i_max ind"
  "i_prev (unlock_prev_next ind idx) =
     (if (idx > i_prev ind \<and> idx < i_last ind) \<or> (i_prev ind > i_last ind \<and> (idx > i_prev ind \<or> idx < i_last ind))
         \<or> i_prev ind = i_last ind then idx else i_prev ind)"
  "i_next (unlock_prev_next ind idx) =
     (if (idx < i_next ind \<and> idx > i_last ind) \<or> (i_next ind < i_last ind \<and> (idx < i_next ind \<or> idx > i_last ind))
         \<or> i_next ind = i_last ind then idx else i_next ind)"
  "clamp_min (unlock_prev_next ind idx) = clamp_min ind" "clamp_max (unlock_prev_next ind idx) = clamp_max ind"
  "i_start (unlock_prev_next ind idx) = i_start ind" "i_end (unlock_prev_next ind idx) = i_end ind"
  by (simp_all add: unlock_prev_next_def Let_def) auto

lemmas unlock_sel = unlock_min_max_sel unlock_prev_next_sel

lemma index_unlock_ok:
  assumes inv: "ind_inv ind" and i: "locked ind idx"
  shows "\<exists>ind'. index_unlock ind idx = Some ind' \<and> ind_inv ind'
     \<and> (\<forall>j. locked ind' j \<longleftrightarrow> locked ind j \<and> j \<noteq> idx)
     \<and> clamp_min ind' = clamp_min ind \<and> clamp_max ind' = clamp_max ind
     \<and> i_start ind' = i_start ind \<and> i_end ind' = i_end ind"
proof -
  have sh: "ind_shape ind" and ok: "cached_ok ind" using inv by (simp_all add: ind_inv_def)
  have r: "i_start ind \<le> idx" "idx \<le> i_end ind" using i by (simp_all add: locked_def)
  note nn = in_range [OF sh r]
  obtain m where m: "ind_unset_bit ind idx = Some (ind\<lparr>i_mask := m\<rparr>)" "m \<noteq> []"
    "\<And>j. locked (ind\<lparr>i_mask := m\<rparr>) j \<longleftrightarrow> locked ind j \<and> j \<noteq> idx"
    using ind_unset_bit_ok [OF sh r i] by blast
  define ind1 where "ind1 = ind\<lparr>i_mask := m\<rparr>"
  have sh1: "ind_shape ind1" using sh m(2) by (simp add: ind1_def ind_shape_def)
  have lk1: "locked ind1 j \<longleftrightarrow> locked ind j \<and> j \<noteq> idx" for j using m(3) by (simp add: ind1_def)
  have c1: "clamp_min ind1 = clamp_min ind" "clamp_max ind1 = clamp_max ind" "i_min ind1 = i_min ind"
    "i_max ind1 = i_max ind" "i_start ind1 = i_start ind" "i_end ind1 = i_end ind" "i_last ind1 = i_last ind"
    "i_prev ind1 = i_prev ind" "i_next ind1 = i_next ind"
    by (simp_all add: ind1_def)
  have chk: "ind_check ind idx = 0" using r nn by (simp add: ind_check_def)
  let ?cl = "idx \<ge> clamp_min ind \<and> idx \<le> clamp_max ind"
  show ?thesis
  proof (cases ?cl)
    case False
    then have "free_idx ind1 = free_idx ind" by (auto simp: free_idx_def lk1 c1)
    then have "ind_inv ind1" using inv sh1 by (auto simp: ind_inv_def cached_ok_def c1 lk1)
    moreover have "index_unlock ind idx = Some ind1"
      using False chk nn by (auto simp: index_unlock_def m(1) assert_that_def ind1_def [symmetric] c1)
    ultimately show ?thesis using lk1 c1 by (intro exI [of _ ind1]) simp
  next
    case True
    have F1: "free_idx ind1 = insert idx (free_idx ind)" and nf: "idx \<notin> free_idx ind"
      using True i by (auto simp: free_idx_def lk1 c1)
    have last: "i_last ind \<noteq> INDEX_NONE" using inv i True by (auto simp: ind_inv_def)
    have F: "is_least (free_idx ind) INDEX_NONE (i_min ind)" "is_greatest (free_idx ind) INDEX_NONE (i_max ind)"
      "is_least {i \<in> free_idx ind. i_last ind < i} (i_min ind) (i_next ind)"
      "is_greatest {i \<in> free_idx ind. i < i_last ind} (i_max ind) (i_prev ind)"
      using ok by (simp_all add: cached_ok_def)
    define ind2 where "ind2 = (if i_min ind1 = INDEX_NONE
        then ind1\<lparr>i_min := idx, i_max := idx, i_prev := idx, i_next := idx\<rparr>
        else unlock_prev_next (unlock_min_max ind1 idx) idx)"
    have "index_unlock ind idx = Some ind2"
      using True chk nn last by (simp add: index_unlock_def m(1) assert_that_def ind1_def [symmetric] c1 ind2_def)
    moreover have "cached_ok ind2"
    proof (cases "i_min ind = INDEX_NONE")
      case none: True
      then have e: "free_idx ind = {}" using F(1) free_idx_range [OF sh] by (auto simp: is_least_def split: if_splits)
      have "free_idx ind2 = {idx}" using none F1 e by (simp add: ind2_def c1)
      then show ?thesis using none by (simp add: cached_ok_def ind2_def c1 is_least_def is_greatest_def)
    next
      case some: False
      then have ne: "free_idx ind \<noteq> {}" using F(1) by (auto simp: is_least_def)
      have i2: "ind2 = unlock_prev_next (unlock_min_max ind1 idx) idx" using some by (simp add: ind2_def c1)
      show ?thesis unfolding cached_ok_def i2 unlock_sel unlock_upd c1 F1
        by (intro conjI least_insert [OF F(1) ne] greatest_insert [OF F(2) ne]
            next_insert [OF F(1) ne nf F(3)] prev_insert [OF F(2) ne nf F(4)])
    qed
    moreover have s2: "ind_shape ind2" "i_last ind2 = i_last ind" "locked ind2 = locked ind1"
      "clamp_min ind2 = clamp_min ind" "clamp_max ind2 = clamp_max ind" "i_start ind2 = i_start ind" "i_end ind2 = i_end ind"
      using sh1 c1 by (simp_all add: ind2_def unlock_sel)
    ultimately show ?thesis using lk1 last by (intro exI [of _ ind2]) (simp add: ind_inv_def)
  qed
qed

lemma index_lock_outside:
  assumes inv: "ind_inv ind" and r: "i_start ind \<le> idx" "idx \<le> i_end ind" "\<not> locked ind idx"
    and out: "\<not> (clamp_min ind \<le> idx \<and> idx \<le> clamp_max ind)"
  shows "\<exists>ind'. index_lock ind idx = Some ind' \<and> ind_inv ind'
     \<and> (\<forall>j. locked ind' j \<longleftrightarrow> locked ind j \<or> j = idx) \<and> i_start ind' = i_start ind \<and> i_end ind' = i_end ind"
proof -
  have sh: "ind_shape ind" using inv by (simp add: ind_inv_def)
  obtain m where m: "ind_set_bit ind idx = Some (ind\<lparr>i_mask := m\<rparr>)" "m \<noteq> []"
    "\<And>j. locked (ind\<lparr>i_mask := m\<rparr>) j \<longleftrightarrow> locked ind j \<or> j = idx"
    using ind_set_bit_ok [OF sh r] by blast
  let ?ind = "ind\<lparr>i_mask := m\<rparr>"
  have f: "free_idx ?ind = free_idx ind" using out by (auto simp: free_idx_def m(3))
  have "ind_shape ?ind" using sh m(2) by (simp add: ind_shape_def)
  then have "ind_inv ?ind" using inv out f by (auto simp: ind_inv_def cached_ok_def m(3))
  moreover have "index_lock ind idx = Some ?ind"
    using out in_range [OF sh r(1,2)] by (auto simp: index_lock_def m(1) assert_that_def)
  ultimately show ?thesis using m(3) by (intro exI [of _ ?ind]) simp
qed

lemma index_lock_any:
  assumes "ind_inv ind" "i_start ind \<le> idx" "idx \<le> i_end ind" "\<not> locked ind idx"
  shows "\<exists>ind'. index_lock ind idx = Some ind' \<and> ind_inv ind'
     \<and> (\<forall>j. locked ind' j \<longleftrightarrow> locked ind j \<or> j = idx) \<and> i_start ind' = i_start ind \<and> i_end ind' = i_end ind"
proof (cases "idx \<in> free_idx ind")
  case True
  then show ?thesis using index_lock_ok [OF assms(1)] by blast
next
  case False
  then show ?thesis using index_lock_outside [OF assms] assms(4) by (auto simp: free_idx_def)
qed

lemma ind_rand_free:
  "ind_rand_loop ind cap rnd k = Some i \<Longrightarrow> cap \<noteq> 0 \<and> cap = clamp_max ind - clamp_min ind + 1 \<and> ind_shape ind \<longrightarrow>
     i \<in> free_idx ind"
proof (erule ind_rand_loop.raw_induct [rotated])
  fix loop :: "indexator \<Rightarrow> nat \<Rightarrow> (nat \<Rightarrow> nat) \<Rightarrow> nat \<Rightarrow> nat option" and ind cap rnd k i
  assume ih: "\<And>ind cap rnd k i. loop ind cap rnd k = Some i \<Longrightarrow>
      cap \<noteq> 0 \<and> cap = clamp_max ind - clamp_min ind + 1 \<and> ind_shape ind \<longrightarrow> i \<in> free_idx ind"
    and body: "Option.bind (ind_get_bit ind (clamp_min ind + rnd k mod cap)) (\<lambda>l.
       if l \<noteq> 0 then loop ind cap rnd (Suc k) else Some (clamp_min ind + rnd k mod cap)) = Some i"
  show "cap \<noteq> 0 \<and> cap = clamp_max ind - clamp_min ind + 1 \<and> ind_shape ind \<longrightarrow> i \<in> free_idx ind"
  proof (intro impI, elim conjE)
    assume c: "cap \<noteq> 0" "cap = clamp_max ind - clamp_min ind + 1" and sh: "ind_shape ind"
    let ?i = "clamp_min ind + rnd k mod cap"
    have "rnd k mod cap < cap" using c(1) by simp
    then have ir: "?i \<le> clamp_max ind" "i_start ind \<le> ?i" "?i \<le> i_end ind"
      using c(2) sh unfolding ind_shape_def by linarith+
    obtain v where v: "ind_get_bit ind ?i = Some v" "v = 0 \<longleftrightarrow> \<not> locked ind ?i"
      using ind_get_bit_zero [OF sh ir(2,3)] by blast
    show "i \<in> free_idx ind"
    proof (cases "v = 0")
      case True
      then show ?thesis using body v ir by (auto simp: free_idx_def)
    next
      case False
      then have "loop ind cap rnd (Suc k) = Some i" using body v by simp
      from ih [OF this] show ?thesis using c sh by blast
    qed
  qed
qed

lemma index_find_free:
  assumes inv: "ind_inv ind" and f: "index_find ind ty rnd = Some i" "i \<noteq> INDEX_NONE"
  shows "i \<in> free_idx ind"
proof (cases ty)
  case INDEX_RANDOM
  then show ?thesis using f ind_rand_free [of ind _ rnd 0 i] inv
    by (auto simp: index_find_def ind_find_rand_def ind_inv_def split: if_splits)
qed (use inv f in \<open>auto simp: index_find_def ind_inv_def cached_ok_def is_least_def is_greatest_def split: if_splits\<close>)

lemma index_alloc_step:
  assumes inv: "ind_inv ind" and a: "index_alloc ind ty rnd = Some (i, ind')" "i \<noteq> INDEX_NONE"
  shows "i \<in> free_idx ind \<and> ind_inv ind' \<and> (\<forall>j. locked ind' j \<longleftrightarrow> locked ind j \<or> j = i)
     \<and> i_start ind' = i_start ind \<and> i_end ind' = i_end ind"
proof -
  have f: "index_find ind ty rnd = Some i" "index_lock ind i = Some ind'"
    using a by (auto simp: index_alloc_def split: if_splits Option.bind_splits)
  show ?thesis using index_find_free [OF inv f(1) a(2)] index_lock_ok [OF inv, of i] f(2) by auto
qed

lemma index_init_inv:
  assumes "index_init start capacity = Some ind" "capacity \<le> 31" "start + capacity < 2 ^ 64"
  shows "ind_inv ind \<and> (\<forall>j. \<not> locked ind j) \<and> i_start ind = start \<and> i_end ind = start + capacity - 1"
proof -
  have c: "capacity \<noteq> 0" "start + capacity \<noteq> INDEX_NONE"
    and ind: "ind = \<lparr>i_last = INDEX_NONE, i_min = start, i_max = start + capacity - 1, i_prev = start + capacity - 1,
           i_next = start, i_mask = replicate (INDEX_DATA_LEN capacity) 0, i_start = start,
           i_end = start + capacity - 1, clamp_min = start, clamp_max = start + capacity - 1\<rparr>"
    using assms by (auto simp: index_init_def assert_that_def wrap64_small sub64_small Let_def split: if_splits Option.bind_splits)
  have "INDEX_DATA_LEN capacity = 1" using c(1) assms(2) by (simp add: INDEX_DATA_LEN_def)
  then have l: "\<not> locked ind j" for j using assms(2) c(1) by (auto simp: locked_def ind)
  have e: "start + capacity - 1 < INDEX_NONE" using assms(3) c unfolding INDEX_NONE_def by linarith
  have "ind_shape ind" using e c assms(2) \<open>INDEX_DATA_LEN capacity = 1\<close> by (auto simp: ind_shape_def ind)
  moreover have "free_idx ind = {start..start + capacity - 1}" using l by (auto simp: free_idx_def ind)
  then have "cached_ok ind" using c e by (auto simp: cached_ok_def is_least_def is_greatest_def ind)
  ultimately show ?thesis using l by (simp add: ind_inv_def) (simp add: ind)
qed

lemma index_clamp_inv:
  assumes inv: "ind_inv ind" and l: "\<forall>j. \<not> locked ind j" and c: "index_clamp ind mn mx = Some ind'" "mn \<le> mx"
  shows "ind_inv ind' \<and> (\<forall>j. \<not> locked ind' j) \<and> i_start ind' = i_start ind \<and> i_end ind' = i_end ind"
proof -
  have r: "i_start ind \<le> mn" "mx \<le> i_end ind" "i_last ind = INDEX_NONE"
    and ind': "ind' = ind\<lparr>i_min := mn, i_next := mn, clamp_min := mn, i_max := mx, i_prev := mx, clamp_max := mx\<rparr>"
    using c by (auto simp: index_clamp_def assert_that_def Let_def split: if_splits Option.bind_splits)
  have l': "\<not> locked ind' j" for j using l by (simp add: ind' locked_def)
  have sh: "ind_shape ind'" using inv r c(2) by (auto simp: ind_inv_def ind_shape_def ind')
  have "free_idx ind' = {mn..mx}" using l' by (auto simp: free_idx_def ind')
  moreover have "mx < INDEX_NONE" using sh by (auto simp: ind_shape_def ind')
  ultimately have "cached_ok ind'" using c(2) r by (auto simp: cached_ok_def is_least_def is_greatest_def ind')
  with sh l' show ?thesis by (simp add: ind_inv_def) (simp add: ind')
qed

lemma index_reach_inv:
  assumes "index_reach start capacity S ind" "capacity \<le> 31" "start + capacity < 2 ^ 64"
  shows "ind_inv ind \<and> (\<forall>j. locked ind j \<longleftrightarrow> j \<in> S) \<and> i_start ind = start \<and> i_end ind = start + capacity - 1"
  using assms
proof (induction rule: index_reach.induct)
  case (init ind)
  then show ?case using index_init_inv by auto
next
  case (clamp ind mn mx ind')
  then show ?case using index_clamp_inv [of ind mn mx ind'] by auto
next
  case (alloc S ind ty rnd i ind')
  then show ?case using index_alloc_step [of ind ty rnd i ind'] by auto
next
  case (try_lock S ind i ind')
  then have inv: "ind_inv ind" and chk: "ind_check ind i = 0" and lk: "index_lock ind i = Some ind'" "\<not> locked ind i"
    using ind_get_bit_zero [of ind i]
    by (auto simp: index_try_lock_def ind_check_def EINVAL_def ind_inv_def split: if_splits Option.bind_splits)
  then have "i_start ind \<le> i" "i \<le> i_end ind" by (auto simp: ind_check_def EINVAL_def split: if_splits)
  then show ?case using index_lock_any [OF inv _ _ lk(2)] lk(1) try_lock by auto
next
  case (free S ind i ind')
  then show ?case using index_unlock_ok [of ind i] by (auto simp: index_free_def)
qed

lemma index_alloc_total:
  assumes inv: "ind_inv ind" and f: "index_find ind ty rnd = Some i"
  shows "i \<noteq> INDEX_NONE \<Longrightarrow> \<exists>ind'. index_alloc ind ty rnd = Some (i, ind')"
    "i = INDEX_NONE \<Longrightarrow> index_alloc ind ty rnd = Some (INDEX_NONE, ind)"
  using index_lock_ok [OF inv, of i] index_find_free [OF inv f] f by (auto simp: index_alloc_def)

lemma is_least_Min: "is_least S d m \<Longrightarrow> finite S \<Longrightarrow> S \<noteq> {} \<Longrightarrow> m = Min S"
  by (auto simp: is_least_def intro!: Min_eqI [symmetric])

lemma is_greatest_Max: "is_greatest S d m \<Longrightarrow> finite S \<Longrightarrow> S \<noteq> {} \<Longrightarrow> m = Max S"
  by (auto simp: is_greatest_def intro!: Max_eqI [symmetric])

section \<open>Properties\<close>

text \<open>
  C21: after any history, an indexator over at most 31 numbers whose free numbers in the clamped range
  are \<open>F\<close> allocates exactly as it says: the least and the greatest free number, the next free number
  after the last one allocated with wrap-around to the least, and the previous one with wrap-around
  to the greatest; when \<open>F\<close> is empty every kind of allocation returns \<^verbatim>\<open>INDEX_NONE\<close> and changes nothing.
\<close>

theorem index_alloc_spec:
  assumes "index_reach start capacity S ind" "capacity \<le> 31" "start + capacity < 2 ^ 64"
    and F: "F = {clamp_min ind..clamp_max ind} - S"
  shows "(F = {} \<longrightarrow> index_alloc ind ty rnd = Some (INDEX_NONE, ind))
    \<and> (F \<noteq> {} \<longrightarrow> (\<exists>ind'. index_alloc ind INDEX_MIN rnd = Some (Min F, ind'))
        \<and> (\<exists>ind'. index_alloc ind INDEX_MAX rnd = Some (Max F, ind'))
        \<and> (\<exists>ind'. index_alloc ind INDEX_NEXT rnd
             = Some (if {i \<in> F. i_last ind < i} \<noteq> {} then Min {i \<in> F. i_last ind < i} else Min F, ind'))
        \<and> (\<exists>ind'. index_alloc ind INDEX_PREV rnd
             = Some (if {i \<in> F. i < i_last ind} \<noteq> {} then Max {i \<in> F. i < i_last ind} else Max F, ind')))"
proof -
  have inv: "ind_inv ind" and lk: "\<forall>j. locked ind j \<longleftrightarrow> j \<in> S" using index_reach_inv [OF assms(1-3)] by blast+
  have fr: "free_idx ind = F" using lk by (auto simp: free_idx_def F)
  have fin: "finite F" by (simp add: F)
  have c: "is_least F INDEX_NONE (i_min ind)" "is_greatest F INDEX_NONE (i_max ind)"
    "is_least {i \<in> F. i_last ind < i} (i_min ind) (i_next ind)"
    "is_greatest {i \<in> F. i < i_last ind} (i_max ind) (i_prev ind)"
    using inv by (simp_all add: ind_inv_def cached_ok_def fr)
  show ?thesis
  proof (cases "F = {}")
    case True
    then have "index_find ind ty rnd = Some INDEX_NONE"
      using c by (cases ty) (simp_all add: index_find_def ind_find_rand_def is_least_def is_greatest_def)
    then show ?thesis using index_alloc_total(2) [OF inv] True by simp
  next
    case False
    have m: "i_min ind = Min F" "i_max ind = Max F" using is_least_Min is_greatest_Max c fin False by blast+
    have nx: "i_next ind = (if {i \<in> F. i_last ind < i} \<noteq> {} then Min {i \<in> F. i_last ind < i} else Min F)"
      using is_least_Min [OF c(3)] c(3) fin m by (auto simp: is_least_def)
    have pv: "i_prev ind = (if {i \<in> F. i < i_last ind} \<noteq> {} then Max {i \<in> F. i < i_last ind} else Max F)"
      using is_greatest_Max [OF c(4)] c(4) fin m by (auto simp: is_greatest_def)
    have mem: "i_min ind \<in> F" "i_max ind \<in> F" "i_next ind \<in> F" "i_prev ind \<in> F"
      using c False by (auto simp: is_least_def is_greatest_def split: if_splits)
    then have nn: "i_min ind \<noteq> INDEX_NONE" "i_max ind \<noteq> INDEX_NONE" "i_next ind \<noteq> INDEX_NONE" "i_prev ind \<noteq> INDEX_NONE"
      using free_idx_range [of ind] inv fr by (auto simp: ind_inv_def)
    have "index_find ind INDEX_MIN rnd = Some (i_min ind)" "index_find ind INDEX_MAX rnd = Some (i_max ind)"
      "index_find ind INDEX_NEXT rnd = Some (i_next ind)" "index_find ind INDEX_PREV rnd = Some (i_prev ind)"
      by (simp_all add: index_find_def)
    note al = this [THEN index_alloc_total(1) [OF inv]]
    show ?thesis unfolding m(1) [symmetric] m(2) [symmetric] nx [unfolded m(1) [symmetric], symmetric] pv [unfolded m(2) [symmetric], symmetric]
      using False al(1) [OF nn(1)] al(2) [OF nn(2)] al(3) [OF nn(3)] al(4) [OF nn(4)] by blast
  qed
qed

lemma index_demo_reach:
  "\<exists>ind. index_reach 3 4 {3} ind \<and> clamp_min ind = 3 \<and> clamp_max ind = 6 \<and> i_last ind = 3"
proof -
  obtain ind where ind: "index_init 3 4 = Some ind" "clamp_min ind = 3" "clamp_max ind = 6"
    by (simp add: index_init_def assert_that_def wrap64_small sub64_small INDEX_NONE_def Let_def)
  have r: "index_reach 3 4 {} ind" using ind(1) by (rule index_reach.init)
  have inv: "ind_inv ind" "\<forall>j. \<not> locked ind j" "i_start ind = 3"
    using index_reach_inv [OF r] by simp_all
  then have f: "free_idx ind = {3..6}" by (auto simp: free_idx_def ind(2,3))
  have "is_least {3..6} INDEX_NONE (i_min ind)" using inv(1) by (simp add: ind_inv_def cached_ok_def f)
  then have mn: "i_min ind = 3" by (auto simp: is_least_def intro!: le_antisym)
  obtain ind' where l: "index_lock ind 3 = Some ind'" "i_last ind' = 3" "clamp_min ind' = 3" "clamp_max ind' = 6"
    using index_lock_ok [OF inv(1), of 3] f ind(2,3) by auto
  have "index_alloc ind INDEX_MIN id = Some (3, ind')"
    using l(1) mn by (simp add: index_alloc_def index_find_def INDEX_NONE_def)
  then have "index_reach 3 4 (insert 3 {}) ind'"
    by (rule index_reach.alloc [OF r]) (simp add: INDEX_NONE_def)
  then show ?thesis using l by auto
qed

theorem index_alloc_spec_witness:
  "\<exists>ind ind'. index_reach 3 4 {3} ind \<and> index_alloc ind INDEX_NEXT id = Some (4, ind')"
proof -
  obtain ind where ind: "index_reach 3 4 {3} ind" "clamp_min ind = 3" "clamp_max ind = 6" "i_last ind = 3"
    using index_demo_reach by blast
  have F: "{4, 5, 6} = {clamp_min ind..clamp_max ind} - {3}" using ind by auto
  have e: "{i \<in> {4, 5, 6}. i_last ind < i} = {4, 5, 6::nat}" using ind by auto
  from index_alloc_spec [OF ind(1) _ _ F, of INDEX_MIN id] show ?thesis using ind(1) unfolding e by auto
qed

end
