(* ===== verification/Runq_Interface.thy ===== *)
theory Runq_Interface
  imports Main
begin

text \<open>
  The contract every run queue strategy of the scheduler implements: per priority level the schedees
  in the order they came, insertion at the end of the level, and a choice of the first eligible
  schedee of the highest level that has one. What follows for the scheduler is proved here once: the
  choice has maximal priority among the eligible, extraction takes exactly it, and repeated
  extraction empties the queue level by level, first come first served.
\<close>

definition level_order :: "nat \<Rightarrow> (nat \<Rightarrow> 'a list) \<Rightarrow> 'a list" where
  "level_order n lv = concat (map lv (rev [0..<n]))"

lemma level_order_Suc [simp]: "level_order (Suc n) lv = lv n @ level_order n lv"
  by (simp add: level_order_def)

lemma level_order_0 [simp]: "level_order 0 lv = []"
  by (simp add: level_order_def)

lemma set_level_order: "set (level_order n lv) = (\<Union>p<n. set (lv p))"
  by (induction n) (auto simp: lessThan_Suc)

lemma level_order_cong: "(\<And>p. p < n \<Longrightarrow> lv p = lv' p) \<Longrightarrow> level_order n lv = level_order n lv'"
  by (induction n) simp_all

lemma level_order_Nil: "level_order n lv = [] \<longleftrightarrow> (\<forall>p<n. lv p = [])"
  by (induction n) (auto simp: less_Suc_eq)

lemma level_order_remove: "level_order n (\<lambda>p. removeAll s (lv p)) = removeAll s (level_order n lv)"
  by (induction n) simp_all

text \<open>Searching the levels from the top is searching the whole order.\<close>

lemma find_append: "find P (xs @ ys) = (case find P xs of None \<Rightarrow> find P ys | r \<Rightarrow> r)"
  by (induction xs) simp_all

lemma find_level_order_top:
  assumes "find P (level_order n lv) = Some s"
  obtains p where "p < n" "find P (lv p) = Some s" "\<And>q. p < q \<Longrightarrow> q < n \<Longrightarrow> find P (lv q) = None"
  using assms
proof (induction n arbitrary: thesis)
  case (Suc n)
  show ?case
  proof (cases "find P (lv n)")
    case None
    then have f: "find P (level_order n lv) = Some s" using Suc.prems(2) by (simp add: find_append)
    show ?thesis
    proof (rule Suc.IH [OF _ f])
      fix p assume p: "p < n" "find P (lv p) = Some s" "\<And>q. p < q \<Longrightarrow> q < n \<Longrightarrow> find P (lv q) = None"
      show thesis using p None by (intro Suc.prems(1) [of p]) (auto simp: less_Suc_eq)
    qed
  next
    case (Some t)
    then show ?thesis using Suc.prems(2) by (intro Suc.prems(1) [of n]) (simp_all add: find_append)
  qed
qed simp

text \<open>
  A history of a run queue, run through a strategy, and the same history over the bare levels. The
  result is the list of what the extractions gave.
\<close>

datatype 's rq_op = Ins 's | Rem 's | Ext

fun rq_run :: "('s \<Rightarrow> 'q \<Rightarrow> 'q) \<Rightarrow> ('s \<Rightarrow> 'q \<Rightarrow> 'q) \<Rightarrow> ('q \<Rightarrow> 'r \<times> 'q) \<Rightarrow> 's rq_op list \<Rightarrow> 'q \<Rightarrow> 'r list" where
  "rq_run ins rm ext [] q = []"
| "rq_run ins rm ext (Ins s # xs) q = rq_run ins rm ext xs (ins s q)"
| "rq_run ins rm ext (Rem s # xs) q = rq_run ins rm ext xs (rm s q)"
| "rq_run ins rm ext (Ext # xs) q = (case ext q of (r, q') \<Rightarrow> r # rq_run ins rm ext xs q')"

fun lv_run :: "nat \<Rightarrow> ('s \<Rightarrow> nat) \<Rightarrow> ('s \<Rightarrow> bool) \<Rightarrow> 's rq_op list \<Rightarrow> (nat \<Rightarrow> 's list) \<Rightarrow> 's option list" where
  "lv_run n pr el [] lv = []"
| "lv_run n pr el (Ins s # xs) lv = lv_run n pr el xs (lv(pr s := lv (pr s) @ [s]))"
| "lv_run n pr el (Rem s # xs) lv = lv_run n pr el xs (\<lambda>p. removeAll s (lv p))"
| "lv_run n pr el (Ext # xs) lv =
     (case find el (level_order n lv) of
        None \<Rightarrow> None # lv_run n pr el xs lv
      | Some s \<Rightarrow> Some s # lv_run n pr el xs (\<lambda>p. removeAll s (lv p)))"

lemma rq_run_map: "rq_run ins rm (map_prod f id \<circ> ext) xs q = map f (rq_run ins rm ext xs q)"
  by (induction ins rm ext xs q rule: rq_run.induct) (simp_all split: prod.split)

text \<open>Only schedees that are not queued are inserted, only queued ones removed.\<close>

fun lv_valid :: "nat \<Rightarrow> ('s \<Rightarrow> nat) \<Rightarrow> ('s \<Rightarrow> bool) \<Rightarrow> 's rq_op list \<Rightarrow> (nat \<Rightarrow> 's list) \<Rightarrow> bool" where
  "lv_valid n pr el [] lv = True"
| "lv_valid n pr el (Ins s # xs) lv = (pr s < n \<and> s \<notin> set (level_order n lv)
     \<and> lv_valid n pr el xs (lv(pr s := lv (pr s) @ [s])))"
| "lv_valid n pr el (Rem s # xs) lv = (s \<in> set (level_order n lv) \<and> lv_valid n pr el xs (\<lambda>p. removeAll s (lv p)))"
| "lv_valid n pr el (Ext # xs) lv =
     (case find el (level_order n lv) of
        None \<Rightarrow> lv_valid n pr el xs lv
      | Some s \<Rightarrow> lv_valid n pr el xs (\<lambda>p. removeAll s (lv p)))"

locale run_queue =
  fixes insert_q :: "'s \<Rightarrow> 'q \<Rightarrow> 'q"
    and remove_q :: "'s \<Rightarrow> 'q \<Rightarrow> 'q"
    and next_q :: "'q \<Rightarrow> 's option"
    and level :: "'q \<Rightarrow> nat \<Rightarrow> 's list"
    and prio :: "'q \<Rightarrow> 's \<Rightarrow> nat"
    and eligible :: "'q \<Rightarrow> 's \<Rightarrow> bool"
    and invar :: "'q \<Rightarrow> bool"
    and levels :: nat
  assumes insert_q: "invar q \<Longrightarrow> prio q s < levels \<Longrightarrow> s \<notin> set (level_order levels (level q)) \<Longrightarrow>
      invar (insert_q s q) \<and> level (insert_q s q) = (level q)(prio q s := level q (prio q s) @ [s])
      \<and> prio (insert_q s q) = prio q \<and> eligible (insert_q s q) = eligible q"
    and remove_q: "invar q \<Longrightarrow> s \<in> set (level_order levels (level q)) \<Longrightarrow>
      invar (remove_q s q) \<and> level (remove_q s q) = (\<lambda>p. removeAll s (level q p))
      \<and> prio (remove_q s q) = prio q \<and> eligible (remove_q s q) = eligible q"
    and next_q: "invar q \<Longrightarrow> next_q q = find (eligible q) (level_order levels (level q))"
    and distinct_q: "invar q \<Longrightarrow> distinct (level_order levels (level q))"
begin

abbreviation order :: "'q \<Rightarrow> 's list" where
  "order q \<equiv> level_order levels (level q)"

definition extract_q :: "'q \<Rightarrow> 's option \<times> 'q" where
  "extract_q q = (case next_q q of None \<Rightarrow> (None, q) | Some s \<Rightarrow> (Some s, remove_q s q))"

primrec drain :: "nat \<Rightarrow> 'q \<Rightarrow> 's list \<times> 'q" where
  "drain 0 q = ([], q)"
| "drain (Suc n) q =
     (case extract_q q of (None, q') \<Rightarrow> ([], q')
      | (Some s, q') \<Rightarrow> (let (ss, q'') = drain n q' in (s # ss, q'')))"

lemma next_top:
  assumes "invar q" "next_q q = Some s"
  obtains p where "p < levels" "s \<in> set (level q p)" "eligible q s"
    "\<forall>r t. p < r \<longrightarrow> r < levels \<longrightarrow> t \<in> set (level q r) \<longrightarrow> \<not> eligible q t"
proof -
  obtain p where p: "p < levels" "find (eligible q) (level q p) = Some s"
    "\<And>r. p < r \<Longrightarrow> r < levels \<Longrightarrow> find (eligible q) (level q r) = None"
    using find_level_order_top [of "eligible q" levels "level q" s] next_q [OF assms(1)] assms(2) by auto
  have "s \<in> set (level q p)" "eligible q s"
    using p(2) by (auto simp: find_Some_iff in_set_conv_nth)
  moreover have "\<forall>r t. p < r \<longrightarrow> r < levels \<longrightarrow> t \<in> set (level q r) \<longrightarrow> \<not> eligible q t"
    using p(3) by (auto simp: find_None_iff)
  ultimately show thesis using that p(1) by blast
qed

lemma next_None: "invar q \<Longrightarrow> next_q q = None \<longleftrightarrow> (\<forall>s \<in> set (order q). \<not> eligible q s)"
  by (auto simp: next_q find_None_iff)

lemma extract_q_ok:
  assumes "invar q" "next_q q = Some s"
  shows "extract_q q = (Some s, remove_q s q)" "invar (remove_q s q)" "order (remove_q s q) = removeAll s (order q)"
    "eligible (remove_q s q) = eligible q"
proof -
  have "s \<in> set (order q)" using next_q [OF assms(1)] assms(2) by (metis find_Some_iff nth_mem)
  then show "invar (remove_q s q)" "order (remove_q s q) = removeAll s (order q)"
    "eligible (remove_q s q) = eligible q"
    using remove_q [OF assms(1)] by (simp_all add: level_order_remove)
  show "extract_q q = (Some s, remove_q s q)" using assms(2) by (simp add: extract_q_def)
qed

text \<open>What a strategy extracts over a history depends on the levels only.\<close>

lemma rq_run_levels:
  assumes "invar q" "lv_valid levels (prio q) (eligible q) xs (level q)"
  shows "rq_run insert_q remove_q extract_q xs q = lv_run levels (prio q) (eligible q) xs (level q)"
  using assms
proof (induction xs arbitrary: q)
  case (Cons x xs)
  show ?case
  proof (cases x)
    case (Ins s)
    then have v: "prio q s < levels" "s \<notin> set (order q)"
      "lv_valid levels (prio q) (eligible q) xs ((level q)(prio q s := level q (prio q s) @ [s]))"
      using Cons.prems(2) by simp_all
    note i = insert_q [OF Cons.prems(1) v(1,2)]
    then have "rq_run insert_q remove_q extract_q xs (insert_q s q)
        = lv_run levels (prio q) (eligible q) xs ((level q)(prio q s := level q (prio q s) @ [s]))"
      using Cons.IH [of "insert_q s q"] v(3) unfolding i [THEN conjunct2, THEN conjunct1]
      by (metis (no_types, lifting))
    then show ?thesis using Ins by simp
  next
    case (Rem s)
    then show ?thesis using Cons.IH [of "remove_q s q"] Cons.prems remove_q [of q s] by simp
  next
    case Ext
    show ?thesis
    proof (cases "next_q q")
      case None
      then show ?thesis using Ext Cons.IH [of q] Cons.prems next_q [of q] by (simp add: extract_q_def)
    next
      case (Some s)
      then have "s \<in> set (order q)" using next_q [OF Cons.prems(1)] by (metis find_Some_iff nth_mem)
      then show ?thesis using Ext Some Cons.IH [of "remove_q s q"] Cons.prems next_q [of q] remove_q [of q s]
        by (simp add: extract_q_def)
    qed
  qed
qed simp

text \<open>With every schedee eligible, draining the queue gives its order.\<close>

lemma drain_order:
  assumes "invar q" "\<forall>s. eligible q s"
  shows "fst (drain (length (order q)) q) = order q \<and> order (snd (drain (length (order q)) q)) = []"
  using assms
proof (induction "length (order q)" arbitrary: q)
  case 0
  then show ?case by simp
next
  case (Suc n)
  then obtain s ss where o: "order q = s # ss" by (cases "order q") auto
  then have nx: "next_q q = Some s" using next_q [OF Suc.prems(1)] Suc.prems(2) by simp
  note e = extract_q_ok [OF Suc.prems(1) nx]
  have ss: "order (remove_q s q) = ss" using e(3) o distinct_q [OF Suc.prems(1)] by simp
  have len: "n = length (order (remove_q s q))" using ss o Suc.hyps(2) by simp
  have "fst (drain n (remove_q s q)) = ss \<and> order (snd (drain n (remove_q s q))) = []"
    using Suc.hyps(1) [OF len e(2)] e(4) Suc.prems(2) len ss by simp
  then show ?case using o e(1) len ss by (simp add: split_beta)
qed

end

end
