(* ===== verification/Runq.thy ===== *)
theory Runq
  imports Bitmap Runq_Interface
begin

text \<open>
  The run queue strategies of \<^verbatim>\<open>kernel/sched/strategy/runq\<close>. The intrusive lists are the sequences
  that \<^verbatim>\<open>Dlist_Ptr\<close> shows them to be. A schedee is its address; what the strategies read and write of
  it, the current priority, the level it was put into and the affinity mask, is a record per schedee.
\<close>

type_synonym sid = nat

record schedee_attr =
  priority :: nat      \<comment> \<open>what \<^verbatim>\<open>schedee_priority_get\<close> returns\<close>
  runq_prio :: nat
  affinity :: u32

type_synonym attrs = "sid \<Rightarrow> schedee_attr"

definition SCHED_PRIORITY_MIN :: nat where
  "SCHED_PRIORITY_MIN = 0"

definition SCHED_PRIORITY_MAX :: nat where
  "SCHED_PRIORITY_MAX = 255"

definition SCHED_PRIORITY_TOTAL :: nat where
  "SCHED_PRIORITY_TOTAL = SCHED_PRIORITY_MAX - SCHED_PRIORITY_MIN + 1"

definition RUNQ_MAP_WORDS :: nat where
  "RUNQ_MAP_WORDS = (SCHED_PRIORITY_TOTAL + 63) div 64"

definition sched_affinity_check :: "u32 \<Rightarrow> u32 \<Rightarrow> bool" where
  "sched_affinity_check a m \<longleftrightarrow> a AND m \<noteq> 0"

section \<open>Levels with a map of the occupied ones (\<^verbatim>\<open>list_array.c\<close>)\<close>

record runq_array =
  ra_list :: "sid list list"
  occupied :: "u64 list"
  prio_moved :: nat
  map_stale :: nat

definition runq_init :: runq_array where
  "runq_init = \<lparr>ra_list = replicate SCHED_PRIORITY_TOTAL [], occupied = replicate RUNQ_MAP_WORDS 0,
     prio_moved = 0, map_stale = 0\<rparr>"

text \<open>The search; \<^const>\<open>None\<close> is the result \<open>-1\<close>.\<close>

fun occupied_loop :: "u64 list \<Rightarrow> nat \<Rightarrow> u64 \<Rightarrow> nat option" where
  "occupied_loop occ w word =
     (if word \<noteq> 0 then Some (64 * w + 63 - bit_clz word)
      else if w = 0 then None
      else occupied_loop occ (w - 1) (occ ! (w - 1)))"

declare occupied_loop.simps [simp del]

definition runq_occupied_below :: "runq_array \<Rightarrow> int \<Rightarrow> nat option" where
  "runq_occupied_below queue prio =
     (if prio < int SCHED_PRIORITY_MIN then None
      else let p = (if prio > int SCHED_PRIORITY_MAX then SCHED_PRIORITY_MAX else nat prio);
               w = p div 64;
               word = occupied queue ! w;
               word = (if p mod 64 \<noteq> 63 then word AND (push_bit (p mod 64 + 1) 1 - 1) else word)
           in occupied_loop (occupied queue) w word)"

definition runq_insert :: "sid \<Rightarrow> runq_array \<times> attrs \<Rightarrow> runq_array \<times> attrs" where
  "runq_insert s = (\<lambda>(queue, at).
     let prio = priority (at s);
         at = at(s := (at s)\<lparr>runq_prio := prio\<rparr>);
         ls = (ra_list queue)[prio := ra_list queue ! prio @ [s]];
         occ = (occupied queue)[prio div 64 := (occupied queue ! (prio div 64)) OR push_bit (prio mod 64) 1]
     in (queue\<lparr>ra_list := ls, occupied := occ\<rparr>, at))"

definition runq_remove :: "sid \<Rightarrow> runq_array \<times> attrs \<Rightarrow> runq_array \<times> attrs" where
  "runq_remove s = (\<lambda>(queue, at).
     let prio = runq_prio (at s);
         queue = (if prio \<noteq> priority (at s) then queue\<lparr>prio_moved := prio_moved queue + 1\<rparr> else queue);
         ls = map (removeAll s) (ra_list queue);
         occ = (if ls ! prio = []
                then (occupied queue)[prio div 64 := (occupied queue ! (prio div 64)) AND NOT (push_bit (prio mod 64) 1)]
                else occupied queue)
     in (queue\<lparr>ra_list := ls, occupied := occ\<rparr>, at))"

lemma clzl_from_least:
  "n \<le> 64 \<Longrightarrow> \<exists>i<n. bit x i \<Longrightarrow> clzl_from x n \<le> 63 \<and> bit x (63 - clzl_from x n) \<and> 63 - clzl_from x n < n
     \<and> (\<forall>i<n. 63 - clzl_from x n < i \<longrightarrow> \<not> bit x i)"
proof (induction x n rule: clzl_from.induct)
  case (2 x n)
  show ?case
  proof (cases "bit x n")
    case True
    then show ?thesis using 2(2) by simp
  next
    case False
    then have "\<exists>i<n. bit x i" using 2(3) by (auto simp: less_Suc_eq)
    then show ?thesis using 2 False by (auto simp: less_Suc_eq)
  qed
qed simp

text \<open>The position that the search computes from a word is that of its highest bit.\<close>

lemma bit_clz_spec:
  assumes "word \<noteq> 0"
  shows "bit_clz word \<le> 63" "bit word (63 - bit_clz word)" "\<And>i. 63 - bit_clz word < i \<Longrightarrow> \<not> bit word i"
proof -
  obtain i where "bit word i" using assms by (metis bit_eq_iff bit_0_eq bot_apply bot_bool_def)
  then have ex: "\<exists>i<64. bit word i" using bit_imp_le_length [of word i] by auto
  note l = clzl_from_least [OF _ ex]
  show "bit_clz word \<le> 63" "bit word (63 - bit_clz word)" using l assms by (simp_all add: bit_clz_def)
  fix i assume "63 - bit_clz word < i"
  then show "\<not> bit word i" using l assms bit_imp_le_length [of word i] by (cases "i < 64") (auto simp: bit_clz_def)
qed

lemma occupied_loop_cases:
  obtains (none) "occupied_loop occ w word = None" "word = 0" "\<forall>i<w. occ ! i = 0"
  | (here) "word \<noteq> 0" "occupied_loop occ w word = Some (64 * w + (63 - bit_clz word))"
  | (below) v where "word = 0" "v < w" "occ ! v \<noteq> 0" "\<forall>i. v < i \<longrightarrow> i < w \<longrightarrow> occ ! i = 0"
      "occupied_loop occ w word = Some (64 * v + (63 - bit_clz (occ ! v)))"
proof (induction occ w word arbitrary: thesis rule: occupied_loop.induct)
  case (1 occ w word)
  show thesis
  proof (cases "word = 0")
    case nz: False
    then show thesis using bit_clz_spec(1) [of word] 1(3) by (simp add: occupied_loop.simps [of occ w word])
  next
    case z: True
    show thesis
    proof (cases "w = 0")
      case True
      then show thesis using z 1(2) by (simp add: occupied_loop.simps [of occ 0 0])
    next
      case False
      then have eq: "occupied_loop occ w word = occupied_loop occ (w - 1) (occ ! (w - 1))"
        using z by (subst occupied_loop.simps) simp
      have lt: "i < w \<longleftrightarrow> i < w - 1 \<or> i = w - 1" for i using False by auto
      show thesis
      proof (rule 1(1) [of thesis])
        show "\<not> word \<noteq> 0" "w \<noteq> 0" using z False by simp_all
        assume n: "occupied_loop occ (w - 1) (occ ! (w - 1)) = None" "occ ! (w - 1) = 0" "\<forall>i<w - 1. occ ! i = 0"
        then show thesis using eq z lt by (intro 1(2)) auto
      next
        assume "occ ! (w - 1) \<noteq> 0"
          "occupied_loop occ (w - 1) (occ ! (w - 1)) = Some (64 * (w - 1) + (63 - bit_clz (occ ! (w - 1))))"
        then show thesis using eq z False by (intro 1(4) [of "w - 1"]) auto
      next
        fix v assume "occ ! (w - 1) = 0" "v < w - 1" "occ ! v \<noteq> 0" "\<forall>i. v < i \<longrightarrow> i < w - 1 \<longrightarrow> occ ! i = 0"
          "occupied_loop occ (w - 1) (occ ! (w - 1)) = Some (64 * v + (63 - bit_clz (occ ! v)))"
        then show thesis using eq z lt by (intro 1(4) [of v]) auto
      qed
    qed
  qed
qed

lemma find_rev_Some:
  "p < n \<Longrightarrow> P p \<Longrightarrow> (\<And>q. p < q \<Longrightarrow> q < n \<Longrightarrow> \<not> P q) \<Longrightarrow> find P (rev [0..<n]) = Some p"
proof (induction n)
  case (Suc n)
  show ?case
  proof (cases "p = n")
    case False
    then have "p < n" using Suc.prems(1) by simp
    moreover have "\<not> P n" using Suc.prems(3) [of n] calculation by simp
    ultimately show ?thesis using Suc.IH Suc.prems(2,3) by simp
  qed (use Suc.prems in simp)
qed simp

lemma find_rev_None: "(\<And>q. q < n \<Longrightarrow> \<not> P q) \<Longrightarrow> find P (rev [0..<n]) = None"
  by (simp add: find_None_iff)

lemma masked_word_bit:
  "bit (word AND (push_bit (k + 1) 1 - 1) :: u64) i \<longleftrightarrow> bit word i \<and> i \<le> k" if "k < 63"
proof -
  have "push_bit (k + 1) 1 - 1 = (mask (k + 1) :: u64)" by (simp add: mask_eq_exp_minus_1 push_bit_of_1)
  then show ?thesis using that by (auto simp: bit_simps bit_mask_iff)
qed

text \<open>The word-wise search is a scan of the levels from the top.\<close>

lemma runq_occupied_below_ref:
  assumes "n \<le> 255"
  shows "runq_occupied_below q (int n) = find (bm_bit (occupied q)) (rev [0..<Suc n])"
proof -
  let ?occ = "occupied q" and ?w = "n div 64"
  define word where "word = (if n mod 64 \<noteq> 63 then (?occ ! ?w) AND (push_bit (n mod 64 + 1) 1 - 1) else ?occ ! ?w)"
  have eq: "runq_occupied_below q (int n) = occupied_loop ?occ ?w word"
    using assms by (simp add: runq_occupied_below_def SCHED_PRIORITY_MIN_def SCHED_PRIORITY_MAX_def word_def Let_def)
  have wb: "bit word i \<longleftrightarrow> bit (?occ ! ?w) i \<and> i \<le> n mod 64" if "i < 64" for i
    using that masked_word_bit [of "n mod 64" "?occ ! ?w" i] by (auto simp: word_def)
  have hi: "\<not> bm_bit ?occ r" if "word = 0" "r \<le> n" "r div 64 = ?w" for r
  proof -
    have "r mod 64 \<le> n mod 64" using that(2,3) by (metis add_le_cancel_left mult_div_mod_eq)
    then show ?thesis using wb [of "r mod 64"] that(1,3) by (simp add: bm_bit_def)
  qed
  show ?thesis unfolding eq
  proof (cases rule: occupied_loop_cases [of ?occ ?w word])
    case none
    have "\<not> bm_bit ?occ r" if "r < Suc n" for r
    proof (cases "r div 64 = ?w")
      case False
      then have "r div 64 < ?w" using that by (simp add: div_le_mono le_neq_implies_less)
      then show ?thesis using none(3) by (simp add: bm_bit_def)
    qed (use hi none(2) that in auto)
    then show "occupied_loop ?occ ?w word = find (bm_bit ?occ) (rev [0..<Suc n])"
      unfolding none(1) by (intro find_rev_None [symmetric])
  next
    case here
    let ?k = "63 - bit_clz word"
    note k = bit_clz_spec [OF here(1)]
    have kb: "bit (?occ ! ?w) ?k" "?k \<le> n mod 64" using wb [of ?k] k(2) by auto
    have le: "64 * ?w + ?k \<le> n" using kb(2) mult_div_mod_eq [of 64 n] by linarith
    have "find (bm_bit ?occ) (rev [0..<Suc n]) = Some (64 * ?w + ?k)"
    proof (rule find_rev_Some)
      show "64 * ?w + ?k < Suc n" using le by simp
      show "bm_bit ?occ (64 * ?w + ?k)" using kb(1) by (simp add: bm_bit_def)
      fix r assume r: "64 * ?w + ?k < r" "r < Suc n"
      then have d: "r div 64 = ?w" by (metis add_leD1 div_le_mono div_mult_self1_is_m le_antisym less_Suc_eq_le less_imp_le zero_less_numeral)
      then have "?k < r mod 64" "r mod 64 \<le> n mod 64"
        using r mult_div_mod_eq [of 64 r] mult_div_mod_eq [of 64 n] by linarith+
      then show "\<not> bm_bit ?occ r" using k(3) [of "r mod 64"] wb [of "r mod 64"] d by (simp add: bm_bit_def)
    qed
    then show "occupied_loop ?occ ?w word = find (bm_bit ?occ) (rev [0..<Suc n])" using here(2) by simp
  next
    case (below v)
    let ?k = "63 - bit_clz (?occ ! v)"
    note k = bit_clz_spec [OF below(3)]
    have "64 * Suc v \<le> 64 * ?w" using below(2) by (intro mult_le_mono2) simp
    then have le: "64 * v + ?k < n" using mult_div_mod_eq [of 64 n] k(1) unfolding mult_Suc_right by linarith
    have "find (bm_bit ?occ) (rev [0..<Suc n]) = Some (64 * v + ?k)"
    proof (rule find_rev_Some)
      show "64 * v + ?k < Suc n" using le by simp
      show "bm_bit ?occ (64 * v + ?k)" using k(2) by (simp add: bm_bit_def)
      fix r assume r: "64 * v + ?k < r" "r < Suc n"
      have "v \<le> r div 64" "r div 64 \<le> ?w" using r by (simp_all add: less_eq_div_iff_mult_less_eq div_le_mono)
      then consider "r div 64 = v" | "v < r div 64" "r div 64 < ?w" | "r div 64 = ?w" by linarith
      then show "\<not> bm_bit ?occ r"
      proof cases
        case 1
        then have "?k < r mod 64" using r(1) mult_div_mod_eq [of 64 r] by linarith
        then show ?thesis using k(3) [of "r mod 64"] 1 by (simp add: bm_bit_def)
      next
        case 2
        then show ?thesis using below(4) by (simp add: bm_bit_def)
      next
        case 3
        then show ?thesis using hi [OF below(1)] r(2) by simp
      qed
    qed
    then show "occupied_loop ?occ ?w word = find (bm_bit ?occ) (rev [0..<Suc n])" using below(5) by simp
  qed
qed

lemma runq_occupied_below_clip:
  "255 < n \<Longrightarrow> runq_occupied_below q (int n) = runq_occupied_below q 255"
  by (simp add: runq_occupied_below_def SCHED_PRIORITY_MIN_def SCHED_PRIORITY_MAX_def)

lemma runq_occupied_below_less: "runq_occupied_below q (int i - 1) = Some j \<Longrightarrow> j < i"
proof (cases i)
  case 0
  then show "runq_occupied_below q (int i - 1) = Some j \<Longrightarrow> j < i"
    by (simp add: runq_occupied_below_def SCHED_PRIORITY_MIN_def)
next
  case (Suc n)
  have *: "j < Suc m" if "runq_occupied_below q (int m) = Some j" "m \<le> 255" for m
  proof -
    have "find (bm_bit (occupied q)) (rev [0..<Suc m]) = Some j"
      using that runq_occupied_below_ref [of m q] by simp
    then have "j \<in> set (rev [0..<Suc m])" by (metis find_Some_iff nth_mem)
    then show ?thesis by auto
  qed
  show "runq_occupied_below q (int i - 1) = Some j \<Longrightarrow> j < i"
    using * [of n] * [of 255] runq_occupied_below_clip [of n q] Suc by (cases "n \<le> 255") auto
qed

text \<open>The choice: occupied levels downwards, in each the first schedee the processor may run.\<close>

function get_next_loop :: "runq_array \<Rightarrow> attrs \<Rightarrow> u32 \<Rightarrow> nat \<Rightarrow> sid option" where
  "get_next_loop queue at m i =
     (case find (\<lambda>s. sched_affinity_check (affinity (at s)) m) (ra_list queue ! i) of
        Some s \<Rightarrow> Some s
      | None \<Rightarrow>
          (case runq_occupied_below queue (int i - 1) of
             None \<Rightarrow> None
           | Some j \<Rightarrow> get_next_loop queue at m j))"
  by pat_completeness auto
termination
  by (relation "measure (\<lambda>(_, _, _, i). i)") (auto simp: runq_occupied_below_less)

declare get_next_loop.simps [simp del]

definition runq_get_next :: "u32 \<Rightarrow> runq_array \<times> attrs \<Rightarrow> sid option" where
  "runq_get_next m = (\<lambda>(queue, at).
     case runq_occupied_below queue (int SCHED_PRIORITY_MAX) of
       None \<Rightarrow> None
     | Some i \<Rightarrow> get_next_loop queue at m i)"

definition runq_extract :: "u32 \<Rightarrow> runq_array \<times> attrs \<Rightarrow> sid option \<times> (runq_array \<times> attrs)" where
  "runq_extract m q =
     (case runq_get_next m q of
        None \<Rightarrow> (None, q)
      | Some s \<Rightarrow> (Some s, runq_remove s q))"

definition runq_get_next_ignore_affinity :: "runq_array \<times> attrs \<Rightarrow> sid option \<times> (runq_array \<times> attrs)" where
  "runq_get_next_ignore_affinity = (\<lambda>(queue, at).
     case runq_occupied_below queue (int SCHED_PRIORITY_MAX) of
       None \<Rightarrow> (None, (queue, at))
     | Some i \<Rightarrow>
         (if ra_list queue ! i = [] then (None, (queue\<lparr>map_stale := map_stale queue + 1\<rparr>, at))
          else (Some (hd (ra_list queue ! i)), (queue, at))))"

section \<open>Levels without a map (\<^verbatim>\<open>dlist_prio.c\<close>)\<close>

type_synonym runq_levels = "sid list list"

definition dp_init :: runq_levels where
  "dp_init = replicate SCHED_PRIORITY_TOTAL []"

definition dp_insert :: "sid \<Rightarrow> runq_levels \<times> attrs \<Rightarrow> runq_levels \<times> attrs" where
  "dp_insert s = (\<lambda>(ls, at).
     let prio = priority (at s)
     in if prio < SCHED_PRIORITY_MIN \<or> prio > SCHED_PRIORITY_MAX then (ls, at)
        else (ls[prio := ls ! prio @ [s]], at))"

definition dp_remove :: "sid \<Rightarrow> runq_levels \<times> attrs \<Rightarrow> runq_levels \<times> attrs" where
  "dp_remove s = (\<lambda>(ls, at).
     let prio = priority (at s)
     in if prio < SCHED_PRIORITY_MIN \<or> prio > SCHED_PRIORITY_MAX then (ls, at)
        else (map (removeAll s) ls, at))"

fun dp_scan :: "runq_levels \<Rightarrow> nat \<Rightarrow> sid option" where
  "dp_scan ls 0 = None"
| "dp_scan ls (Suc i) = (if ls ! i \<noteq> [] then Some (hd (ls ! i)) else dp_scan ls i)"

definition dp_get_next :: "runq_levels \<times> attrs \<Rightarrow> sid option" where
  "dp_get_next = (\<lambda>(ls, at). dp_scan ls (SCHED_PRIORITY_MAX + 1))"

definition dp_extract :: "runq_levels \<times> attrs \<Rightarrow> sid option \<times> (runq_levels \<times> attrs)" where
  "dp_extract q = (case dp_get_next q of None \<Rightarrow> (None, q) | Some s \<Rightarrow> (Some s, dp_remove s q))"

section \<open>One unsorted list (\<^verbatim>\<open>list.c\<close>)\<close>

definition rl_insert :: "sid \<Rightarrow> sid list \<times> attrs \<Rightarrow> sid list \<times> attrs" where
  "rl_insert s = (\<lambda>(q, at). (q @ [s], at))"

definition rl_remove :: "sid \<Rightarrow> sid list \<times> attrs \<Rightarrow> sid list \<times> attrs" where
  "rl_remove s = (\<lambda>(q, at). (removeAll s q, at))"

text \<open>
  \<^verbatim>\<open>runq_get_next\<close> starts with the item after the head. On an empty list that is the head itself, which
  the cast makes a schedee that does not exist; the loop reads nothing, and unlinking the head from the
  empty list changes nothing.
\<close>

datatype rl_item = Queue_head | Schedee sid

definition rl_get_next :: "sid list \<times> attrs \<Rightarrow> rl_item" where
  "rl_get_next = (\<lambda>(q, at).
     case q of
       [] \<Rightarrow> Queue_head
     | x # _ \<Rightarrow> Schedee (fold (\<lambda>s schedee. if priority (at s) > priority (at schedee) then s else schedee) q x))"

definition rl_extract :: "sid list \<times> attrs \<Rightarrow> rl_item \<times> (sid list \<times> attrs)" where
  "rl_extract q = (case rl_get_next q of Queue_head \<Rightarrow> (Queue_head, q) | Schedee s \<Rightarrow> (Schedee s, rl_remove s q))"

text \<open>The result as the other strategies give it, and back.\<close>

fun rl_schedee :: "rl_item \<Rightarrow> sid option" where
  "rl_schedee Queue_head = None"
| "rl_schedee (Schedee s) = Some s"

fun rl_of :: "sid option \<Rightarrow> rl_item" where
  "rl_of None = Queue_head"
| "rl_of (Some s) = Schedee s"

section \<open>Invariants\<close>

definition ra_level :: "runq_array \<times> attrs \<Rightarrow> nat \<Rightarrow> sid list" where
  "ra_level = (\<lambda>(queue, at) p. if p < 256 then ra_list queue ! p else [])"

definition ra_inv :: "runq_array \<times> attrs \<Rightarrow> bool" where
  "ra_inv = (\<lambda>(queue, at). length (ra_list queue) = 256 \<and> length (occupied queue) = 4
     \<and> (\<forall>p<256. bm_bit (occupied queue) p \<longleftrightarrow> ra_list queue ! p \<noteq> [])
     \<and> (\<forall>p<256. \<forall>s \<in> set (ra_list queue ! p). runq_prio (at s) = p)
     \<and> distinct (level_order 256 (ra_level (queue, at))))"

definition dp_level :: "runq_levels \<times> attrs \<Rightarrow> nat \<Rightarrow> sid list" where
  "dp_level = (\<lambda>(ls, at) p. if p < 256 then ls ! p else [])"

definition dp_inv :: "runq_levels \<times> attrs \<Rightarrow> bool" where
  "dp_inv = (\<lambda>(ls, at). length ls = 256 \<and> (\<forall>s \<in> set (concat ls). priority (at s) < 256)
     \<and> distinct (level_order 256 (dp_level (ls, at))))"

definition rl_level :: "sid list \<times> attrs \<Rightarrow> nat \<Rightarrow> sid list" where
  "rl_level = (\<lambda>(q, at) p. if p < 256 then filter (\<lambda>s. priority (at s) = p) q else [])"

definition rl_inv :: "sid list \<times> attrs \<Rightarrow> bool" where
  "rl_inv = (\<lambda>(q, at). distinct q \<and> (\<forall>s \<in> set q. priority (at s) < 256))"

definition attr_prio :: "'q \<times> attrs \<Rightarrow> sid \<Rightarrow> nat" where
  "attr_prio q s = priority (snd q s)"

definition attr_eligible :: "u32 \<Rightarrow> 'q \<times> attrs \<Rightarrow> sid \<Rightarrow> bool" where
  "attr_eligible m q s \<longleftrightarrow> sched_affinity_check (affinity (snd q s)) m"

lemmas runq_consts = SCHED_PRIORITY_MIN_def SCHED_PRIORITY_MAX_def SCHED_PRIORITY_TOTAL_def RUNQ_MAP_WORDS_def

lemma distinct_level_order_insert:
  assumes "distinct (level_order n lv)" "s \<notin> set (level_order n lv)" "p < n"
  shows "distinct (level_order n (lv(p := lv p @ [s])))"
  using assms
proof (induction n)
  case (Suc n)
  have d: "distinct (lv n)" "distinct (level_order n lv)" "set (lv n) \<inter> set (level_order n lv) = {}"
    "s \<notin> set (lv n)" "s \<notin> set (level_order n lv)"
    using Suc.prems(1,2) by auto
  show ?case
  proof (cases "p = n")
    case True
    have eq: "level_order n (lv(p := lv p @ [s])) = level_order n lv" using True by (intro level_order_cong) simp
    have eqn: "(lv(p := lv p @ [s])) n = lv n @ [s]" using True by simp
    show ?thesis unfolding level_order_Suc eq eqn using d by auto
  next
    case False
    then have p: "p < n" using Suc.prems(3) by simp
    define lv' where "lv' = lv(p := lv p @ [s])"
    have st: "set (level_order n lv') = insert s (set (level_order n lv))"
      using p by (auto simp: lv'_def set_level_order split: if_splits)
    have eqn: "lv' n = lv n" using False by (simp add: lv'_def)
    have "distinct (level_order n lv')" using Suc.IH [OF d(2,5) p] by (simp only: lv'_def)
    then show ?thesis unfolding lv'_def [symmetric] level_order_Suc distinct_append st eqn using d by auto
  qed
qed simp

lemma level_orderD: "s \<in> set (level_order n lv) \<Longrightarrow> \<exists>p<n. s \<in> set (lv p)"
  by (auto simp: set_level_order)

lemma level_order_unique:
  "distinct (level_order n lv) \<Longrightarrow> p < n \<Longrightarrow> q < n \<Longrightarrow> s \<in> set (lv p) \<Longrightarrow> s \<in> set (lv q) \<Longrightarrow> p = q"
proof (induction n)
  case (Suc n)
  then have "set (lv n) \<inter> set (level_order n lv) = {}" by simp
  with Suc show ?case by (auto simp: less_Suc_eq set_level_order)
qed simp

section \<open>The strategies meet the contract\<close>

lemma ra_level_insert:
  assumes "length (ra_list queue) = 256" "priority (at s) < 256"
  shows "ra_level (runq_insert s (queue, at)) = (ra_level (queue, at))(priority (at s) := ra_level (queue, at) (priority (at s)) @ [s])"
  using assms by (auto simp: runq_insert_def ra_level_def Let_def fun_eq_iff nth_list_update)

lemma ra_insert_ok:
  assumes inv: "ra_inv q" and p: "attr_prio q s < 256" and s: "s \<notin> set (level_order 256 (ra_level q))"
  shows "ra_inv (runq_insert s q) \<and> ra_level (runq_insert s q) = (ra_level q)(attr_prio q s := ra_level q (attr_prio q s) @ [s])
      \<and> attr_prio (runq_insert s q) = attr_prio q \<and> attr_eligible m (runq_insert s q) = attr_eligible m q"
proof -
  obtain queue at where q: "q = (queue, at)" by (cases q)
  define pr where "pr = priority (at s)"
  have pr: "pr < 256" using p by (simp add: q pr_def attr_prio_def)
  have l: "length (ra_list queue) = 256" "length (occupied queue) = 4"
    and b: "\<forall>p<256. bm_bit (occupied queue) p \<longleftrightarrow> ra_list queue ! p \<noteq> []"
    and r: "\<forall>p<256. \<forall>s \<in> set (ra_list queue ! p). runq_prio (at s) = p"
    and d: "distinct (level_order 256 (ra_level q))"
    using inv by (simp_all add: ra_inv_def q)
  have lev: "ra_level (runq_insert s q) = (ra_level q)(pr := ra_level q pr @ [s])"
    using ra_level_insert [OF l(1)] pr by (simp add: q pr_def)
  have ins: "runq_insert s q = (queue\<lparr>ra_list := (ra_list queue)[pr := ra_list queue ! pr @ [s]],
      occupied := bitmap_set_bit (occupied queue) pr\<rparr>, at(s := (at s)\<lparr>runq_prio := pr\<rparr>))"
    by (simp add: q runq_insert_def Let_def pr_def bitmap_set_bit_def BITMAP_OFFSET_def BITMAP_MASK_def BITMAP_SHIFT_def)
  have "distinct (level_order 256 (ra_level (runq_insert s q)))"
    unfolding lev using d s pr by (rule distinct_level_order_insert)
  moreover have nin: "\<forall>p<256. s \<notin> set (ra_list queue ! p)" using s by (auto simp: set_level_order q ra_level_def)
  moreover have "\<forall>p<256. bm_bit (bitmap_set_bit (occupied queue) pr) p \<longleftrightarrow> (ra_list queue)[pr := ra_list queue ! pr @ [s]] ! p \<noteq> []"
    using b l pr by (auto simp: bm_bit_set nth_list_update)
  moreover have "\<forall>p<256. \<forall>t \<in> set ((ra_list queue)[pr := ra_list queue ! pr @ [s]] ! p). runq_prio ((at(s := (at s)\<lparr>runq_prio := pr\<rparr>)) t) = p"
    using r nin l pr by (auto simp: nth_list_update)
  ultimately have "ra_inv (runq_insert s q)" using l unfolding ins by (simp add: ra_inv_def)
  moreover have "attr_prio (runq_insert s q) = attr_prio q" "attr_eligible m (runq_insert s q) = attr_eligible m q"
    unfolding ins by (auto simp: attr_prio_def attr_eligible_def fun_eq_iff q)
  moreover have "pr = attr_prio q s" by (simp add: attr_prio_def q pr_def)
  ultimately show ?thesis using lev by simp
qed

lemma level_order_distinct_remove:
  "distinct (level_order n lv) \<Longrightarrow> distinct (level_order n (\<lambda>p. removeAll s (lv p)))"
  by (simp add: level_order_remove distinct_removeAll)

lemma ra_remove_ok:
  assumes inv: "ra_inv q" and s: "s \<in> set (level_order 256 (ra_level q))"
  shows "ra_inv (runq_remove s q) \<and> ra_level (runq_remove s q) = (\<lambda>p. removeAll s (ra_level q p))
      \<and> attr_prio (runq_remove s q) = attr_prio q \<and> attr_eligible m (runq_remove s q) = attr_eligible m q"
proof -
  obtain queue at where q: "q = (queue, at)" by (cases q)
  define pr where "pr = runq_prio (at s)"
  have l: "length (ra_list queue) = 256" "length (occupied queue) = 4"
    and b: "\<forall>p<256. bm_bit (occupied queue) p \<longleftrightarrow> ra_list queue ! p \<noteq> []"
    and r: "\<forall>p<256. \<forall>s \<in> set (ra_list queue ! p). runq_prio (at s) = p"
    and d: "distinct (level_order 256 (ra_level q))"
    using inv by (simp_all add: ra_inv_def q)
  obtain p0 where p0: "p0 < 256" "s \<in> set (ra_level q p0)" using level_orderD [OF s] by auto
  then have pr: "pr < 256" "s \<in> set (ra_list queue ! pr)" using r by (auto simp: pr_def q ra_level_def)
  have other: "s \<notin> set (ra_list queue ! p)" if "p < 256" "p \<noteq> pr" for p
    using level_order_unique [OF d that(1) pr(1), of s] pr that by (auto simp: q ra_level_def)
  define ls where "ls = map (removeAll s) (ra_list queue)"
  define occ where "occ = (if ls ! pr = [] then bitmap_clear_bit (occupied queue) pr else occupied queue)"
  define k where "k = (if pr \<noteq> priority (at s) then prio_moved queue + 1 else prio_moved queue)"
  have rem: "runq_remove s q = (queue\<lparr>prio_moved := k, ra_list := ls, occupied := occ\<rparr>, at)"
    by (simp add: q runq_remove_def Let_def pr_def ls_def occ_def k_def bitmap_clear_bit_def BITMAP_OFFSET_def
        BITMAP_MASK_def BITMAP_SHIFT_def)
  have lsn: "ls ! p = removeAll s (ra_list queue ! p)" if "p < 256" for p using that l by (simp add: ls_def)
  have lev: "ra_level (runq_remove s q) = (\<lambda>p. removeAll s (ra_level q p))"
    unfolding rem by (auto simp: ra_level_def q fun_eq_iff lsn)
  have same: "removeAll s (ra_list queue ! p) = ra_list queue ! p" if "p < 256" "p \<noteq> pr" for p
    using other [OF that] by simp
  have "bm_bit occ p \<longleftrightarrow> ls ! p \<noteq> []" if "p < 256" for p
    using b l pr same [OF that] lsn [OF that] that by (cases "p = pr") (auto simp: occ_def bm_bit_clear)
  moreover have "length occ = 4" "length ls = 256" using l by (simp_all add: occ_def ls_def)
  moreover have "\<forall>p<256. \<forall>t \<in> set (ls ! p). runq_prio (at t) = p" using r by (auto simp: lsn)
  moreover have "distinct (level_order 256 (ra_level (runq_remove s q)))"
    unfolding lev using d by (rule level_order_distinct_remove)
  ultimately have "ra_inv (runq_remove s q)" unfolding rem by (simp add: ra_inv_def)
  moreover have "attr_prio (runq_remove s q) = attr_prio q" "attr_eligible m (runq_remove s q) = attr_eligible m q"
    unfolding rem by (auto simp: attr_prio_def attr_eligible_def fun_eq_iff q)
  ultimately show ?thesis using lev by simp
qed

lemma find_rev_split:
  assumes "find P (rev [0..<n]) = Some p"
  shows "p < n" "P p" "\<And>q. p < q \<Longrightarrow> q < n \<Longrightarrow> \<not> P q"
  using assms
proof (induction n)
  case (Suc n)
  { case 1 then show ?case using Suc.IH(1) by (cases "P n") auto }
  { case 2 then show ?case using Suc.IH(2) by (cases "P n") auto }
  { case 3 then show ?case using Suc.IH(3) by (cases "P n") (auto simp: less_Suc_eq) }
qed simp_all

lemma find_level_order_skip:
  "p \<le> n \<Longrightarrow> (\<And>r. p \<le> r \<Longrightarrow> r < n \<Longrightarrow> lv r = []) \<Longrightarrow> level_order n lv = level_order p lv"
proof (induction n)
  case (Suc n)
  show ?case
  proof (cases "p = Suc n")
    case False
    then have "p \<le> n" using Suc.prems(1) by simp
    then show ?thesis using Suc.IH Suc.prems(2) by simp
  qed simp
qed simp

lemma get_next_loop_ref:
  assumes inv: "ra_inv (queue, at)" and i: "i < 256"
  shows "get_next_loop queue at m i = find (attr_eligible m (queue, at)) (level_order (Suc i) (ra_level (queue, at)))"
  using i
proof (induction i rule: less_induct)
  case (less i)
  have b: "\<forall>p<256. bm_bit (occupied queue) p \<longleftrightarrow> ra_list queue ! p \<noteq> []" using inv by (simp add: ra_inv_def)
  have el: "(\<lambda>s. sched_affinity_check (affinity (at s)) m) = attr_eligible m (queue, at)"
    by (simp add: fun_eq_iff attr_eligible_def)
  have lv: "ra_level (queue, at) i = ra_list queue ! i" using less.prems by (simp add: ra_level_def)
  have low: "(case runq_occupied_below queue (int i - 1) of None \<Rightarrow> None | Some j \<Rightarrow> get_next_loop queue at m j)
      = find (attr_eligible m (queue, at)) (level_order i (ra_level (queue, at)))"
  proof (cases i)
    case 0
    then show ?thesis by (simp add: runq_occupied_below_def SCHED_PRIORITY_MIN_def)
  next
    case (Suc k)
    have o: "runq_occupied_below queue (int i - 1) = find (bm_bit (occupied queue)) (rev [0..<i])"
      using runq_occupied_below_ref [of k queue] less.prems Suc by simp
    show ?thesis
    proof (cases "find (bm_bit (occupied queue)) (rev [0..<i])")
      case None
      then have "\<forall>p<i. ra_level (queue, at) p = []" using b less.prems by (auto simp: find_None_iff ra_level_def)
      then have "level_order i (ra_level (queue, at)) = []" by (simp add: level_order_Nil)
      then show ?thesis using None o by simp
    next
      case (Some j)
      note j = find_rev_split [OF Some]
      have "level_order i (ra_level (queue, at)) = level_order (Suc j) (ra_level (queue, at))"
        using j(1,3) b less.prems by (intro find_level_order_skip) (auto simp: ra_level_def)
      then show ?thesis using o Some less.IH [OF j(1)] j(1) less.prems by simp
    qed
  qed
  show ?case
    by (subst get_next_loop.simps) (simp add: el low lv find_append split: option.splits)
qed

lemma runq_get_next_ref:
  assumes inv: "ra_inv q"
  shows "runq_get_next m q = find (attr_eligible m q) (level_order 256 (ra_level q))"
proof -
  obtain queue at where q: "q = (queue, at)" by (cases q)
  have b: "\<forall>p<256. bm_bit (occupied queue) p \<longleftrightarrow> ra_list queue ! p \<noteq> []" using inv by (simp add: ra_inv_def q)
  have o: "runq_occupied_below queue 255 = find (bm_bit (occupied queue)) (rev [0..<256])"
    using runq_occupied_below_ref [of 255 queue] by (simp del: upt_Suc)
  show ?thesis
  proof (cases "find (bm_bit (occupied queue)) (rev [0..<256])")
    case None
    then have "\<forall>p<256. ra_level q p = []" using b by (auto simp: find_None_iff ra_level_def q)
    then have "level_order 256 (ra_level q) = []" by (simp add: level_order_Nil)
    then show ?thesis using None o by (simp add: runq_get_next_def q SCHED_PRIORITY_MAX_def)
  next
    case (Some j)
    note j = find_rev_split [OF Some]
    have "level_order 256 (ra_level q) = level_order (Suc j) (ra_level q)"
      using j(1,3) b by (intro find_level_order_skip) (auto simp: ra_level_def q)
    then show ?thesis using o Some j(1) get_next_loop_ref [OF inv [unfolded q] j(1), of m]
      by (simp add: runq_get_next_def q SCHED_PRIORITY_MAX_def)
  qed
qed

lemma ra_inv_distinct: "ra_inv q \<Longrightarrow> distinct (level_order 256 (ra_level q))"
  by (cases q) (simp add: ra_inv_def)

interpretation ra: run_queue runq_insert runq_remove "runq_get_next m" ra_level attr_prio "attr_eligible m" ra_inv 256
  for m
  by unfold_locales (rule ra_insert_ok ra_remove_ok runq_get_next_ref ra_inv_distinct; assumption)+

lemma dp_insert_ok:
  assumes inv: "dp_inv q" and p: "attr_prio q s < 256" and s: "s \<notin> set (level_order 256 (dp_level q))"
  shows "dp_inv (dp_insert s q) \<and> dp_level (dp_insert s q) = (dp_level q)(attr_prio q s := dp_level q (attr_prio q s) @ [s])
      \<and> attr_prio (dp_insert s q) = attr_prio q"
proof -
  obtain ls at where q: "q = (ls, at)" by (cases q)
  define pr where "pr = priority (at s)"
  have pr: "pr < 256" "attr_prio q s = pr" using p by (simp_all add: q pr_def attr_prio_def)
  have l: "length ls = 256" and b: "\<forall>s \<in> set (concat ls). priority (at s) < 256"
    and d: "distinct (level_order 256 (dp_level q))" using inv by (simp_all add: dp_inv_def q)
  have ins: "dp_insert s q = (ls[pr := ls ! pr @ [s]], at)"
    using pr(1) by (simp add: q dp_insert_def Let_def pr_def runq_consts)
  have lev: "dp_level (dp_insert s q) = (dp_level q)(pr := dp_level q pr @ [s])"
    unfolding ins using l pr(1) by (auto simp: dp_level_def q fun_eq_iff nth_list_update)
  have "distinct (level_order 256 (dp_level (dp_insert s q)))"
    unfolding lev using d s pr(1) by (rule distinct_level_order_insert)
  moreover have "\<forall>t \<in> set (concat (ls[pr := ls ! pr @ [s]])). priority (at t) < 256"
  proof
    fix t assume "t \<in> set (concat (ls[pr := ls ! pr @ [s]]))"
    then obtain xs where "xs \<in> set (ls[pr := ls ! pr @ [s]])" "t \<in> set xs" by auto
    then have "xs \<in> set ls \<or> xs = ls ! pr @ [s]" using set_update_subset_insert [of ls pr "ls ! pr @ [s]"] by auto
    moreover have "ls ! pr \<in> set ls" using l pr(1) by simp
    ultimately show "priority (at t) < 256" using \<open>t \<in> set xs\<close> b pr(1) by (auto simp: pr_def)
  qed
  ultimately have "dp_inv (dp_insert s q)" using l unfolding ins by (simp add: dp_inv_def)
  moreover have "attr_prio (dp_insert s q) = attr_prio q" unfolding ins by (simp add: attr_prio_def fun_eq_iff q)
  ultimately show ?thesis using lev pr(2) by simp
qed

lemma dp_remove_ok:
  assumes inv: "dp_inv q" and s: "s \<in> set (level_order 256 (dp_level q))"
  shows "dp_inv (dp_remove s q) \<and> dp_level (dp_remove s q) = (\<lambda>p. removeAll s (dp_level q p))
      \<and> attr_prio (dp_remove s q) = attr_prio q"
proof -
  obtain ls at where q: "q = (ls, at)" by (cases q)
  have l: "length ls = 256" and b: "\<forall>s \<in> set (concat ls). priority (at s) < 256"
    and d: "distinct (level_order 256 (dp_level q))" using inv by (simp_all add: dp_inv_def q)
  obtain p where "p < 256" "s \<in> set (ls ! p)" using level_orderD [OF s] by (auto simp: q dp_level_def)
  then have "s \<in> set (concat ls)" using l by (auto intro!: bexI [of _ "ls ! p"])
  then have "priority (at s) < 256" using b by blast
  then have rem: "dp_remove s q = (map (removeAll s) ls, at)"
    by (simp add: q dp_remove_def Let_def runq_consts)
  have lev: "dp_level (dp_remove s q) = (\<lambda>p. removeAll s (dp_level q p))"
    unfolding rem using l by (auto simp: dp_level_def q fun_eq_iff)
  have "distinct (level_order 256 (dp_level (dp_remove s q)))"
    unfolding lev using d by (rule level_order_distinct_remove)
  then have "dp_inv (dp_remove s q)" using l b unfolding rem by (auto simp: dp_inv_def)
  moreover have "attr_prio (dp_remove s q) = attr_prio q" unfolding rem by (simp add: attr_prio_def fun_eq_iff q)
  ultimately show ?thesis using lev by simp
qed

lemma dp_scan_ref: "n \<le> 256 \<Longrightarrow> dp_scan ls n = find (\<lambda>_. True) (level_order n (dp_level (ls, at)))"
proof (induction n)
  case (Suc n)
  have "dp_level (ls, at) n = ls ! n" using Suc.prems by (simp add: dp_level_def)
  then show ?case using Suc by (cases "ls ! n") (simp_all add: find_append)
qed simp

lemma dp_get_next_ref: "dp_inv q \<Longrightarrow> dp_get_next q = find (\<lambda>_. True) (level_order 256 (dp_level q))"
  using dp_scan_ref [of 256 "fst q" "snd q"] by (cases q) (simp add: dp_get_next_def SCHED_PRIORITY_MAX_def)

interpretation dp: run_queue dp_insert dp_remove dp_get_next dp_level attr_prio "\<lambda>_ _. True" dp_inv 256
proof unfold_locales
  fix q s assume "dp_inv q" "attr_prio q s < 256" "s \<notin> set (level_order 256 (dp_level q))"
  then show "dp_inv (dp_insert s q) \<and> dp_level (dp_insert s q) = (dp_level q)(attr_prio q s := dp_level q (attr_prio q s) @ [s])
      \<and> attr_prio (dp_insert s q) = attr_prio q \<and> (\<lambda>_. True) = (\<lambda>_. True)"
    using dp_insert_ok by blast
next
  fix q s assume "dp_inv q" "s \<in> set (level_order 256 (dp_level q))"
  then show "dp_inv (dp_remove s q) \<and> dp_level (dp_remove s q) = (\<lambda>p. removeAll s (dp_level q p))
      \<and> attr_prio (dp_remove s q) = attr_prio q \<and> (\<lambda>_. True) = (\<lambda>_. True)"
    using dp_remove_ok by blast
next
  fix q assume "dp_inv q"
  then show "dp_get_next q = find (\<lambda>_. True) (level_order 256 (dp_level q))" by (rule dp_get_next_ref)
next
  fix q assume "dp_inv q"
  then show "distinct (level_order 256 (dp_level q))" by (cases q) (simp add: dp_inv_def)
qed

lemma rl_levels_distinct: "distinct q \<Longrightarrow> n \<le> 256 \<Longrightarrow> distinct (level_order n (rl_level (q, at)))"
proof (induction n)
  case (Suc n)
  then show ?case by (auto simp: set_level_order rl_level_def)
qed simp

lemma fold_max_cases:
  fixes f :: "'a \<Rightarrow> nat"
  assumes "fold (\<lambda>s b. if f s > f b then s else b) q x = r"
  shows "(r = x \<and> (\<forall>y \<in> set q. f y \<le> f x))
     \<or> (f x < f r \<and> (\<exists>ys zs. q = ys @ r # zs \<and> (\<forall>y \<in> set ys. f y < f r) \<and> (\<forall>z \<in> set zs. f z \<le> f r)))"
  using assms
proof (induction q arbitrary: x)
  case (Cons a q)
  show ?case
  proof (cases "f a > f x")
    case True
    then have "fold (\<lambda>s b. if f s > f b then s else b) q a = r" using Cons.prems by simp
    from Cons.IH [OF this] show ?thesis
    proof (elim disjE conjE exE)
      assume "r = a" "\<forall>y \<in> set q. f y \<le> f a"
      then show ?thesis using True by (intro disjI2 conjI exI [of _ "[]"] exI [of _ q]) auto
    next
      fix ys zs assume "f a < f r" "q = ys @ r # zs" "\<forall>y \<in> set ys. f y < f r" "\<forall>z \<in> set zs. f z \<le> f r"
      then show ?thesis using True by (intro disjI2 conjI exI [of _ "a # ys"] exI [of _ zs]) auto
    qed
  next
    case False
    then have "fold (\<lambda>s b. if f s > f b then s else b) q x = r" using Cons.prems by simp
    from Cons.IH [OF this] show ?thesis
    proof (elim disjE conjE exE)
      assume "r = x" "\<forall>y \<in> set q. f y \<le> f x"
      then show ?thesis using False by auto
    next
      fix ys zs assume "f x < f r" "q = ys @ r # zs" "\<forall>y \<in> set ys. f y < f r" "\<forall>z \<in> set zs. f z \<le> f r"
      then show ?thesis using False by (intro disjI2 conjI exI [of _ "a # ys"] exI [of _ zs]) auto
    qed
  qed
qed simp

lemma rl_get_next_ref:
  assumes inv: "rl_inv q"
  shows "rl_schedee (rl_get_next q) = find (\<lambda>_. True) (level_order 256 (rl_level q))"
proof -
  obtain xs at where q: "q = (xs, at)" by (cases q)
  show ?thesis
  proof (cases xs)
    case Nil
    have "level_order 256 (rl_level q) = []" by (simp add: level_order_Nil rl_level_def q Nil)
    then show ?thesis by (simp add: rl_get_next_def q Nil)
  next
    case (Cons x ys)
    let ?p = "\<lambda>s. priority (at s)"
    define r where "r = fold (\<lambda>s b. if ?p s > ?p b then s else b) xs x"
    obtain as bs where ab: "xs = as @ r # bs" "\<forall>y \<in> set as. ?p y < ?p r" "\<forall>z \<in> set bs. ?p z \<le> ?p r"
      using fold_max_cases [OF r_def [symmetric]] Cons by fastforce
    have rp: "?p r < 256" using inv ab(1) by (simp add: rl_inv_def q)
    have "level_order 256 (rl_level q) = level_order (Suc (?p r)) (rl_level q)"
    proof (rule find_level_order_skip)
      fix p assume "Suc (?p r) \<le> p" "p < 256"
      moreover have "\<forall>y \<in> set xs. ?p y \<le> ?p r" using ab by (auto simp: less_imp_le)
      ultimately show "rl_level q p = []" by (auto simp: rl_level_def q filter_empty_conv)
    qed (use rp in simp)
    moreover have "rl_level q (?p r) = r # filter (\<lambda>s. ?p s = ?p r) bs"
      using rp ab by (auto simp: rl_level_def q filter_empty_conv)
    ultimately have "find (\<lambda>_. True) (level_order 256 (rl_level q)) = Some r" by simp
    then show ?thesis using Cons by (simp add: rl_get_next_def q r_def)
  qed
qed

interpretation rl: run_queue rl_insert rl_remove "rl_schedee \<circ> rl_get_next" rl_level attr_prio "\<lambda>_ _. True" rl_inv 256
proof unfold_locales
  fix q s assume q: "rl_inv q" "attr_prio q s < 256" "s \<notin> set (level_order 256 (rl_level q))"
  obtain xs at where xs: "q = (xs, at)" by (cases q)
  have "s \<notin> set xs" using q by (auto simp: set_level_order rl_level_def xs attr_prio_def)
  then show "rl_inv (rl_insert s q) \<and> rl_level (rl_insert s q) = (rl_level q)(attr_prio q s := rl_level q (attr_prio q s) @ [s])
      \<and> attr_prio (rl_insert s q) = attr_prio q \<and> (\<lambda>_. True) = (\<lambda>_. True)"
    using q by (auto simp: rl_inv_def xs rl_insert_def rl_level_def attr_prio_def fun_eq_iff)
next
  fix q s assume q: "rl_inv q" "s \<in> set (level_order 256 (rl_level q))"
  then show "rl_inv (rl_remove s q) \<and> rl_level (rl_remove s q) = (\<lambda>p. removeAll s (rl_level q p))
      \<and> attr_prio (rl_remove s q) = attr_prio q \<and> (\<lambda>_. True) = (\<lambda>_. True)"
    by (cases q) (auto simp: rl_inv_def rl_remove_def rl_level_def attr_prio_def fun_eq_iff removeAll_filter_not_eq
        distinct_removeAll conj_commute)
next
  fix q assume "rl_inv q"
  then show "(rl_schedee \<circ> rl_get_next) q = find (\<lambda>_. True) (level_order 256 (rl_level q))" by (simp add: rl_get_next_ref)
next
  fix q assume "rl_inv q"
  then show "distinct (level_order 256 (rl_level q))"
    using rl_levels_distinct [of "fst q" 256 "snd q"] by (cases q) (simp add: rl_inv_def)
qed

section \<open>Empty queues\<close>

lemma runq_init_inv: "ra_inv (runq_init, at)" "ra_level (runq_init, at) = (\<lambda>_. [])"
proof -
  show lv: "ra_level (runq_init, at) = (\<lambda>_. [])" by (auto simp: ra_level_def runq_init_def runq_consts fun_eq_iff)
  have "\<not> bm_bit (replicate 4 0) p" if "p < 256" for p
  proof -
    have "p div 64 < 4" using that by (simp add: less_mult_imp_div_less)
    then show ?thesis by (simp add: bm_bit_def)
  qed
  moreover have "level_order 256 (ra_level (runq_init, at)) = []" by (simp add: lv level_order_Nil)
  ultimately show "ra_inv (runq_init, at)" by (simp add: ra_inv_def) (simp add: runq_init_def runq_consts)
qed

lemma dp_init_inv: "dp_inv (dp_init, at)" "dp_level (dp_init, at) = (\<lambda>_. [])"
proof -
  show lv: "dp_level (dp_init, at) = (\<lambda>_. [])" by (auto simp: dp_level_def dp_init_def runq_consts fun_eq_iff)
  have "level_order 256 (dp_level (dp_init, at)) = []" by (simp add: lv level_order_Nil)
  then show "dp_inv (dp_init, at)" by (simp add: dp_inv_def) (simp add: dp_init_def runq_consts)
qed

lemma rl_init_inv: "rl_inv ([], at)" "rl_level ([], at) = (\<lambda>_. [])"
  by (auto simp: rl_inv_def rl_level_def fun_eq_iff)

lemma runq_extract_eq: "runq_extract m = ra.extract_q m" "dp_extract = dp.extract_q"
    "rl_extract = map_prod rl_of id \<circ> rl.extract_q"
  by (simp_all add: fun_eq_iff runq_extract_def ra.extract_q_def dp_extract_def dp.extract_q_def
      rl_extract_def rl.extract_q_def split: rl_item.split)

section \<open>Properties\<close>

text \<open>
  C6: what \<^verbatim>\<open>runq_get_next\<close> of the bitmap strategy returns is allowed on the asking processor, stands
  in the highest level that has an allowed schedee, and is the first allowed one of that level in the
  order of arrival; it returns nothing exactly when no queued schedee is allowed.
\<close>

theorem runq_get_next_highest:
  assumes "ra_inv q"
  shows "(case runq_get_next m q of
      None \<Rightarrow> (\<forall>p<256. \<forall>s \<in> set (ra_level q p). \<not> attr_eligible m q s)
    | Some s \<Rightarrow> \<exists>p<256. find (attr_eligible m q) (ra_level q p) = Some s
        \<and> (\<forall>r<256. p < r \<longrightarrow> (\<forall>t \<in> set (ra_level q r). \<not> attr_eligible m q t)))"
proof (cases "runq_get_next m q")
  case None
  then have "\<forall>s \<in> (\<Union>p<256. set (ra_level q p)). \<not> attr_eligible m q s"
    using ra.next_None [OF assms, of m] unfolding set_level_order by blast
  then show ?thesis unfolding None option.case by blast
next
  case (Some s)
  then have "find (attr_eligible m q) (level_order 256 (ra_level q)) = Some s"
    unfolding runq_get_next_ref [OF assms, symmetric] .
  then obtain p where "p < 256" "find (attr_eligible m q) (ra_level q p) = Some s"
    "\<And>r. p < r \<Longrightarrow> r < 256 \<Longrightarrow> find (attr_eligible m q) (ra_level q r) = None"
    by (erule find_level_order_top)
  then show ?thesis unfolding Some option.case find_None_iff by blast
qed

definition demo_at :: attrs where
  "demo_at s = \<lparr>priority = (if s = 5 then 100 else 200), runq_prio = 0, affinity = (if s = 6 then 2 else 3)\<rparr>"

lemma demo_runq:
  "ra_inv (runq_insert 7 (runq_insert 6 (runq_insert 5 (runq_init, demo_at))))"
  "ra_level (runq_insert 7 (runq_insert 6 (runq_insert 5 (runq_init, demo_at)))) = (\<lambda>_. [])(100 := [5], 200 := [6, 7])"
  "attr_eligible m (runq_insert 7 (runq_insert 6 (runq_insert 5 (runq_init, demo_at)))) = attr_eligible m (runq_init, demo_at)"
proof -
  let ?q1 = "runq_insert 5 (runq_init, demo_at)"
  let ?q2 = "runq_insert 6 ?q1"
  have p: "attr_prio (runq_init, demo_at) s = (if s = 5 then 100 else 200)" for s
    by (simp add: attr_prio_def demo_at_def)
  have 1: "ra_inv ?q1" "ra_level ?q1 = (\<lambda>_. [])(100 := [5])" "attr_prio ?q1 = attr_prio (runq_init, demo_at)"
    "attr_eligible m ?q1 = attr_eligible m (runq_init, demo_at)" for m
    using ra_insert_ok [of "(runq_init, demo_at)" 5 m] p by (simp_all add: runq_init_inv level_order_Nil set_level_order)
  have 2: "ra_inv ?q2" "ra_level ?q2 = (\<lambda>_. [])(100 := [5], 200 := [6])" "attr_prio ?q2 = attr_prio (runq_init, demo_at)"
    "attr_eligible m ?q2 = attr_eligible m (runq_init, demo_at)" for m
    using ra_insert_ok [of ?q1 6 m] p by (simp_all add: 1 set_level_order split: if_splits)
  show "ra_inv (runq_insert 7 ?q2)" "ra_level (runq_insert 7 ?q2) = (\<lambda>_. [])(100 := [5], 200 := [6, 7])"
    "attr_eligible m (runq_insert 7 ?q2) = attr_eligible m (runq_init, demo_at)"
    using ra_insert_ok [of ?q2 7 m] p by (auto simp: 2 set_level_order)
qed

theorem runq_get_next_highest_witness:
  "runq_get_next 1 (runq_insert 7 (runq_insert 6 (runq_insert 5 (runq_init, demo_at)))) = Some 7
   \<and> (\<exists>p<256. find (attr_eligible 1 (runq_insert 7 (runq_insert 6 (runq_insert 5 (runq_init, demo_at)))))
          (ra_level (runq_insert 7 (runq_insert 6 (runq_insert 5 (runq_init, demo_at)))) p) = Some 7)"
proof -
  let ?q = "runq_insert 7 (runq_insert 6 (runq_insert 5 (runq_init, demo_at)))"
  have e: "\<not> attr_eligible 1 (runq_init, demo_at) 6" "attr_eligible 1 (runq_init, demo_at) 7"
    by (simp_all add: attr_eligible_def demo_at_def sched_affinity_check_def)
  have "level_order 256 ((\<lambda>_. [])(100 := [5], 200 := [6, 7])) = level_order (Suc 200) ((\<lambda>_. [])(100 := [5::nat], 200 := [6, 7]))"
    by (rule find_level_order_skip) simp_all
  also have "\<dots> = [6, 7] @ level_order 200 ((\<lambda>_. [])(100 := [5::nat], 200 := [6, 7]))"
    unfolding level_order_Suc by simp
  finally have "runq_get_next 1 ?q = Some 7"
    using runq_get_next_ref [OF demo_runq(1), of 1] e by (simp add: demo_runq)
  then show ?thesis using runq_get_next_highest [OF demo_runq(1), of 1] by (simp only: option.case) blast
qed

text \<open>
  C19: the three run queue strategies are interchangeable as long as priorities do not change while a
  schedee is queued: over any history of insertions of schedees that are not queued, removals of queued
  ones and extractions, the bitmap strategy on a processor that the affinity of every schedee allows, the
  plain array of lists and the single list give out the same schedees in the same order, the first come of
  the highest level. They differ on an empty queue only: there the first two give no schedee and the
  single list gives its own head as if it were one.
\<close>

theorem runq_strategies_agree:
  assumes "lv_valid 256 (\<lambda>s. priority (at s)) (\<lambda>_. True) xs (\<lambda>_. [])" "\<forall>s. sched_affinity_check (affinity (at s)) m"
  shows "rq_run runq_insert runq_remove (runq_extract m) xs (runq_init, at)
       = lv_run 256 (\<lambda>s. priority (at s)) (\<lambda>_. True) xs (\<lambda>_. [])
    \<and> rq_run dp_insert dp_remove dp_extract xs (dp_init, at)
       = lv_run 256 (\<lambda>s. priority (at s)) (\<lambda>_. True) xs (\<lambda>_. [])
    \<and> rq_run rl_insert rl_remove rl_extract xs ([], at)
       = map rl_of (lv_run 256 (\<lambda>s. priority (at s)) (\<lambda>_. True) xs (\<lambda>_. []))"
proof -
  have pr: "attr_prio (runq_init, at) = (\<lambda>s. priority (at s))" "attr_prio (dp_init, at) = (\<lambda>s. priority (at s))"
    "attr_prio ([] :: nat list, at) = (\<lambda>s. priority (at s))" by (simp_all add: attr_prio_def fun_eq_iff)
  have el: "attr_eligible m (runq_init, at) = (\<lambda>_. True)" using assms(2) by (simp add: attr_eligible_def fun_eq_iff)
  show ?thesis unfolding runq_extract_eq rq_run_map
    using ra.rq_run_levels [OF runq_init_inv(1), of at m xs] dp.rq_run_levels [OF dp_init_inv(1), of at xs]
      rl.rq_run_levels [OF rl_init_inv(1), of at xs] assms(1)
    by (simp add: runq_init_inv(2) dp_init_inv(2) rl_init_inv(2) pr el)
qed

theorem runq_strategies_agree_witness:
  "rq_run runq_insert runq_remove (runq_extract 1) [Ext, Ins 5, Ins 6, Ext] (runq_init, \<lambda>_. \<lparr>priority = 7, runq_prio = 0, affinity = 1\<rparr>) = [None, Some 5]
   \<and> rq_run dp_insert dp_remove dp_extract [Ext, Ins 5, Ins 6, Ext] (dp_init, \<lambda>_. \<lparr>priority = 7, runq_prio = 0, affinity = 1\<rparr>) = [None, Some 5]
   \<and> rq_run rl_insert rl_remove rl_extract [Ext, Ins 5, Ins 6, Ext] ([], \<lambda>_. \<lparr>priority = 7, runq_prio = 0, affinity = 1\<rparr>) = [Queue_head, Schedee 5]"
proof -
  let ?at = "\<lambda>_ :: nat. \<lparr>priority = 7, runq_prio = 0, affinity = 1\<rparr>"
  let ?xs = "[Ext, Ins 5, Ins 6, Ext]"
  have e: "find (\<lambda>_ :: nat. True) (level_order 256 (\<lambda>_. [])) = None" by (simp add: find_None_iff set_level_order)
  have v: "lv_valid 256 (\<lambda>s. priority (?at s)) (\<lambda>_. True) ?xs (\<lambda>_. [])"
    unfolding lv_valid.simps e by (auto simp: set_level_order split: option.splits)
  have a: "\<forall>s. sched_affinity_check (affinity (?at s)) 1" by (simp add: sched_affinity_check_def)
  have "level_order 256 ((\<lambda>_. [])(7 := [5, 6 :: nat])) = level_order (Suc 7) ((\<lambda>_. [])(7 := [5, 6]))"
    by (rule find_level_order_skip) simp_all
  also have "\<dots> = [5, 6]" unfolding level_order_Suc by (simp add: level_order_Nil)
  finally have r: "lv_run 256 (\<lambda>s. priority (?at s)) (\<lambda>_. True) ?xs (\<lambda>_. []) = [None, Some 5]"
    unfolding lv_run.simps e by simp
  show ?thesis using runq_strategies_agree [OF v a] unfolding r by simp
qed

end
