(* ===== verification/Sched.thy ===== *)
theory Sched
  imports Runq "HOL-Library.Monad_Syntax"
begin

text \<open>
  The scheduler core, \<^verbatim>\<open>kernel/sched/sched.c\<close>, as it is built for several processors, with the
  priorities of \<^verbatim>\<open>kernel/sched/priority/inherit.c\<close>. Each definition is the work of one function on
  the shared state; \<^verbatim>\<open>Sched_SMP\<close> cuts the functions at the points where another processor can come
  in between and runs them interleaved. \<^const>\<open>None\<close> is a failed assertion.
\<close>

datatype schedee_type = SCHEDEE_THREAD | SCHEDEE_LTHREAD

text \<open>The values of \<^verbatim>\<open>waiting\<close>: \<^verbatim>\<open>false\<close>, \<^verbatim>\<open>true\<close> and \<^verbatim>\<open>TW_SMP_WAKING\<close>.\<close>

datatype wait_state = Not_waiting | Waiting | TW_SMP_WAKING

text \<open>
  The fields of \<^verbatim>\<open>struct schedee\<close> that the run queue does not read; the current priority, the level
  and the affinity mask are in \<^typ>\<open>schedee_attr\<close>.
\<close>

record schedee =
  s_type :: schedee_type
  active :: bool
  ready :: bool
  waiting :: wait_state
  released :: bool
  finished :: bool
  base_priority :: nat

text \<open>
  \<open>cur\<close> is \<^verbatim>\<open>__current_schedee\<close>, \<open>pending\<close> a request for \<^verbatim>\<open>sched_critical\<close>, \<open>cpu_idle\<close> the result
  of \<^verbatim>\<open>cpu_get_idle\<close>, all three one per processor. \<open>ticking\<close> says that the tick timer is started,
  \<open>shared_cpu\<close> is the mask of processors that share it, \<open>ipis\<close> the processors that
  \<^verbatim>\<open>smp_send_resched\<close> was called for.
\<close>

record sched =
  queue :: runq_array
  at :: attrs
  sch :: "sid \<Rightarrow> schedee"
  rq_nr_ready :: int
  cur :: "nat \<Rightarrow> sid option"
  cpu_idle :: "nat \<Rightarrow> sid option"
  resched_sent :: "nat \<Rightarrow> bool"
  sched_yield_req :: bool
  pending :: "nat \<Rightarrow> bool"
  ticking :: bool
  shared_cpu :: u32
  ipis :: "nat list"

definition upd_schedee :: "sid \<Rightarrow> (schedee \<Rightarrow> schedee) \<Rightarrow> sched \<Rightarrow> sched" where
  "upd_schedee s f st = st\<lparr>sch := (sch st)(s := f (sch st s))\<rparr>"

definition cpu_mask :: "nat \<Rightarrow> u32" where
  "cpu_mask c = push_bit c 1"

definition schedee_is_thread :: "sid \<Rightarrow> sched \<Rightarrow> bool" where
  "schedee_is_thread s st \<longleftrightarrow> s_type (sch st s) = SCHEDEE_THREAD"

definition schedee_priority_get :: "sid \<Rightarrow> sched \<Rightarrow> nat" where
  "schedee_priority_get s st = priority (at st s)"

definition SCHEDEE_AFFINITY_NONE :: u32 where
  "SCHEDEE_AFFINITY_NONE = - 1"

definition sched_affinity_init :: "u32 \<Rightarrow> u32" where
  "sched_affinity_init DEFAULT_MASK = (if DEFAULT_MASK \<noteq> 0 then DEFAULT_MASK else SCHEDEE_AFFINITY_NONE)"

section \<open>Initialisation\<close>

definition schedee_init :: "u32 \<Rightarrow> sid \<Rightarrow> nat \<Rightarrow> schedee_type \<Rightarrow> sched \<Rightarrow> sched" where
  "schedee_init DEFAULT_MASK s prio ty st =
     st\<lparr>at := (at st)(s := \<lparr>priority = prio, runq_prio = prio, affinity = sched_affinity_init DEFAULT_MASK\<rparr>),
        sch := (sch st)(s := \<lparr>s_type = ty, active = False, ready = False, waiting = Waiting, released = True,
          finished = False, base_priority = prio\<rparr>)\<rparr>"

definition sched_set_current :: "nat \<Rightarrow> sid \<Rightarrow> sched \<Rightarrow> sched option" where
  "sched_set_current c s st =
     (if cur st c \<noteq> None then None
      else Some (upd_schedee s (\<lambda>x. x\<lparr>ready := True, active := True, waiting := Not_waiting, released := False\<rparr>)
             (st\<lparr>cur := (cur st)(c := Some s)\<rparr>)))"

definition sched_init :: "nat \<Rightarrow> sid \<Rightarrow> sched \<Rightarrow> sched option" where
  "sched_init c s st = sched_set_current c s (st\<lparr>queue := runq_init\<rparr>)"

section \<open>Preemption requests\<close>

definition sched_post_switch :: "nat \<Rightarrow> sched \<Rightarrow> sched" where
  "sched_post_switch c st = st\<lparr>sched_yield_req := True, pending := (pending st)(c := True)\<rparr>"

definition sched_post_switch_noyield :: "nat \<Rightarrow> sched \<Rightarrow> sched" where
  "sched_post_switch_noyield c st = st\<lparr>pending := (pending st)(c := True)\<rparr>"

text \<open>The loop over the processors: the first one that is allowed, idle and not yet poked.\<close>

definition pokeable :: "nat \<Rightarrow> u32 \<Rightarrow> sched \<Rightarrow> nat \<Rightarrow> bool" where
  "pokeable self aff st cpuid \<longleftrightarrow> cpuid \<noteq> self \<and> aff AND cpu_mask cpuid \<noteq> 0
     \<and> (case cpu_idle st cpuid of None \<Rightarrow> False | Some idle \<Rightarrow> active (sch st idle))
     \<and> \<not> resched_sent st cpuid"

definition sched_wakeup_remote :: "nat \<Rightarrow> nat \<Rightarrow> sid \<Rightarrow> bool \<Rightarrow> sched \<Rightarrow> sched" where
  "sched_wakeup_remote NCPU self s taken_here st =
     (let aff = affinity (at st s)
      in if aff AND cpu_mask self \<noteq> 0 \<and> rq_nr_ready st \<le> (if taken_here then 1 else 0) then st
         else case find (pokeable self aff st) [0..<NCPU] of
                None \<Rightarrow> st
              | Some cpuid \<Rightarrow> st\<lparr>resched_sent := (resched_sent st)(cpuid := True), ipis := ipis st @ [cpuid]\<rparr>)"

text \<open>A processor has a current schedee before anything can be woken up on it.\<close>

definition sched_check_preempt :: "nat \<Rightarrow> nat \<Rightarrow> sid \<Rightarrow> sched \<Rightarrow> sched" where
  "sched_check_preempt NCPU c s st =
     (let taken_here = (case cur st c of None \<Rightarrow> False
                        | Some me \<Rightarrow> schedee_priority_get me st \<le> schedee_priority_get s st);
          st = (if taken_here then sched_post_switch c st else st)
      in sched_wakeup_remote NCPU c s taken_here st)"

section \<open>The run queue with its count\<close>

definition sched_enqueue :: "sid \<Rightarrow> sched \<Rightarrow> sched" where
  "sched_enqueue s st =
     (let (q, a) = runq_insert s (queue st, at st)
      in st\<lparr>queue := q, at := a, rq_nr_ready := rq_nr_ready st + 1\<rparr>)"

definition sched_dequeue :: "sid \<Rightarrow> sched \<Rightarrow> sched option" where
  "sched_dequeue s st =
     (let (q, a) = runq_remove s (queue st, at st)
      in if rq_nr_ready st > 0 then Some (st\<lparr>queue := q, at := a, rq_nr_ready := rq_nr_ready st - 1\<rparr>) else None)"

definition sched_enqueue_set_ready :: "sid \<Rightarrow> sched \<Rightarrow> sched" where
  "sched_enqueue_set_ready s st = upd_schedee s (\<lambda>x. x\<lparr>ready := True\<rparr>) (sched_enqueue s st)"

definition sched_wokenup_clear_waiting :: "nat \<Rightarrow> nat \<Rightarrow> sid \<Rightarrow> sched \<Rightarrow> sched" where
  "sched_wokenup_clear_waiting NCPU c s st =
     upd_schedee s (\<lambda>x. x\<lparr>waiting := Not_waiting\<rparr>) (sched_check_preempt NCPU c s st)"

section \<open>Priorities\<close>

text \<open>The three setters on the pair of base and current priority.\<close>

fun priority_set :: "nat \<Rightarrow> nat \<times> nat \<Rightarrow> nat \<times> nat" where
  "priority_set new (base, current) =
     (if base = new then (base, current)
      else if base = current then (new, new)
      else (new, if current \<le> new then new else current))"

fun priority_inherit :: "nat \<Rightarrow> nat \<times> nat \<Rightarrow> nat \<times> nat" where
  "priority_inherit prior (base, current) = (base, if prior > current then prior else current)"

fun priority_reverse :: "nat \<Rightarrow> nat \<times> nat \<Rightarrow> nat \<times> nat" where
  "priority_reverse prior (base, current) = (base, base)"

definition set_prio :: "(nat \<times> nat \<Rightarrow> nat \<times> nat) \<Rightarrow> sid \<Rightarrow> sched \<Rightarrow> sched" where
  "set_prio f s st =
     (let p = f (base_priority (sch st s), priority (at st s))
      in st\<lparr>at := (at st)(s := (at st s)\<lparr>priority := snd p\<rparr>),
            sch := (sch st)(s := (sch st s)\<lparr>base_priority := fst p\<rparr>)\<rparr>)"

definition in_rq :: "sid \<Rightarrow> sched \<Rightarrow> bool" where
  "in_rq s st \<longleftrightarrow> ready (sch st s) \<and> \<not> active (sch st s)"

definition sched_change_priority :: "nat \<Rightarrow> nat \<Rightarrow> sid \<Rightarrow> nat \<Rightarrow> (nat \<Rightarrow> nat \<times> nat \<Rightarrow> nat \<times> nat) \<Rightarrow> sched \<Rightarrow> sched option" where
  "sched_change_priority NCPU c s prior setter st =
     do {
       st' \<leftarrow> (if in_rq s st then sched_dequeue s st else Some st);
       let st'' = set_prio (setter prior) s st';
       Some (sched_check_preempt NCPU c s (if in_rq s st then sched_enqueue s st'' else st''))
     }"

definition schedee_priority_set :: "nat \<Rightarrow> nat \<Rightarrow> sid \<Rightarrow> int \<Rightarrow> sched \<Rightarrow> (bool \<times> sched) option" where
  "schedee_priority_set NCPU c s new_priority st =
     (if new_priority < int SCHED_PRIORITY_MIN \<or> new_priority > int SCHED_PRIORITY_MAX then Some (False, st)
      else map_option (Pair True) (sched_change_priority NCPU c s (nat new_priority) priority_set st))"

definition schedee_priority_inherit :: "nat \<Rightarrow> nat \<Rightarrow> sid \<Rightarrow> nat \<Rightarrow> sched \<Rightarrow> (nat \<times> sched) option" where
  "schedee_priority_inherit NCPU c s prio st =
     map_option (\<lambda>st'. (priority (at st' s), st')) (sched_change_priority NCPU c s prio priority_inherit st)"

definition schedee_priority_reverse :: "nat \<Rightarrow> nat \<Rightarrow> sid \<Rightarrow> sched \<Rightarrow> (nat \<times> sched) option" where
  "schedee_priority_reverse NCPU c s st =
     map_option (\<lambda>st'. (priority (at st' s), st'))
       (sched_change_priority NCPU c s (base_priority (sch st s)) priority_reverse st)"

section \<open>Taking a schedee out for good\<close>

definition sched_freeze :: "sid \<Rightarrow> sched \<Rightarrow> sched option" where
  "sched_freeze s st =
     do {
       st' \<leftarrow> (if in_rq s st then sched_dequeue s st else Some st);
       Some (upd_schedee s (\<lambda>x. x\<lparr>ready := False, active := False, waiting := Not_waiting\<rparr>) st')
     }"

definition sched_finished :: "sid \<Rightarrow> sched \<Rightarrow> sched" where
  "sched_finished s = upd_schedee s (\<lambda>x. x\<lparr>finished := True\<rparr>)"

section \<open>Waking up\<close>

text \<open>The section under the run queue lock: clears \<^verbatim>\<open>waiting\<close> if the schedee is still ready.\<close>

definition sched_wakeup_ready :: "sid \<Rightarrow> sched \<Rightarrow> bool \<times> sched" where
  "sched_wakeup_ready s st =
     (if ready (sch st s) then (True, upd_schedee s (\<lambda>x. x\<lparr>waiting := Not_waiting\<rparr>) st) else (False, st))"

definition sched_wakeup_waiting :: "nat \<Rightarrow> nat \<Rightarrow> sid \<Rightarrow> sched \<Rightarrow> sched option" where
  "sched_wakeup_waiting NCPU c s st =
     (if waiting (sch st s) = Not_waiting then None
      else Some (sched_wokenup_clear_waiting NCPU c s (sched_enqueue_set_ready s st)))"

definition wakeup_mark :: "sid \<Rightarrow> sched \<Rightarrow> sched" where
  "wakeup_mark s = upd_schedee s (\<lambda>x. x\<lparr>waiting := TW_SMP_WAKING\<rparr>)"

definition wakeup_if_inactive :: "nat \<Rightarrow> nat \<Rightarrow> sid \<Rightarrow> sched \<Rightarrow> sched option" where
  "wakeup_if_inactive NCPU c s st = (if active (sch st s) then Some st else sched_wakeup_waiting NCPU c s st)"

definition sched_wakeup_smp_inactive :: "nat \<Rightarrow> nat \<Rightarrow> sid \<Rightarrow> sched \<Rightarrow> sched option" where
  "sched_wakeup_smp_inactive NCPU c s st = wakeup_if_inactive NCPU c s (wakeup_mark s st)"

definition was_waiting :: "sid \<Rightarrow> sched \<Rightarrow> bool" where
  "was_waiting s st \<longleftrightarrow> \<not> finished (sch st s) \<and> waiting (sch st s) = Waiting"

definition sched_wakeup :: "nat \<Rightarrow> nat \<Rightarrow> sid \<Rightarrow> sched \<Rightarrow> (bool \<times> sched) option" where
  "sched_wakeup NCPU c s st =
     (if \<not> was_waiting s st then Some (False, st)
      else case sched_wakeup_ready s st of
             (True, st) \<Rightarrow> Some (True, st)
           | (False, st) \<Rightarrow> map_option (Pair True) (sched_wakeup_smp_inactive NCPU c s st))"

definition sched_wait_prepare :: "nat \<Rightarrow> sched \<Rightarrow> sched" where
  "sched_wait_prepare c st =
     (case cur st c of None \<Rightarrow> st | Some s \<Rightarrow> upd_schedee s (\<lambda>x. x\<lparr>waiting := Waiting\<rparr>) st)"

definition sched_wait_cleanup :: "nat \<Rightarrow> sched \<Rightarrow> sched" where
  "sched_wait_cleanup c st =
     (case cur st c of None \<Rightarrow> st | Some s \<Rightarrow> upd_schedee s (\<lambda>x. x\<lparr>waiting := Not_waiting\<rparr>) st)"

section \<open>Switching\<close>

definition sched_start_switch :: "sid \<Rightarrow> sched \<Rightarrow> sched" where
  "sched_start_switch s = upd_schedee s (\<lambda>x. x\<lparr>released := False, active := True\<rparr>)"

text \<open>The three parts of \<^verbatim>\<open>__sched_deactivate\<close>.\<close>

definition deactivate_clear :: "sid \<Rightarrow> sched \<Rightarrow> sched" where
  "deactivate_clear s = upd_schedee s (\<lambda>x. x\<lparr>active := False\<rparr>)"

definition deactivate_wake :: "nat \<Rightarrow> nat \<Rightarrow> sid \<Rightarrow> sched \<Rightarrow> sched option" where
  "deactivate_wake NCPU c s st =
     (if waiting (sch st s) = TW_SMP_WAKING \<and> \<not> finished (sch st s) then sched_wakeup_waiting NCPU c s st else Some st)"

definition deactivate_release :: "sid \<Rightarrow> sched \<Rightarrow> sched" where
  "deactivate_release s = upd_schedee s (\<lambda>x. x\<lparr>released := True\<rparr>)"

definition sched_finish_switch :: "nat \<Rightarrow> nat \<Rightarrow> sid \<Rightarrow> sched \<Rightarrow> sched option" where
  "sched_finish_switch NCPU c s st =
     map_option (deactivate_release s) (deactivate_wake NCPU c s (deactivate_clear s st))"

text \<open>The two stores of \<^verbatim>\<open>lthread_do_process\<close> before it runs the light thread.\<close>

definition lthread_clear_ready :: "sid \<Rightarrow> sched \<Rightarrow> sched" where
  "lthread_clear_ready s = upd_schedee s (\<lambda>x. x\<lparr>ready := False\<rparr>)"

definition lthread_set_waiting :: "sid \<Rightarrow> sched \<Rightarrow> sched" where
  "lthread_set_waiting s = upd_schedee s (\<lambda>x. x\<lparr>waiting := Waiting\<rparr>)"

text \<open>
  The choice of \<^verbatim>\<open>__schedule\<close>. The part before the loop puts the previous schedee back or takes its
  readiness away; one turn of the loop either keeps the previous schedee or extracts the next one.
\<close>

definition schedule_enter :: "nat \<Rightarrow> bool \<Rightarrow> sid \<Rightarrow> sched \<Rightarrow> bool \<times> sched" where
  "schedule_enter c preempt prev st =
     (let st = st\<lparr>resched_sent := (resched_sent st)(c := False)\<rparr>
      in (sched_yield_req st,
          if \<not> preempt \<and> waiting (sch st prev) \<noteq> Not_waiting then upd_schedee prev (\<lambda>x. x\<lparr>ready := False\<rparr>) st
          else sched_enqueue prev st))"

datatype choice = Keep | Switch sid

definition extract_next :: "nat \<Rightarrow> sched \<Rightarrow> (choice \<times> sched) option" where
  "extract_next c st =
     (case runq_extract (cpu_mask c) (queue st, at st) of
        (None, _) \<Rightarrow> None
      | (Some s, (q, a)) \<Rightarrow>
          if rq_nr_ready st > 0
          then Some (Switch s, st\<lparr>queue := q, at := a, rq_nr_ready := rq_nr_ready st - 1, cur := (cur st)(c := Some s)\<rparr>)
          else None)"

definition schedule_pick :: "nat \<Rightarrow> bool \<Rightarrow> bool \<Rightarrow> sid \<Rightarrow> sched \<Rightarrow> (choice \<times> sched) option" where
  "schedule_pick c preempt yield_requested prev st =
     (case runq_get_next (cpu_mask c) (queue st, at st) of
        None \<Rightarrow> None
      | Some s \<Rightarrow>
          if schedee_is_thread prev st \<and> schedee_is_thread s st
             \<and> schedee_priority_get prev st = schedee_priority_get s st
          then if yield_requested then extract_next c (st\<lparr>sched_yield_req := False\<rparr>)
               else if preempt \<or> waiting (sch st prev) = Not_waiting
               then map_option (Pair Keep) (sched_dequeue prev (st\<lparr>cur := (cur st)(c := Some prev)\<rparr>))
               else extract_next c st
          else extract_next c st)"

text \<open>
  The decision about the tick: what is read under the lock of the run queue, then what is done. The
  pokes of a processor that finds no work of its own are bounded by the number of processors.
\<close>

definition ticker_pokes :: "nat \<Rightarrow> u32 \<Rightarrow> sched \<Rightarrow> nat list" where
  "ticker_pokes NCPU wake_mask st =
     filter (\<lambda>cpuid. bit wake_mask cpuid \<and> shared_cpu st AND wake_mask = 0
       \<and> (case cpu_idle st cpuid of None \<Rightarrow> False | Some idle \<Rightarrow> active (sch st idle))) [0..<NCPU]"

definition sched_ticker_update :: "nat \<Rightarrow> nat \<Rightarrow> sched \<Rightarrow> sched" where
  "sched_ticker_update NCPU c st =
     (if rq_nr_ready st = 0 then st\<lparr>ticking := False\<rparr>
      else case runq_get_next (cpu_mask c) (queue st, at st) of
        None \<Rightarrow>
          (let (other, (q, a)) = runq_get_next_ignore_affinity (queue st, at st);
               wake_mask = (case other of None \<Rightarrow> 0 | Some s \<Rightarrow> affinity (at st s))
           in st\<lparr>queue := q, at := a, ticking := False, ipis := ipis st @ ticker_pokes NCPU wake_mask st\<rparr>)
      | Some s \<Rightarrow>
          (case cur st c of None \<Rightarrow> st
           | Some me \<Rightarrow> if me \<noteq> s \<and> schedee_priority_get me st = schedee_priority_get s st
                       then st\<lparr>ticking := True\<rparr> else st))"

section \<open>What the operations do to the queue\<close>

definition qset :: "sched \<Rightarrow> sid set" where
  "qset st = set (level_order 256 (ra_level (queue st, at st)))"

definition q_ok :: "sched \<Rightarrow> bool" where
  "q_ok st \<longleftrightarrow> ra_inv (queue st, at st) \<and> rq_nr_ready st = int (card (qset st))
     \<and> (\<forall>s. priority (at st s) < 256 \<and> base_priority (sch st s) < 256)"

lemma upd_schedee_simps [simp]:
  "queue (upd_schedee s f st) = queue st" "at (upd_schedee s f st) = at st"
  "rq_nr_ready (upd_schedee s f st) = rq_nr_ready st" "cur (upd_schedee s f st) = cur st"
  "cpu_idle (upd_schedee s f st) = cpu_idle st" "sch (upd_schedee s f st) = (sch st)(s := f (sch st s))"
  by (simp_all add: upd_schedee_def)

lemma post_switch_simps [simp]:
  "queue (sched_post_switch c st) = queue st" "at (sched_post_switch c st) = at st"
  "rq_nr_ready (sched_post_switch c st) = rq_nr_ready st" "cur (sched_post_switch c st) = cur st"
  "cpu_idle (sched_post_switch c st) = cpu_idle st" "sch (sched_post_switch c st) = sch st"
  by (simp_all add: sched_post_switch_def)

lemma wakeup_remote_simps [simp]:
  "queue (sched_wakeup_remote n c s t st) = queue st" "at (sched_wakeup_remote n c s t st) = at st"
  "rq_nr_ready (sched_wakeup_remote n c s t st) = rq_nr_ready st" "cur (sched_wakeup_remote n c s t st) = cur st"
  "cpu_idle (sched_wakeup_remote n c s t st) = cpu_idle st" "sch (sched_wakeup_remote n c s t st) = sch st"
  by (simp_all add: sched_wakeup_remote_def Let_def split: option.split)

lemma check_preempt_simps [simp]:
  "queue (sched_check_preempt n c s st) = queue st" "at (sched_check_preempt n c s st) = at st"
  "rq_nr_ready (sched_check_preempt n c s st) = rq_nr_ready st" "cur (sched_check_preempt n c s st) = cur st"
  "cpu_idle (sched_check_preempt n c s st) = cpu_idle st" "sch (sched_check_preempt n c s st) = sch st"
  by (simp_all add: sched_check_preempt_def Let_def)

lemma ra_level_attrs: "ra_level (q, a) = ra_level (q, a')"
  by (simp add: ra_level_def)

lemma ra_inv_attrs: "(\<And>s. runq_prio (a s) = runq_prio (a' s)) \<Longrightarrow> ra_inv (q, a) = ra_inv (q, a')"
  by (simp add: ra_inv_def ra_level_attrs [of q a a'])

lemma qset_cong: "queue st = queue st' \<Longrightarrow> qset st = qset st'"
  by (simp add: qset_def ra_level_attrs [of _ "at st" "at st'"])

lemma qset_simps [simp]:
  "qset (upd_schedee s f st) = qset st" "qset (sched_check_preempt n c s st) = qset st"
  "qset (sched_post_switch c st) = qset st"
  by (simp_all add: qset_def)

lemma q_ok_cong:
  "queue st = queue st' \<Longrightarrow> at st = at st' \<Longrightarrow> rq_nr_ready st = rq_nr_ready st'
     \<Longrightarrow> (\<And>s. base_priority (sch st s) = base_priority (sch st' s)) \<Longrightarrow> q_ok st = q_ok st'"
  by (simp add: q_ok_def qset_cong [of st st'])

lemma q_ok_upd [simp]: "(\<And>x. base_priority (f x) = base_priority x) \<Longrightarrow> q_ok (upd_schedee s f st) = q_ok st"
  by (rule q_ok_cong) simp_all

lemma q_ok_check_preempt [simp]: "q_ok (sched_check_preempt n c s st) = q_ok st"
  by (rule q_ok_cong) simp_all

text \<open>The parts of the state that queue operations leave alone.\<close>

definition same_rest :: "sched \<Rightarrow> sched \<Rightarrow> bool" where
  "same_rest st st' \<longleftrightarrow> sch st' = sch st \<and> cpu_idle st' = cpu_idle st
     \<and> (\<forall>x. affinity (at st' x) = affinity (at st x) \<and> priority (at st' x) = priority (at st x))"

lemma runq_attrs:
  "affinity (snd (runq_insert s q) x) = affinity (snd q x)" "priority (snd (runq_insert s q) x) = priority (snd q x)"
  "snd (runq_remove s q) = snd q"
  by (auto simp: runq_insert_def runq_remove_def Let_def split: prod.split)

lemma sched_enqueue_ok:
  assumes "q_ok st" "s \<notin> qset st"
  shows "q_ok (sched_enqueue s st)" "qset (sched_enqueue s st) = insert s (qset st)"
    "same_rest st (sched_enqueue s st)" "cur (sched_enqueue s st) = cur st"
proof -
  obtain q a where e: "runq_insert s (queue st, at st) = (q, a)" by fastforce
  have i: "ra_inv (q, a)" "ra_level (q, a) = (ra_level (queue st, at st))(priority (at st s) := ra_level (queue st, at st) (priority (at st s)) @ [s])"
    using ra.insert_q [of "(queue st, at st)" s] assms e by (auto simp: q_ok_def qset_def attr_prio_def)
  have st': "sched_enqueue s st = st\<lparr>queue := q, at := a, rq_nr_ready := rq_nr_ready st + 1\<rparr>"
    by (simp add: sched_enqueue_def e)
  show r: "same_rest st (sched_enqueue s st)"
    using runq_attrs(1,2) [of s "(queue st, at st)"] unfolding st' e by (simp add: same_rest_def)
  have "priority (at st s) < 256" using assms(1) by (simp add: q_ok_def)
  then show qs: "qset (sched_enqueue s st) = insert s (qset st)"
    unfolding st' by (auto simp: qset_def i(2) set_level_order split: if_splits)
  show "cur (sched_enqueue s st) = cur st" by (simp add: st')
  have "card (insert s (qset st)) = Suc (card (qset st))" using assms(2) by (simp add: qset_def)
  then show "q_ok (sched_enqueue s st)"
    using assms(1) r qs i(1) unfolding q_ok_def same_rest_def by (simp add: st')
qed

lemma runq_remove_ok:
  assumes "q_ok st" "s \<in> qset st" "runq_remove s (queue st, at st) = (q, a)" "st' = st\<lparr>queue := q, at := a, rq_nr_ready := rq_nr_ready st - 1\<rparr>"
  shows "q_ok st'" "qset st' = qset st - {s}" "same_rest st st'" "cur st' = cur st" "rq_nr_ready st > 0"
proof -
  have i: "ra_inv (q, a)" "ra_level (q, a) = (\<lambda>p. removeAll s (ra_level (queue st, at st) p))" "a = at st"
    using ra.remove_q [of "(queue st, at st)" s] assms(1-3) runq_attrs(3) [of s "(queue st, at st)"]
    by (auto simp: q_ok_def qset_def)
  show r: "same_rest st st'" "cur st' = cur st" using i(3) by (simp_all add: assms(4) same_rest_def)
  show qs: "qset st' = qset st - {s}" by (simp add: assms(4) qset_def i(2) level_order_remove)
  have f: "finite (qset st)" by (simp add: qset_def)
  then show pos: "rq_nr_ready st > 0" using assms(1,2) by (auto simp: q_ok_def card_gt_0_iff)
  have "int (card (qset st - {s})) = int (card (qset st)) - 1"
    using f assms(2) card_Suc_Diff1 [of "qset st" s] by simp
  then show "q_ok st'" using assms(1) i qs unfolding q_ok_def by (simp add: assms(4))
qed

lemma sched_dequeue_ok:
  assumes "q_ok st" "s \<in> qset st"
  obtains st' where "sched_dequeue s st = Some st'" "q_ok st'" "qset st' = qset st - {s}" "same_rest st st'" "cur st' = cur st"
proof -
  obtain q a where e: "runq_remove s (queue st, at st) = (q, a)" by fastforce
  note r = runq_remove_ok [OF assms e refl]
  then have "sched_dequeue s st = Some (st\<lparr>queue := q, at := a, rq_nr_ready := rq_nr_ready st - 1\<rparr>)"
    by (simp add: sched_dequeue_def e)
  then show thesis using that r by blast
qed

lemma extract_next_ok:
  assumes "q_ok st" "t \<in> qset st" "sched_affinity_check (affinity (at st t)) (cpu_mask c)"
  obtains s st' where "extract_next c st = Some (Switch s, st')" "s \<in> qset st"
    "sched_affinity_check (affinity (at st s)) (cpu_mask c)"
    "q_ok st'" "qset st' = qset st - {s}" "same_rest st st'" "cur st' = (cur st)(c := Some s)"
proof -
  let ?q = "(queue st, at st)"
  have inv: "ra_inv ?q" using assms(1) by (simp add: q_ok_def)
  have el: "attr_eligible m ?q x = sched_affinity_check (affinity (at st x)) m" for m x by (simp add: attr_eligible_def)
  have "runq_get_next (cpu_mask c) ?q \<noteq> None"
    using ra.next_None [OF inv, of "cpu_mask c"] assms(2,3) by (auto simp: qset_def el)
  then obtain s where n: "runq_get_next (cpu_mask c) ?q = Some s" by auto
  then have f: "find (attr_eligible (cpu_mask c) ?q) (level_order 256 (ra_level ?q)) = Some s"
    by (simp add: runq_get_next_ref [OF inv])
  then have s: "s \<in> qset st" "sched_affinity_check (affinity (at st s)) (cpu_mask c)"
    unfolding find_Some_iff by (auto simp: qset_def el)
  obtain q a where e: "runq_remove s ?q = (q, a)" by fastforce
  define st1 where "st1 = st\<lparr>queue := q, at := a, rq_nr_ready := rq_nr_ready st - 1\<rparr>"
  define st' where "st' = st1\<lparr>cur := (cur st)(c := Some s)\<rparr>"
  note r = runq_remove_ok [OF assms(1) s(1) e st1_def]
  have x: "extract_next c st = Some (Switch s, st')"
    using r(5) by (simp add: extract_next_def runq_extract_def n e st'_def st1_def)
  have "q_ok st' = q_ok st1" "qset st' = qset st1"
    by (rule q_ok_cong qset_cong; simp add: st'_def)+
  moreover have "same_rest st st'" using r(3) by (simp add: same_rest_def st'_def)
  ultimately show thesis using that [OF x s] r by (simp add: st'_def)
qed

lemma set_prio_ok:
  assumes "q_ok st" "fst (f (base_priority (sch st s), priority (at st s))) < 256" "snd (f (base_priority (sch st s), priority (at st s))) < 256"
  shows "q_ok (set_prio f s st)" "qset (set_prio f s st) = qset st"
proof -
  show qs: "qset (set_prio f s st) = qset st" by (rule qset_cong) (simp add: set_prio_def Let_def)
  have "ra_inv (queue st, at (set_prio f s st)) = ra_inv (queue st, at st)"
    by (rule ra_inv_attrs) (simp add: set_prio_def Let_def)
  then show "q_ok (set_prio f s st)" using assms qs unfolding q_ok_def by (simp add: set_prio_def Let_def)
qed

end
