(* ===== verification/Sched_SMP.thy ===== *)
theory Sched_SMP
  imports Sched
begin

text \<open>
  The scheduler on several processors. \<^verbatim>\<open>schedule\<close> runs with \<^verbatim>\<open>sched_lock\<close> held, which on several
  processors is the big kernel lock; wake-ups do not take it, so they come in between at every point
  where \<^verbatim>\<open>__schedule\<close>, the context switch and \<^verbatim>\<open>__sched_deactivate\<close> do not hold the lock of the
  run queue or of the schedee. \<^verbatim>\<open>sched_change_priority\<close> takes the lock of the run queue only, so
  it comes in at the same points; \<^verbatim>\<open>thread_terminate\<close> freezes a schedee with the big lock held, its own
  or that of a thread which may be running. A step of the machine is a section between two such points.
\<close>

text \<open>
  Where the processor that holds the big lock stands inside \<^verbatim>\<open>schedule\<close>. \<open>Picked p y prev next\<close>: out of
  the loop's critical section with \<open>next\<close> extracted; \<open>p\<close> and \<open>y\<close> are the values of \<^verbatim>\<open>preempt\<close> and
  \<^verbatim>\<open>yield_requested\<close>. \<open>LtCleared\<close> and \<open>LtRun\<close>: inside \<^verbatim>\<open>lthread_do_process\<close>. \<open>Activated\<close>,
  \<open>Cleared\<close>, \<open>Woken\<close>: on the stack of \<open>next\<close>, before each of the three parts of \<^verbatim>\<open>__sched_deactivate\<close>.
  \<open>Dying s\<close>: the thread \<open>s\<close> has called \<^verbatim>\<open>thread_terminate\<close> on itself and still holds the big lock.
\<close>

datatype phase = Outside
  | Picked bool bool sid sid
  | LtCleared bool bool sid sid
  | LtRun bool bool sid
  | Activated sid sid
  | Cleared sid sid
  | Woken sid sid
  | Finishing sid
  | Dying sid

text \<open>
  Where a caller of \<^verbatim>\<open>sched_wakeup\<close> stands that holds the lock of a schedee: it has seen the schedee
  waiting; it has seen it not ready; it has stored \<^verbatim>\<open>TW_SMP_WAKING\<close>; it has then seen it inactive.
\<close>

datatype waker = No_waker | Seen | Not_ready | Marked | Inactive

text \<open>
  \<open>raced\<close> belongs to the proofs: it is set by a call that finds its schedee on its way to or on another
  processor, see \<open>smp_step\<close> below. No step depends on it.
\<close>

record smp =
  sys :: sched
  ph :: phase
  wk :: "sid \<Rightarrow> waker"
  bkl :: "nat option"
  raced :: bool

definition switching :: "smp \<Rightarrow> nat \<Rightarrow> bool" where
  "switching m c \<longleftrightarrow> ph m \<noteq> Outside \<and> bkl m = Some c"

definition runs_on :: "nat \<Rightarrow> smp \<Rightarrow> nat \<Rightarrow> sid \<Rightarrow> bool" where
  "runs_on N m c s \<longleftrightarrow> c < N \<and> \<not> switching m c \<and> cur (sys m) c = Some s"

definition is_idle :: "nat \<Rightarrow> smp \<Rightarrow> sid \<Rightarrow> bool" where
  "is_idle N m s \<longleftrightarrow> (\<exists>c<N. cpu_idle (sys m) c = Some s)"

text \<open>All processors in their idle threads, every other schedee freshly initialised.\<close>

definition smp_boot :: "nat \<Rightarrow> (sid \<Rightarrow> schedee_type) \<Rightarrow> (sid \<Rightarrow> nat) \<Rightarrow> (sid \<Rightarrow> u32) \<Rightarrow> smp" where
  "smp_boot N ty pr af =
     \<lparr>sys = \<lparr>queue = runq_init,
        at = (\<lambda>s. if s < N then \<lparr>priority = SCHED_PRIORITY_MIN, runq_prio = SCHED_PRIORITY_MIN, affinity = cpu_mask s\<rparr>
                  else \<lparr>priority = pr s, runq_prio = pr s, affinity = af s\<rparr>),
        sch = (\<lambda>s. if s < N then \<lparr>s_type = SCHEDEE_THREAD, active = True, ready = True, waiting = Not_waiting,
                    released = False, finished = False, base_priority = SCHED_PRIORITY_MIN\<rparr>
                  else \<lparr>s_type = ty s, active = False, ready = False, waiting = Waiting,
                    released = True, finished = False, base_priority = pr s\<rparr>),
        rq_nr_ready = 0, cur = (\<lambda>c. if c < N then Some c else None), cpu_idle = (\<lambda>c. if c < N then Some c else None),
        resched_sent = (\<lambda>_. False), sched_yield_req = False, pending = (\<lambda>_. False),
        ticking = False, shared_cpu = 0, ipis = []\<rparr>,
      ph = Outside, wk = (\<lambda>_. No_waker), bkl = None, raced = False\<rparr>"

fun after_pick :: "bool \<Rightarrow> bool \<Rightarrow> sid \<Rightarrow> choice \<Rightarrow> phase" where
  "after_pick p y prev Keep = Finishing prev"
| "after_pick p y prev (Switch s) = Picked p y prev s"

text \<open>The schedees whose stack the processor inside \<^verbatim>\<open>schedule\<close> uses.\<close>

fun ph_on :: "phase \<Rightarrow> sid set" where
  "ph_on Outside = {}"
| "ph_on (Picked p y prev s) = {prev}"
| "ph_on (LtCleared p y prev s) = {prev}"
| "ph_on (LtRun p y prev) = {prev}"
| "ph_on (Activated prev s) = {prev, s}"
| "ph_on (Cleared prev s) = {s}"
| "ph_on (Woken prev s) = {s}"
| "ph_on (Finishing s) = {s}"
| "ph_on (Dying s) = {s}"

definition on_cpu :: "nat \<Rightarrow> smp \<Rightarrow> sid \<Rightarrow> bool" where
  "on_cpu N m s \<longleftrightarrow> (\<exists>c<N. runs_on N m c s) \<or> s \<in> ph_on (ph m)"

text \<open>Out of the run queue, but not yet marked as active or, a light thread, as not ready.\<close>

fun extracted :: "phase \<Rightarrow> sid \<Rightarrow> bool" where
  "extracted (Picked p y prev s) x = (x = s \<and> s \<noteq> prev)"
| "extracted _ x = False"

text \<open>A processor that runs code of a thread, of a light thread or of a thread that ends itself.\<close>

fun between_turns :: "phase \<Rightarrow> bool" where
  "between_turns (LtRun p y prev) = True"
| "between_turns (Dying s) = True"
| "between_turns _ = False"

definition free_cpu :: "smp \<Rightarrow> nat \<Rightarrow> bool" where
  "free_cpu m c \<longleftrightarrow> \<not> switching m c \<or> between_turns (ph m)"

text \<open>
  The steps. \<open>prio\<close> needs no big lock and comes in at any time; the processor that makes it is not itself
  inside \<^verbatim>\<open>schedule\<close>, except in the code of a light thread. \<open>freeze\<close> is \<^verbatim>\<open>thread_terminate\<close> of
  another thread after its \<^verbatim>\<open>sched_finished\<close>, \<open>die\<close> that of the calling thread, which then enters
  \<^verbatim>\<open>schedule\<close> (\<open>die_enter\<close>, the way of \<^verbatim>\<open>task_exit\<close>) or drops the lock and runs on
  (\<open>die_unlock\<close>, the way of \<^verbatim>\<open>thread_cancel\<close> on itself). Idle threads neither wait nor end themselves.
  Four calls set \<open>raced\<close>: a priority change of a schedee that is extracted and not yet active, a freeze of a
  schedee that is on a processor, a freeze of an idle thread, and \<open>die_unlock\<close>. The first of them removes
  a schedee from a list that it is not in; its links are then those it had when it was extracted, and
  \<^const>\<open>runq_remove\<close> describes that only as long as its former neighbours have not changed.
\<close>

inductive smp_step :: "nat \<Rightarrow> smp \<Rightarrow> smp \<Rightarrow> bool" for N where
  lock: "c < N \<Longrightarrow> bkl m = None \<Longrightarrow> smp_step N m (m\<lparr>bkl := Some c\<rparr>)"
| unlock: "ph m = Outside \<Longrightarrow> smp_step N m (m\<lparr>bkl := None\<rparr>)"
| prepare: "runs_on N m c s \<Longrightarrow> \<not> is_idle N m s \<Longrightarrow> smp_step N m (m\<lparr>sys := sched_wait_prepare c (sys m)\<rparr>)"
| cleanup: "runs_on N m c s \<Longrightarrow> smp_step N m (m\<lparr>sys := sched_wait_cleanup c (sys m)\<rparr>)"
| finish: "smp_step N m (m\<lparr>sys := sched_finished s (sys m)\<rparr>)"
| post: "runs_on N m c s \<Longrightarrow> smp_step N m (m\<lparr>sys := sched_post_switch c (sys m)\<rparr>)"
| prio: "c < N \<Longrightarrow> free_cpu m c \<Longrightarrow> prior < 256 \<Longrightarrow>
    setter \<in> {priority_set, priority_inherit, priority_reverse} \<Longrightarrow>
    sched_change_priority N c s prior setter (sys m) = Some st \<Longrightarrow>
    smp_step N m (m\<lparr>sys := st, raced := raced m \<or> extracted (ph m) s\<rparr>)"
| freeze: "bkl m = Some c \<Longrightarrow> free_cpu m c \<Longrightarrow> wk m s = No_waker \<Longrightarrow> \<not> runs_on N m c s \<Longrightarrow>
    finished (sch (sys m) s) \<Longrightarrow> sched_freeze s (sys m) = Some st \<Longrightarrow>
    smp_step N m (m\<lparr>sys := st, raced := raced m \<or> on_cpu N m s \<or> is_idle N m s\<rparr>)"
| die: "bkl m = Some c \<Longrightarrow> runs_on N m c s \<Longrightarrow> \<not> is_idle N m s \<Longrightarrow> wk m s = No_waker \<Longrightarrow>
    finished (sch (sys m) s) \<Longrightarrow> sched_freeze s (sys m) = Some st \<Longrightarrow>
    smp_step N m (m\<lparr>sys := upd_schedee s (\<lambda>x. x\<lparr>waiting := Waiting\<rparr>) st, ph := Dying s\<rparr>)"
| die_unlock: "ph m = Dying s \<Longrightarrow> smp_step N m (m\<lparr>ph := Outside, bkl := None, raced := True\<rparr>)"
| die_enter: "bkl m = Some c \<Longrightarrow> ph m = Dying prev \<Longrightarrow> schedule_enter c False prev (sys m) = (y, st) \<Longrightarrow>
    schedule_pick c False y prev st = Some (ch, st') \<Longrightarrow>
    smp_step N m (m\<lparr>sys := st', ph := after_pick False y prev ch\<rparr>)"
| enter: "bkl m = Some c \<Longrightarrow> runs_on N m c prev \<Longrightarrow> schedule_enter c p prev (sys m) = (y, st) \<Longrightarrow>
    schedule_pick c p y prev st = Some (ch, st') \<Longrightarrow>
    smp_step N m (m\<lparr>sys := st', ph := after_pick p y prev ch\<rparr>)"
| again: "bkl m = Some c \<Longrightarrow> ph m = LtRun p y prev \<Longrightarrow> schedule_pick c p y prev (sys m) = Some (ch, st) \<Longrightarrow>
    smp_step N m (m\<lparr>sys := st, ph := after_pick p y prev ch\<rparr>)"
| light: "ph m = Picked p y prev s \<Longrightarrow> \<not> schedee_is_thread s (sys m) \<Longrightarrow>
    smp_step N m (m\<lparr>sys := lthread_clear_ready s (sys m), ph := LtCleared p y prev s\<rparr>)"
| light_run: "ph m = LtCleared p y prev s \<Longrightarrow>
    smp_step N m (m\<lparr>sys := lthread_set_waiting s (sys m), ph := LtRun p y prev\<rparr>)"
| same: "ph m = Picked p y s s \<Longrightarrow> schedee_is_thread s (sys m) \<Longrightarrow> smp_step N m (m\<lparr>ph := Finishing s\<rparr>)"
| activate: "ph m = Picked p y prev s \<Longrightarrow> schedee_is_thread s (sys m) \<Longrightarrow> s \<noteq> prev \<Longrightarrow>
    smp_step N m (m\<lparr>sys := sched_start_switch s (sys m), ph := Activated prev s\<rparr>)"
| clear: "ph m = Activated prev s \<Longrightarrow> smp_step N m (m\<lparr>sys := deactivate_clear prev (sys m), ph := Cleared prev s\<rparr>)"
| wake: "ph m = Cleared prev s \<Longrightarrow> wk m prev = No_waker \<Longrightarrow> bkl m = Some c \<Longrightarrow>
    deactivate_wake N c prev (sys m) = Some st \<Longrightarrow> smp_step N m (m\<lparr>sys := st, ph := Woken prev s\<rparr>)"
| release: "ph m = Woken prev s \<Longrightarrow> smp_step N m (m\<lparr>sys := deactivate_release prev (sys m), ph := Finishing s\<rparr>)"
| tick: "ph m = Finishing s \<Longrightarrow> bkl m = Some c \<Longrightarrow>
    smp_step N m (m\<lparr>sys := sched_ticker_update N c (sys m), ph := Outside\<rparr>)"
| first: "ph m = Finishing s \<Longrightarrow> smp_step N m (m\<lparr>sys := (sys m)\<lparr>ticking := True\<rparr>, ph := Outside\<rparr>)"
| w_see: "wk m s = No_waker \<Longrightarrow> was_waiting s (sys m) \<Longrightarrow> smp_step N m (m\<lparr>wk := (wk m)(s := Seen)\<rparr>)"
| w_ready: "wk m s = Seen \<Longrightarrow> sched_wakeup_ready s (sys m) = (r, st) \<Longrightarrow>
    smp_step N m (m\<lparr>sys := st, wk := (wk m)(s := if r then No_waker else Not_ready)\<rparr>)"
| w_mark: "wk m s = Not_ready \<Longrightarrow> smp_step N m (m\<lparr>sys := wakeup_mark s (sys m), wk := (wk m)(s := Marked)\<rparr>)"
| w_check: "wk m s = Marked \<Longrightarrow>
    smp_step N m (m\<lparr>wk := (wk m)(s := if active (sch (sys m) s) then No_waker else Inactive)\<rparr>)"
| w_wake: "wk m s = Inactive \<Longrightarrow> c < N \<Longrightarrow> sched_wakeup_waiting N c s (sys m) = Some st \<Longrightarrow>
    smp_step N m (m\<lparr>sys := st, wk := (wk m)(s := No_waker)\<rparr>)"

inductive smp_reach :: "nat \<Rightarrow> smp \<Rightarrow> bool" for N where
  boot: "N \<le> 32 \<Longrightarrow> (\<forall>s. pr s < 256) \<Longrightarrow> smp_reach N (smp_boot N ty pr af)"
| step: "smp_reach N m \<Longrightarrow> smp_step N m m' \<Longrightarrow> smp_reach N m'"

section \<open>The invariant\<close>

definition runs :: "nat \<Rightarrow> smp \<Rightarrow> sid set" where
  "runs N m = {s. \<exists>c. runs_on N m c s}"

text \<open>Ready but not queued on behalf of the processor that switches; and on its stack.\<close>

fun ph_held :: "phase \<Rightarrow> sid set" where
  "ph_held (Picked p y prev s) = {s}"
| "ph_held (Activated prev s) = {s}"
| "ph_held (Cleared prev s) = {s}"
| "ph_held (Woken prev s) = {s}"
| "ph_held (Finishing s) = {s}"
| "ph_held _ = {}"

fun ph_cleared :: "phase \<Rightarrow> sid \<Rightarrow> bool" where
  "ph_cleared (Cleared prev s) x = (x = prev)"
| "ph_cleared _ x = False"

fun ph_lt :: "phase \<Rightarrow> sid \<Rightarrow> bool" where
  "ph_lt (LtCleared p y prev s) x = (x = s)"
| "ph_lt _ x = False"

text \<open>What the scheduler fields of a schedee and its waker may look like.\<close>

definition wait_ok :: "schedee \<Rightarrow> waker \<Rightarrow> bool \<Rightarrow> bool \<Rightarrow> bool" where
  "wait_ok x w lt cl \<longleftrightarrow>
     (waiting x = Not_waiting \<longrightarrow> ready x \<or> finished x \<and> \<not> active x \<or> lt)
   \<and> (waiting x = TW_SMP_WAKING \<longrightarrow> \<not> ready x \<and> (finished x \<or> active x \<or> cl \<or> w = Marked \<or> w = Inactive))
   \<and> (w = Seen \<longrightarrow> waiting x = Waiting \<or> ready x \<and> s_type x = SCHEDEE_THREAD)
   \<and> (w = Not_ready \<longrightarrow> \<not> ready x \<and> waiting x = Waiting)
   \<and> (w = Marked \<longrightarrow> \<not> ready x \<and> waiting x = TW_SMP_WAKING)
   \<and> (w = Inactive \<longrightarrow> \<not> ready x \<and> \<not> active x \<and> waiting x = TW_SMP_WAKING)
   \<and> (s_type x = SCHEDEE_LTHREAD \<and> ready x \<longrightarrow> waiting x = Not_waiting)"

fun ph_ok :: "sched \<Rightarrow> nat \<Rightarrow> phase \<Rightarrow> bool" where
  "ph_ok st c Outside = True"
| "ph_ok st c (Picked p y prev s) = (cur st c = Some s \<and> (p \<longrightarrow> ready (sch st prev)))"
| "ph_ok st c (LtCleared p y prev s) = (\<not> schedee_is_thread s st \<and> (p \<longrightarrow> ready (sch st prev)) \<and> cur st c \<noteq> None
     \<and> \<not> ready (sch st s) \<and> waiting (sch st s) = Not_waiting)"
| "ph_ok st c (LtRun p y prev) = ((p \<longrightarrow> ready (sch st prev)) \<and> cur st c \<noteq> None)"
| "ph_ok st c (Activated prev s) = (prev \<noteq> s \<and> cur st c = Some s)"
| "ph_ok st c (Cleared prev s) = (prev \<noteq> s \<and> cur st c = Some s)"
| "ph_ok st c (Woken prev s) = (prev \<noteq> s \<and> cur st c = Some s)"
| "ph_ok st c (Finishing s) = (cur st c = Some s)"
| "ph_ok st c (Dying s) = (cur st c = Some s \<and> \<not> active (sch st s))"

definition may_run :: "sched \<Rightarrow> nat \<Rightarrow> sid \<Rightarrow> bool" where
  "may_run st c s \<longleftrightarrow> sched_affinity_check (affinity (at st s)) (cpu_mask c)"

text \<open>The sets: queued, running, held and on a stack.\<close>

definition sets_ok :: "sched \<Rightarrow> sid set \<Rightarrow> phase \<Rightarrow> bool" where
  "sets_ok st R p \<longleftrightarrow> q_ok st
     \<and> {s. ready (sch st s)} = qset st \<union> R \<union> ph_held p
     \<and> R \<subseteq> {s. active (sch st s)} \<and> {s. active (sch st s)} \<subseteq> R \<union> ph_on p
     \<and> R \<inter> qset st = {} \<and> R \<inter> ph_held p = {} \<and> R \<inter> ph_on p = {} \<and> qset st \<inter> ph_held p = {}
     \<and> (\<forall>s \<in> R \<union> ph_on p. schedee_is_thread s st)"

definition cpus_ok :: "nat \<Rightarrow> smp \<Rightarrow> bool" where
  "cpus_ok N m \<longleftrightarrow> (\<forall>c<N. cur (sys m) c \<noteq> None)
     \<and> (\<forall>c d s. runs_on N m c s \<and> runs_on N m d s \<longrightarrow> c = d)
     \<and> (\<forall>c s. runs_on N m c s \<longrightarrow> may_run (sys m) c s)
     \<and> (ph m \<noteq> Outside \<longrightarrow> (\<exists>c<N. bkl m = Some c \<and> ph_ok (sys m) c (ph m)
          \<and> (\<forall>s \<in> ph_held (ph m) \<union> ph_on (ph m). may_run (sys m) c s)))"

definition idle_ok :: "nat \<Rightarrow> sched \<Rightarrow> bool" where
  "idle_ok N st \<longleftrightarrow> (\<forall>c<N. \<exists>i. cpu_idle st c = Some i \<and> ready (sch st i) \<and> waiting (sch st i) = Not_waiting
     \<and> schedee_is_thread i st \<and> (\<forall>d<N. may_run st d i \<longleftrightarrow> d = c))"

text \<open>A schedee on the stack in use is active unless it has ended itself; then nothing wakes it up.\<close>

definition ended :: "schedee \<Rightarrow> waker \<Rightarrow> bool" where
  "ended x w \<longleftrightarrow> finished x \<and> \<not> ready x \<and> waiting x = Waiting \<and> w = No_waker"

definition on_ok :: "smp \<Rightarrow> bool" where
  "on_ok m \<longleftrightarrow> (\<forall>s \<in> ph_on (ph m). active (sch (sys m) s) \<or> ended (sch (sys m) s) (wk m s))"

definition smp_inv :: "nat \<Rightarrow> smp \<Rightarrow> bool" where
  "smp_inv N m \<longleftrightarrow> sets_ok (sys m) (runs N m) (ph m) \<and> cpus_ok N m \<and> idle_ok N (sys m) \<and> on_ok m
     \<and> (\<forall>s. wait_ok (sch (sys m) s) (wk m s) (ph_lt (ph m) s) (ph_cleared (ph m) s))"

lemma smp_invD:
  assumes "smp_inv N m"
  shows "sets_ok (sys m) (runs N m) (ph m)" "cpus_ok N m" "idle_ok N (sys m)"
    "wait_ok (sch (sys m) s) (wk m s) (ph_lt (ph m) s) (ph_cleared (ph m) s)" "on_ok m"
  using assms by (simp_all add: smp_inv_def)

lemma cpus_okD:
  assumes "cpus_ok N m"
  shows "\<And>c. c < N \<Longrightarrow> cur (sys m) c \<noteq> None" "\<And>c d s. runs_on N m c s \<Longrightarrow> runs_on N m d s \<Longrightarrow> c = d"
    "\<And>c s. runs_on N m c s \<Longrightarrow> may_run (sys m) c s"
  using assms unfolding cpus_ok_def by blast+

lemma cpus_ok_switchD:
  assumes "cpus_ok N m" "ph m \<noteq> Outside" "bkl m = Some c"
  shows "c < N" "ph_ok (sys m) c (ph m)" "\<And>s. s \<in> ph_held (ph m) \<union> ph_on (ph m) \<Longrightarrow> may_run (sys m) c s"
proof -
  obtain d where "d < N" "bkl m = Some d" "ph_ok (sys m) d (ph m)" "\<forall>s \<in> ph_held (ph m) \<union> ph_on (ph m). may_run (sys m) d s"
    using assms(1,2) unfolding cpus_ok_def by blast
  then show "c < N" "ph_ok (sys m) c (ph m)" "\<And>s. s \<in> ph_held (ph m) \<union> ph_on (ph m) \<Longrightarrow> may_run (sys m) c s"
    using assms(3) by simp_all
qed

lemma runs_on_cong:
  "cur (sys m') = cur (sys m) \<Longrightarrow> (ph m' = Outside) = (ph m = Outside) \<Longrightarrow> bkl m' = bkl m \<Longrightarrow> runs_on N m' = runs_on N m"
  by (auto simp: runs_on_def switching_def fun_eq_iff)

lemma sets_ok_readyD:
  assumes "sets_ok st R p"
  shows "ready (sch st s) \<longleftrightarrow> s \<in> qset st \<or> s \<in> R \<or> s \<in> ph_held p" "active (sch st s) \<Longrightarrow> s \<in> R \<or> s \<in> ph_on p"
    "s \<in> R \<Longrightarrow> active (sch st s)"
  using assms by (auto simp: sets_ok_def set_eq_iff)

lemma sets_ok_transfer:
  assumes "sets_ok st R p" "q_ok st'" "qset st' = qset st" "ph_held p' = ph_held p" "ph_on p' = ph_on p"
    "\<And>x. s_type (sch st' x) = s_type (sch st x) \<and> ready (sch st' x) = ready (sch st x) \<and> active (sch st' x) = active (sch st x)"
  shows "sets_ok st' R p'"
  using assms unfolding sets_ok_def by (simp add: schedee_is_thread_def)

lemma ph_ok_transfer:
  assumes "ph_ok st c p" "cur st' = cur st" "\<And>x. s_type (sch st' x) = s_type (sch st x)" "\<And>x. active (sch st' x) = active (sch st x)"
    "\<And>x. ready (sch st x) \<Longrightarrow> ready (sch st' x)" "\<And>x. ph_lt p x \<Longrightarrow> waiting (sch st' x) = Not_waiting \<and> \<not> ready (sch st' x)"
  shows "ph_ok st' c p"
  using assms by (cases p) (auto simp: schedee_is_thread_def)

lemma idle_ok_transfer:
  assumes "idle_ok N (sys m)" "cpu_idle st = cpu_idle (sys m)" "\<And>x. affinity (at st x) = affinity (at (sys m) x)"
    "\<And>x. s_type (sch st x) = s_type (sch (sys m) x)"
    "\<And>i. is_idle N m i \<Longrightarrow> ready (sch (sys m) i) \<Longrightarrow> waiting (sch (sys m) i) = Not_waiting \<Longrightarrow>
       ready (sch st i) \<and> waiting (sch st i) = Not_waiting"
  shows "idle_ok N st"
  unfolding idle_ok_def
proof (intro allI impI)
  fix c assume c: "c < N"
  then obtain i where i: "cpu_idle (sys m) c = Some i" "ready (sch (sys m) i)" "waiting (sch (sys m) i) = Not_waiting"
    "schedee_is_thread i (sys m)" "\<forall>d<N. may_run (sys m) d i \<longleftrightarrow> d = c"
    using assms(1) unfolding idle_ok_def by blast
  have "is_idle N m i" using c i(1) by (auto simp: is_idle_def)
  then show "\<exists>i. cpu_idle st c = Some i \<and> ready (sch st i) \<and> waiting (sch st i) = Not_waiting
     \<and> schedee_is_thread i st \<and> (\<forall>d<N. may_run st d i \<longleftrightarrow> d = c)"
    using i assms(2-4) assms(5) [of i] by (intro exI [of _ i]) (simp add: schedee_is_thread_def may_run_def)
qed

text \<open>Steps that move nothing between the sets.\<close>

lemma inv_quiet:
  assumes inv: "smp_inv N m" and m': "ph m' = ph m" "bkl m' = bkl m"
    and st: "queue (sys m') = queue (sys m)" "at (sys m') = at (sys m)" "rq_nr_ready (sys m') = rq_nr_ready (sys m)"
      "cur (sys m') = cur (sys m)" "cpu_idle (sys m') = cpu_idle (sys m)"
    and same: "\<And>x. s_type (sch (sys m') x) = s_type (sch (sys m) x) \<and> ready (sch (sys m') x) = ready (sch (sys m) x)
        \<and> active (sch (sys m') x) = active (sch (sys m) x) \<and> base_priority (sch (sys m') x) = base_priority (sch (sys m) x)"
    and w: "\<And>x. wait_ok (sch (sys m') x) (wk m' x) (ph_lt (ph m) x) (ph_cleared (ph m) x)"
    and idle: "\<And>i. is_idle N m i \<Longrightarrow> waiting (sch (sys m) i) = Not_waiting \<Longrightarrow> waiting (sch (sys m') i) = Not_waiting"
    and lt: "\<And>x. ph_lt (ph m) x \<Longrightarrow> waiting (sch (sys m) x) = Not_waiting \<Longrightarrow> waiting (sch (sys m') x) = Not_waiting"
    and dd: "\<And>x. ended (sch (sys m) x) (wk m x) \<Longrightarrow> ended (sch (sys m') x) (wk m' x)"
  shows "smp_inv N m'"
proof -
  have r: "runs_on N m' = runs_on N m" using m' st(4) by (intro runs_on_cong) simp_all
  have q: "qset (sys m') = qset (sys m)" using st(1) by (rule qset_cong)
  have qo: "q_ok (sys m') = q_ok (sys m)" using st same by (intro q_ok_cong) simp_all
  have "sets_ok (sys m') (runs N m') (ph m')"
    using smp_invD(1) [OF inv] sets_ok_transfer [of "sys m" "runs N m" "ph m" "sys m'" "ph m'"] same q qo m' r
    by (simp add: runs_def sets_ok_def)
  moreover have "cpus_ok N m'"
  proof -
    have "ph_ok (sys m') c (ph m)" if "ph_ok (sys m) c (ph m)" for c
      by (rule ph_ok_transfer [OF that]) (use that same st lt in \<open>auto elim!: ph_lt.elims\<close>)
    then show ?thesis using smp_invD(2) [OF inv] st m' r unfolding cpus_ok_def may_run_def by auto
  qed
  moreover have "idle_ok N (sys m')"
    using smp_invD(3) [OF inv] idle same st unfolding idle_ok_def may_run_def schedee_is_thread_def is_idle_def by fastforce
  moreover have "on_ok m'" using smp_invD(5) [OF inv] dd same by (simp add: on_ok_def m') blast
  ultimately show ?thesis using w m' by (simp add: smp_inv_def)
qed

lemma runs_onD:
  assumes "smp_inv N m" "runs_on N m c s"
  shows "ready (sch (sys m) s)" "active (sch (sys m) s)" "s_type (sch (sys m) s) = SCHEDEE_THREAD" "s \<notin> qset (sys m)"
    "cur (sys m) c = Some s" "c < N"
proof -
  have "s \<in> runs N m" using assms(2) by (auto simp: runs_def)
  then show "ready (sch (sys m) s)" "active (sch (sys m) s)" "s_type (sch (sys m) s) = SCHEDEE_THREAD" "s \<notin> qset (sys m)"
    using smp_invD(1) [OF assms(1)] sets_ok_readyD [OF smp_invD(1) [OF assms(1)]]
    by (auto simp: sets_ok_def schedee_is_thread_def)
  show "cur (sys m) c = Some s" "c < N" using assms(2) by (simp_all add: runs_on_def)
qed

lemma wait_ok_running: "ready x \<Longrightarrow> s_type x = SCHEDEE_THREAD \<Longrightarrow> wait_ok x w lt cl \<Longrightarrow> wait_ok (x\<lparr>waiting := Waiting\<rparr>) w lt cl"
  "ready x \<Longrightarrow> s_type x = SCHEDEE_THREAD \<Longrightarrow> wait_ok x w lt cl \<Longrightarrow> wait_ok (x\<lparr>waiting := Not_waiting\<rparr>) w lt cl"
  by (auto simp: wait_ok_def)

lemma wait_ok_ready: "wait_ok x w lt cl \<Longrightarrow> active x \<Longrightarrow> \<not> lt \<Longrightarrow> waiting x = Not_waiting \<Longrightarrow> ready x"
  by (simp add: wait_ok_def)

lemma ph_ltD: "cpus_ok N m \<Longrightarrow> ph_lt (ph m) x \<Longrightarrow> \<not> ready (sch (sys m) x) \<and> waiting (sch (sys m) x) = Not_waiting
    \<and> s_type (sch (sys m) x) = SCHEDEE_LTHREAD"
  by (cases "s_type (sch (sys m) x)") (auto elim!: ph_lt.elims simp: cpus_ok_def schedee_is_thread_def)

lemma idle_readyD: "idle_ok N (sys m) \<Longrightarrow> is_idle N m i \<Longrightarrow> ready (sch (sys m) i) \<and> waiting (sch (sys m) i) = Not_waiting"
  by (force simp: idle_ok_def is_idle_def)

lemma inv_upd:
  assumes inv: "smp_inv N m" and m': "m' = m\<lparr>sys := upd_schedee s f (sys m), wk := (wk m)(s := w)\<rparr>"
    and same: "\<And>x. s_type (f x) = s_type x" "\<And>x. ready (f x) = ready x" "\<And>x. active (f x) = active x"
      "\<And>x. base_priority (f x) = base_priority x"
    and ok: "wait_ok (f (sch (sys m) s)) w (ph_lt (ph m) s) (ph_cleared (ph m) s)"
    and nw: "is_idle N m s \<or> ph_lt (ph m) s \<Longrightarrow> waiting (sch (sys m) s) = Not_waiting \<Longrightarrow> waiting (f (sch (sys m) s)) = Not_waiting"
    and dd: "ended (sch (sys m) s) (wk m s) \<Longrightarrow> ended (f (sch (sys m) s)) w"
  shows "smp_inv N m'"
proof (rule inv_quiet [OF inv])
  show "wait_ok (sch (sys m') x) (wk m' x) (ph_lt (ph m) x) (ph_cleared (ph m) x)" for x
    using ok smp_invD(4) [OF inv, of x] by (cases "x = s") (simp_all add: m')
  show "ended (sch (sys m') x) (wk m' x)" if "ended (sch (sys m) x) (wk m x)" for x
    using dd that by (cases "x = s") (simp_all add: m')
qed (use nw in \<open>auto simp: m' same\<close>)

lemma prepare_inv:
  assumes inv: "smp_inv N m" and r: "runs_on N m c s" and i: "\<not> is_idle N m s"
  shows "smp_inv N (m\<lparr>sys := sched_wait_prepare c (sys m)\<rparr>)"
proof (rule inv_upd [OF inv, where s = s and f = "\<lambda>x. x\<lparr>waiting := Waiting\<rparr>" and w = "wk m s"])
  note d = runs_onD [OF inv r]
  show "m\<lparr>sys := sched_wait_prepare c (sys m)\<rparr> = m\<lparr>sys := upd_schedee s (\<lambda>x. x\<lparr>waiting := Waiting\<rparr>) (sys m), wk := (wk m)(s := wk m s)\<rparr>"
    by (simp add: sched_wait_prepare_def d)
  show "wait_ok ((sch (sys m) s)\<lparr>waiting := Waiting\<rparr>) (wk m s) (ph_lt (ph m) s) (ph_cleared (ph m) s)"
    using wait_ok_running(1) [OF d(1,3) smp_invD(4) [OF inv]] .
qed (use i ph_ltD [OF smp_invD(2) [OF inv], of s] runs_onD(1) [OF inv r] in \<open>auto simp: ended_def\<close>)

lemma cleanup_inv:
  assumes inv: "smp_inv N m" and r: "runs_on N m c s"
  shows "smp_inv N (m\<lparr>sys := sched_wait_cleanup c (sys m)\<rparr>)"
proof (rule inv_upd [OF inv, where s = s and f = "\<lambda>x. x\<lparr>waiting := Not_waiting\<rparr>" and w = "wk m s"])
  note d = runs_onD [OF inv r]
  show "m\<lparr>sys := sched_wait_cleanup c (sys m)\<rparr> = m\<lparr>sys := upd_schedee s (\<lambda>x. x\<lparr>waiting := Not_waiting\<rparr>) (sys m), wk := (wk m)(s := wk m s)\<rparr>"
    by (simp add: sched_wait_cleanup_def d)
  show "wait_ok ((sch (sys m) s)\<lparr>waiting := Not_waiting\<rparr>) (wk m s) (ph_lt (ph m) s) (ph_cleared (ph m) s)"
    using wait_ok_running(2) [OF d(1,3) smp_invD(4) [OF inv]] .
qed (use runs_onD(1) [OF inv r] in \<open>auto simp: ended_def\<close>)

lemma finish_inv:
  assumes inv: "smp_inv N m"
  shows "smp_inv N (m\<lparr>sys := sched_finished s (sys m)\<rparr>)"
  by (rule inv_upd [OF inv, where s = s and f = "\<lambda>x. x\<lparr>finished := True\<rparr>" and w = "wk m s"])
    (use smp_invD(4) [OF inv, of s] in \<open>auto simp: sched_finished_def wait_ok_def ended_def\<close>)

lemma post_inv: "smp_inv N m \<Longrightarrow> smp_inv N (m\<lparr>sys := sched_post_switch c (sys m)\<rparr>)"
  by (rule inv_quiet) (simp_all add: smp_inv_def)

lemma upd_schedee_id [simp]: "upd_schedee s (\<lambda>x. x) st = st"
  by (simp add: upd_schedee_def)

lemma w_see_inv:
  assumes inv: "smp_inv N m" and "wk m s = No_waker" "was_waiting s (sys m)"
  shows "smp_inv N (m\<lparr>wk := (wk m)(s := Seen)\<rparr>)"
  by (rule inv_upd [OF inv, where s = s and f = "\<lambda>x. x" and w = Seen])
    (use smp_invD(4) [OF inv, of s] assms in \<open>auto simp: was_waiting_def wait_ok_def ended_def\<close>)

lemma w_ready_inv:
  assumes inv: "smp_inv N m" and w: "wk m s = Seen" and e: "sched_wakeup_ready s (sys m) = (r, st)"
  shows "smp_inv N (m\<lparr>sys := st, wk := (wk m)(s := if r then No_waker else Not_ready)\<rparr>)"
proof (cases "ready (sch (sys m) s)")
  case True
  show ?thesis
    by (rule inv_upd [OF inv, where s = s and f = "\<lambda>x. x\<lparr>waiting := Not_waiting\<rparr>" and w = No_waker])
      (use True w e smp_invD(4) [OF inv, of s] in \<open>auto simp: sched_wakeup_ready_def wait_ok_def ended_def\<close>)
next
  case False
  show ?thesis
    by (rule inv_upd [OF inv, where s = s and f = "\<lambda>x. x" and w = Not_ready])
      (use False w e smp_invD(4) [OF inv, of s] in \<open>auto simp: sched_wakeup_ready_def wait_ok_def ended_def\<close>)
qed

lemma w_mark_inv:
  assumes inv: "smp_inv N m" and w: "wk m s = Not_ready"
  shows "smp_inv N (m\<lparr>sys := wakeup_mark s (sys m), wk := (wk m)(s := Marked)\<rparr>)"
  by (rule inv_upd [OF inv, where s = s and f = "\<lambda>x. x\<lparr>waiting := TW_SMP_WAKING\<rparr>" and w = Marked])
    (use w smp_invD(4) [OF inv, of s] in \<open>auto simp: wakeup_mark_def wait_ok_def ended_def\<close>)

lemma w_check_inv:
  assumes inv: "smp_inv N m" and w: "wk m s = Marked"
  shows "smp_inv N (m\<lparr>wk := (wk m)(s := if active (sch (sys m) s) then No_waker else Inactive)\<rparr>)"
  by (rule inv_upd [OF inv, where s = s and f = "\<lambda>x. x" and w = "if active (sch (sys m) s) then No_waker else Inactive"])
    (use w smp_invD(4) [OF inv, of s] in \<open>auto simp: wait_ok_def ended_def\<close>)

text \<open>A wake-up that puts the schedee on the queue, by a waker or at the end of the switch.\<close>

lemma inv_enqueue:
  assumes inv: "smp_inv N m" and nr: "\<not> ready (sch (sys m) s)" "\<not> active (sch (sys m) s)"
    and wt: "waiting (sch (sys m) s) = TW_SMP_WAKING" and e: "sched_wakeup_waiting N c s (sys m) = Some st"
    and m': "sys m' = st" "bkl m' = bkl m" "wk m' = (wk m)(s := No_waker)" "ph m' = ph m \<or> (\<exists>n. ph m = Cleared s n \<and> ph m' = Woken s n)"
  shows "smp_inv N m'"
proof -
  note so = smp_invD(1) [OF inv]
  have qk: "q_ok (sys m)" "s \<notin> qset (sys m)" "s \<notin> runs N m" "s \<notin> ph_held (ph m)"
    using so nr sets_ok_readyD [OF so, of s] by (auto simp: sets_ok_def)
  note q = sched_enqueue_ok [OF qk(1,2)]
  have st: "st = upd_schedee s (\<lambda>x. x\<lparr>waiting := Not_waiting\<rparr>) (sched_check_preempt N c s (upd_schedee s (\<lambda>x. x\<lparr>ready := True\<rparr>) (sched_enqueue s (sys m))))"
    using e wt by (simp add: sched_wakeup_waiting_def sched_wokenup_clear_waiting_def sched_enqueue_set_ready_def)
  have sc: "sch st = (sch (sys m))(s := (sch (sys m) s)\<lparr>ready := True, waiting := Not_waiting\<rparr>)"
    using q(3) by (simp add: st same_rest_def)
  have fr: "cur st = cur (sys m)" "cpu_idle st = cpu_idle (sys m)" "\<And>x. affinity (at st x) = affinity (at (sys m) x)"
    "qset st = insert s (qset (sys m))" "q_ok st"
    using q by (simp_all add: st same_rest_def)
  have ph: "ph_held (ph m') = ph_held (ph m)" "ph_on (ph m') = ph_on (ph m)" "ph_lt (ph m') = ph_lt (ph m)"
    "(ph m' = Outside) = (ph m = Outside)" "ph_cleared (ph m) x \<Longrightarrow> x \<noteq> s \<Longrightarrow> ph_cleared (ph m') x"
    "ph_cleared (ph m') x \<Longrightarrow> ph_cleared (ph m) x" for x
    using m'(4) by (auto simp: fun_eq_iff)
  have r: "runs_on N m' = runs_on N m" using m' fr ph by (intro runs_on_cong) simp_all
  have ty: "schedee_is_thread x st = schedee_is_thread x (sys m)" for x by (simp add: sc schedee_is_thread_def)
  have "sets_ok st (runs N m') (ph m')"
    using so qk fr unfolding sets_ok_def ty ph runs_def r by (auto simp: sc)
  moreover have "cpus_ok N m'"
  proof -
    have lt: "\<not> ph_lt (ph m) s" using ph_ltD [OF smp_invD(2) [OF inv], of s] wt by auto
    have "ph_ok st d (ph m)" if "ph_ok (sys m) d (ph m)" for d
      by (rule ph_ok_transfer [OF that]) (use that lt ph_ltD [OF smp_invD(2) [OF inv]] fr in \<open>auto simp: sc\<close>)
    then have "ph_ok st d (ph m')" if "ph_ok (sys m) d (ph m)" for d using that m'(4) by auto
    then show ?thesis using smp_invD(2) [OF inv]
      unfolding cpus_ok_def may_run_def r m'(1,2) fr(1,3) ph(1,2,4) by blast
  qed
  moreover have "idle_ok N st"
    using smp_invD(3) [OF inv] wt unfolding idle_ok_def may_run_def ty fr(2,3)
    by (metis (no_types, lifting) fun_upd_other sc wait_state.distinct(3))
  moreover have "wait_ok (sch st x) (wk m' x) (ph_lt (ph m') x) (ph_cleared (ph m') x)" for x
    using smp_invD(4) [OF inv, of x] ph(5,6) [of x] ph(3) unfolding sc m' by (auto simp: wait_ok_def)
  moreover have "on_ok m'"
    using smp_invD(5) [OF inv] nr(2) wt unfolding on_ok_def ph m'(1,3) sc by (auto simp: ended_def)
  ultimately show ?thesis using m'(1) by (simp add: smp_inv_def)
qed

section \<open>Inside \<^verbatim>\<open>schedule\<close>\<close>

text \<open>The part before the loop leads to the state in which a turn of the loop starts.\<close>

lemma enter_runs:
  assumes inv: "smp_inv N m" and r: "runs_on N m c prev" and b: "bkl m = Some c"
    and m': "cur (sys m') = cur (sys m)" "ph m' \<noteq> Outside" "bkl m' = Some c"
  shows "ph m = Outside" "runs_on N m' d s \<longleftrightarrow> runs_on N m d s \<and> d \<noteq> c" "runs N m' = runs N m - {prev}"
proof -
  show o: "ph m = Outside" using r b by (auto simp: runs_on_def switching_def)
  show rr: "runs_on N m' d s \<longleftrightarrow> runs_on N m d s \<and> d \<noteq> c" for d s
    using m' o by (auto simp: runs_on_def switching_def)
  have u: "runs_on N m d s \<Longrightarrow> runs_on N m e s \<Longrightarrow> d = e" for d e s
    using smp_invD(2) [OF inv] unfolding cpus_ok_def by blast
  have "runs_on N m c s \<Longrightarrow> s = prev" for s using r by (simp add: runs_on_def)
  then show "runs N m' = runs N m - {prev}" using r u rr unfolding runs_def by blast
qed

lemma enter_sleep_inv:
  assumes inv: "smp_inv N m" and r: "runs_on N m c prev" and b: "bkl m = Some c" and w: "waiting (sch (sys m) prev) \<noteq> Not_waiting"
    and st: "st = upd_schedee prev (\<lambda>x. x\<lparr>ready := False\<rparr>) ((sys m)\<lparr>resched_sent := rs\<rparr>)"
  shows "smp_inv N (m\<lparr>sys := st, ph := LtRun False y prev\<rparr>)"
proof -
  let ?m = "m\<lparr>sys := st, ph := LtRun False y prev\<rparr>"
  have fr: "cur st = cur (sys m)" "at st = at (sys m)" "cpu_idle st = cpu_idle (sys m)" "qset st = qset (sys m)" "q_ok st = q_ok (sys m)"
    "sch st = (sch (sys m))(prev := (sch (sys m) prev)\<lparr>ready := False\<rparr>)"
    using q_ok_cong [of st "sys m"] by (auto simp: st qset_def)
  have rr: "ph m = Outside" "\<And>d s. runs_on N ?m d s \<longleftrightarrow> runs_on N m d s \<and> d \<noteq> c" "runs N ?m = runs N m - {prev}"
    using enter_runs [OF inv r b, of ?m] fr(1) b by auto
  note d = runs_onD [OF inv r]
  have p: "prev \<in> runs N m" using r by (auto simp: runs_def)
  have ty: "schedee_is_thread x st = schedee_is_thread x (sys m)" for x by (simp add: fr schedee_is_thread_def)
  have "sets_ok st (runs N ?m) (LtRun False y prev)"
    using smp_invD(1) [OF inv] p d(4) unfolding sets_ok_def rr ty fr(4,5) by (auto simp: fr(6))
  moreover have "cpus_ok N ?m"
    using smp_invD(2) [OF inv] r b d(6) unfolding cpus_ok_def may_run_def rr(1,2) by (auto simp: fr)
  moreover have "idle_ok N st"
    using smp_invD(3) [OF inv] w unfolding idle_ok_def may_run_def ty fr(2,3)
    by (metis (no_types, lifting) fun_upd_other fr(6))
  moreover have "wait_ok (sch st x) (wk m x) False False" for x
    using smp_invD(4) [OF inv, of x] d(1-3) w unfolding fr(6) rr(1)
    by (cases "x = prev"; cases "waiting (sch (sys m) prev)") (auto simp: wait_ok_def)
  moreover have "on_ok ?m" using d(2) by (simp add: on_ok_def fr(6))
  ultimately show ?thesis by (simp add: smp_inv_def)
qed

lemma enter_queue_inv:
  assumes inv: "smp_inv N m" and r: "runs_on N m c prev" and b: "bkl m = Some c"
    and st: "st = sched_enqueue prev ((sys m)\<lparr>resched_sent := rs\<rparr>)"
  shows "smp_inv N (m\<lparr>sys := st, ph := LtRun p y prev\<rparr>)"
proof -
  let ?m = "m\<lparr>sys := st, ph := LtRun p y prev\<rparr>" and ?s = "(sys m)\<lparr>resched_sent := rs\<rparr>"
  note d = runs_onD [OF inv r]
  have "q_ok ?s = q_ok (sys m)" "qset ?s = qset (sys m)" by (rule q_ok_cong qset_cong; simp)+
  then have q: "q_ok ?s" "prev \<notin> qset ?s" "qset ?s = qset (sys m)"
    using smp_invD(1) [OF inv] d(4) by (simp_all add: sets_ok_def)
  note e = sched_enqueue_ok [OF q(1,2)]
  have fr: "cur st = cur (sys m)" "\<And>x. affinity (at st x) = affinity (at (sys m) x)" "cpu_idle st = cpu_idle (sys m)"
    "qset st = insert prev (qset (sys m))" "q_ok st" "sch st = sch (sys m)"
    using e q(3) by (auto simp: st same_rest_def)
  have rr: "ph m = Outside" "\<And>d s. runs_on N ?m d s \<longleftrightarrow> runs_on N m d s \<and> d \<noteq> c" "runs N ?m = runs N m - {prev}"
    using enter_runs [OF inv r b, of ?m] fr(1) b by auto
  have pr: "prev \<in> runs N m" using r by (auto simp: runs_def)
  have ty: "schedee_is_thread x st = schedee_is_thread x (sys m)" for x by (simp add: fr schedee_is_thread_def)
  have "sets_ok st (runs N ?m) (LtRun p y prev)"
    using smp_invD(1) [OF inv] pr fr(5) unfolding sets_ok_def rr ty fr(4,6) by auto
  moreover have "cpus_ok N ?m"
    using smp_invD(2) [OF inv] r b d(1,6) unfolding cpus_ok_def may_run_def rr(1,2) by (auto simp: fr)
  moreover have "idle_ok N st"
    using smp_invD(3) [OF inv] unfolding idle_ok_def may_run_def ty fr .
  moreover have "wait_ok (sch st x) (wk m x) False False" for x
    using smp_invD(4) [OF inv, of x] unfolding fr rr(1) by simp
  moreover have "on_ok ?m" using d(2) by (simp add: on_ok_def fr(6))
  ultimately show ?thesis by (simp add: smp_inv_def)
qed

lemma enter_inv:
  assumes "smp_inv N m" "bkl m = Some c" "runs_on N m c prev" "schedule_enter c p prev (sys m) = (y, st)"
  shows "smp_inv N (m\<lparr>sys := st, ph := LtRun p y prev\<rparr>)"
proof (cases "\<not> p \<and> waiting (sch (sys m) prev) \<noteq> Not_waiting")
  case True
  then have st: "st = upd_schedee prev (\<lambda>x. x\<lparr>ready := False\<rparr>) ((sys m)\<lparr>resched_sent := (resched_sent (sys m))(c := False)\<rparr>)"
    using assms(4) by (simp add: schedule_enter_def Let_def)
  show ?thesis using enter_sleep_inv [OF assms(1,3,2) _ st] True by simp
next
  case False
  then have "st = sched_enqueue prev ((sys m)\<lparr>resched_sent := (resched_sent (sys m))(c := False)\<rparr>)"
    using assms(4) by (auto simp: schedule_enter_def Let_def)
  then show ?thesis by (rule enter_queue_inv [OF assms(1,3,2)])
qed

text \<open>At the start of a turn the queue has something that the processor may run.\<close>

lemma turn_facts:
  assumes inv: "smp_inv N m" and p: "ph m = LtRun p y prev" and b: "bkl m = Some c"
  shows "c < N" "\<exists>i \<in> qset (sys m). may_run (sys m) c i" "q_ok (sys m)"
    "p \<or> waiting (sch (sys m) prev) = Not_waiting \<Longrightarrow> prev \<in> qset (sys m)" "may_run (sys m) c prev" "prev \<notin> runs N m"
proof -
  note so = smp_invD(1) [OF inv, unfolded p] and rd = sets_ok_readyD [OF smp_invD(1) [OF inv, unfolded p]]
  have c: "c < N" "p \<longrightarrow> ready (sch (sys m) prev)" "may_run (sys m) c prev"
    using cpus_ok_switchD [OF smp_invD(2) [OF inv] _ b] by (simp_all add: p)
  show "c < N" "may_run (sys m) c prev" using c by simp_all
  show "q_ok (sys m)" using so by (simp add: sets_ok_def)
  show pr: "prev \<notin> runs N m" using so by (auto simp: sets_ok_def)
  have ac: "active (sch (sys m) prev) \<or> ended (sch (sys m) prev) (wk m prev)"
    using smp_invD(5) [OF inv] p by (simp add: on_ok_def)
  show "prev \<in> qset (sys m)" if "p \<or> waiting (sch (sys m) prev) = Not_waiting"
  proof -
    have "ready (sch (sys m) prev)"
      using that c(2) ac wait_ok_ready [OF smp_invD(4) [OF inv, of prev]] p by (auto simp: ended_def)
    then show ?thesis using rd(1) [of prev] pr by simp
  qed
  obtain i where i: "ready (sch (sys m) i)" "\<forall>d<N. may_run (sys m) d i \<longleftrightarrow> d = c"
    using smp_invD(3) [OF inv] c(1) unfolding idle_ok_def by blast
  have "i \<notin> runs N m"
  proof
    assume "i \<in> runs N m"
    then obtain d where d: "runs_on N m d i" by (auto simp: runs_def)
    then have "may_run (sys m) d i" "d < N"
      using cpus_okD(3) [OF smp_invD(2) [OF inv]] by (simp_all add: runs_on_def)
    then have "d = c" using i(2) by simp
    then show False using d p b by (simp add: runs_on_def switching_def)
  qed
  then have "i \<in> qset (sys m)" using i(1) rd(1) [of i] by simp
  then show "\<exists>i \<in> qset (sys m). may_run (sys m) c i" using i(2) c(1) by blast
qed

text \<open>Moving a queued schedee to the processor that switches.\<close>

lemma pick_inv:
  assumes inv: "smp_inv N m" and p: "ph m = LtRun p y prev" and b: "bkl m = Some c"
    and s: "s \<in> qset (sys m)" "may_run (sys m) c s"
    and st: "q_ok st" "qset st = qset (sys m) - {s}" "same_rest (sys m) st" "cur st = (cur (sys m))(c := Some s)"
    and m': "sys m' = st" "wk m' = wk m" "bkl m' = bkl m" "ph m' = Picked p y prev s \<or> s = prev \<and> ph m' = Finishing prev"
  shows "smp_inv N m'"
proof -
  note t = turn_facts [OF inv p b]
  have sc: "sch st = sch (sys m)" "cpu_idle st = cpu_idle (sys m)" "\<And>x. affinity (at st x) = affinity (at (sys m) x)"
    using st(3) by (simp_all add: same_rest_def)
  have ph: "ph_held (ph m') = {s}" "ph_on (ph m') = {prev}" "\<And>x. ph_lt (ph m') x = False" "\<And>x. ph_cleared (ph m') x = False"
    "ph m' \<noteq> Outside"
    using m'(4) by auto
  have rr: "runs_on N m' = runs_on N m"
    using st(4) m' ph(5) p b by (auto simp: runs_on_def switching_def fun_eq_iff)
  have ty: "schedee_is_thread x st = schedee_is_thread x (sys m)" for x by (simp add: sc schedee_is_thread_def)
  have sets: "s \<notin> runs N m" "runs N m' = runs N m" using smp_invD(1) [OF inv] s(1) rr by (auto simp: sets_ok_def runs_def)
  have "sets_ok st (runs N m') (ph m')"
    using smp_invD(1) [OF inv] s(1) st(1) sets unfolding sets_ok_def ph ty sc(1) st(2) p by auto
  moreover have "cpus_ok N m'"
  proof -
    have "ph_ok st c (ph m')" using cpus_ok_switchD(2) [OF smp_invD(2) [OF inv] _ b] m'(4) st(4) sc(1) by (auto simp: p)
    moreover have "may_run st c s" "may_run st c prev" using s(2) t(5) by (simp_all add: may_run_def sc)
    moreover have "\<forall>d<N. cur st d \<noteq> None" using cpus_okD(1) [OF smp_invD(2) [OF inv]] st(4) by simp
    moreover have "runs_on N m d x \<Longrightarrow> may_run st d x" "runs_on N m d x \<Longrightarrow> runs_on N m e x \<Longrightarrow> d = e" for d e x
      using cpus_okD(2,3) [OF smp_invD(2) [OF inv]] unfolding may_run_def sc by blast+
    ultimately show ?thesis using t(1) b unfolding cpus_ok_def m'(1,3) ph rr by blast
  qed
  moreover have "idle_ok N st" using smp_invD(3) [OF inv] unfolding idle_ok_def may_run_def ty sc .
  moreover have "wait_ok (sch st x) (wk m' x) (ph_lt (ph m') x) (ph_cleared (ph m') x)" for x
    using smp_invD(4) [OF inv, of x] p unfolding sc m' ph by simp
  moreover have "on_ok m'" using smp_invD(5) [OF inv] p unfolding on_ok_def ph m'(1,2) sc by simp
  ultimately show ?thesis using m'(1) by (simp add: smp_inv_def)
qed

lemma extract_inv:
  assumes inv: "smp_inv N m" and p: "ph m = LtRun p y prev" and b: "bkl m = Some c"
    and st0: "queue st0 = queue (sys m)" "at st0 = at (sys m)" "rq_nr_ready st0 = rq_nr_ready (sys m)" "sch st0 = sch (sys m)"
      "cur st0 = cur (sys m)" "cpu_idle st0 = cpu_idle (sys m)"
  obtains s st where "extract_next c st0 = Some (Switch s, st)" "smp_inv N (m\<lparr>sys := st, ph := Picked p y prev s\<rparr>)"
proof -
  note t = turn_facts [OF inv p b]
  have q: "q_ok st0" "qset st0 = qset (sys m)"
    using t(3) q_ok_cong [of st0 "sys m"] qset_cong [of st0 "sys m"] st0 by simp_all
  obtain i where i: "i \<in> qset st0" "sched_affinity_check (affinity (at st0 i)) (cpu_mask c)"
    using t(2) q(2) st0(2) by (auto simp: may_run_def)
  obtain s st where e: "extract_next c st0 = Some (Switch s, st)" "s \<in> qset st0"
    "sched_affinity_check (affinity (at st0 s)) (cpu_mask c)"
    "q_ok st" "qset st = qset st0 - {s}" "same_rest st0 st" "cur st = (cur st0)(c := Some s)"
    by (rule extract_next_ok [OF q(1) i])
  have "smp_inv N (m\<lparr>sys := st, ph := Picked p y prev s\<rparr>)"
    by (rule pick_inv [OF inv p b, of s st]) (use e st0 q in \<open>auto simp: may_run_def same_rest_def\<close>)
  then show thesis using that e(1) by blast
qed

lemma again_inv:
  assumes inv: "smp_inv N m" and p: "ph m = LtRun p y prev" and b: "bkl m = Some c"
  shows "\<exists>ch st. schedule_pick c p y prev (sys m) = Some (ch, st) \<and> smp_inv N (m\<lparr>sys := st, ph := after_pick p y prev ch\<rparr>)"
proof -
  note t = turn_facts [OF inv p b]
  have ex1: ?thesis if "schedule_pick c p y prev (sys m) = extract_next c (sys m)"
    by (rule extract_inv [OF inv p b, of "sys m"]) (use that in auto)
  have ex2: ?thesis if "schedule_pick c p y prev (sys m) = extract_next c ((sys m)\<lparr>sched_yield_req := False\<rparr>)"
    by (rule extract_inv [OF inv p b, of "(sys m)\<lparr>sched_yield_req := False\<rparr>"]) (use that in auto)
  have keep: ?thesis if e: "schedule_pick c p y prev (sys m) = map_option (Pair Keep) (sched_dequeue prev ((sys m)\<lparr>cur := (cur (sys m))(c := Some prev)\<rparr>))"
    and k: "p \<or> waiting (sch (sys m) prev) = Not_waiting"
  proof -
    let ?s = "(sys m)\<lparr>cur := (cur (sys m))(c := Some prev)\<rparr>"
    have q: "q_ok ?s" "prev \<in> qset ?s" "qset ?s = qset (sys m)"
      using t(3) t(4) [OF k] q_ok_cong [of ?s "sys m"] qset_cong [of ?s "sys m"] by simp_all
    obtain st where d: "sched_dequeue prev ?s = Some st" "q_ok st" "qset st = qset ?s - {prev}" "same_rest ?s st" "cur st = cur ?s"
      by (rule sched_dequeue_ok [OF q(1,2)])
    have "smp_inv N (m\<lparr>sys := st, ph := Finishing prev\<rparr>)"
      by (rule pick_inv [OF inv p b, of prev st]) (use d q t in \<open>auto simp: same_rest_def\<close>)
    then show ?thesis using e d(1) by force
  qed
  have "ra_inv (queue (sys m), at (sys m))" using t(3) by (simp add: q_ok_def)
  then have "runq_get_next (cpu_mask c) (queue (sys m), at (sys m)) \<noteq> None"
    using ra.next_None [of "(queue (sys m), at (sys m))" "cpu_mask c"] t(2) by (auto simp: qset_def attr_eligible_def may_run_def)
  then obtain s where n: "runq_get_next (cpu_mask c) (queue (sys m), at (sys m)) = Some s" by auto
  let ?eq = "schedee_is_thread prev (sys m) \<and> schedee_is_thread s (sys m) \<and> schedee_priority_get prev (sys m) = schedee_priority_get s (sys m)"
  consider "\<not> ?eq" | "?eq" y | "?eq" "\<not> y" "p \<or> waiting (sch (sys m) prev) = Not_waiting"
    | "?eq" "\<not> y" "\<not> (p \<or> waiting (sch (sys m) prev) = Not_waiting)" by blast
  then show ?thesis
  proof cases
    case 1
    show ?thesis by (rule ex1) (use 1 in \<open>auto simp: schedule_pick_def n\<close>)
  next
    case 2
    show ?thesis by (rule ex2) (use 2 in \<open>simp_all add: schedule_pick_def n\<close>)
  next
    case 3
    show ?thesis by (rule keep) (use 3 in \<open>simp_all add: schedule_pick_def n\<close>)
  next
    case 4
    show ?thesis by (rule ex1) (use 4 in \<open>simp_all add: schedule_pick_def n\<close>)
  qed
qed

text \<open>Steps of the processor that switches: one schedee record changes, the phase moves on.\<close>

lemma inv_phase:
  assumes inv: "smp_inv N m" and o: "ph m \<noteq> Outside" "ph' \<noteq> Outside"
    and m': "m' = m\<lparr>sys := upd_schedee s f (sys m), ph := ph'\<rparr>"
    and same: "\<And>x. s_type (f x) = s_type x" "\<And>x. base_priority (f x) = base_priority x"
    and sets: "sets_ok (upd_schedee s f (sys m)) (runs N m) ph'"
    and pok: "\<And>c. ph_ok (sys m) c (ph m) \<Longrightarrow> ph_ok (upd_schedee s f (sys m)) c ph'"
    and on: "ph_held ph' \<union> ph_on ph' \<subseteq> ph_held (ph m) \<union> ph_on (ph m)"
    and ws: "wait_ok (f (sch (sys m) s)) (wk m s) (ph_lt ph' s) (ph_cleared ph' s)"
    and wx: "\<And>x. x \<noteq> s \<Longrightarrow> wait_ok (sch (sys m) x) (wk m x) (ph_lt (ph m) x) (ph_cleared (ph m) x)
        \<Longrightarrow> wait_ok (sch (sys m) x) (wk m x) (ph_lt ph' x) (ph_cleared ph' x)"
    and idle: "is_idle N m s \<Longrightarrow> ready (f (sch (sys m) s)) \<and> waiting (f (sch (sys m) s)) = Not_waiting"
    and dd: "\<And>x. x \<in> ph_on ph' \<Longrightarrow> x \<noteq> s \<Longrightarrow> x \<in> ph_on (ph m)"
      "s \<in> ph_on ph' \<Longrightarrow> active (f (sch (sys m) s)) \<or> ended (f (sch (sys m) s)) (wk m s)"
  shows "smp_inv N m'"
proof -
  have rr: "runs_on N m' = runs_on N m" by (rule runs_on_cong) (use o in \<open>simp_all add: m'\<close>)
  have c: "cpus_ok N m'"
  proof -
    obtain c where b: "bkl m = Some c" using smp_invD(2) [OF inv] o unfolding cpus_ok_def by blast
    note d = cpus_ok_switchD [OF smp_invD(2) [OF inv] o(1) b] and e = cpus_okD [OF smp_invD(2) [OF inv]]
    have mr: "may_run (sys m') = may_run (sys m)" by (simp add: m' may_run_def fun_eq_iff)
    have f: "cur (sys m') = cur (sys m)" "bkl m' = Some c" "ph m' = ph'" "ph_ok (sys m') c ph'"
      using b pok [OF d(2)] by (simp_all add: m')
    show ?thesis unfolding cpus_ok_def rr mr f(1-3) using d(1) d(3) e on f(4) by blast
  qed
  have i: "idle_ok N (sys m')"
  proof (rule idle_ok_transfer [OF smp_invD(3) [OF inv]])
    show "ready (sch (sys m') i) \<and> waiting (sch (sys m') i) = Not_waiting"
      if "is_idle N m i" "ready (sch (sys m) i)" "waiting (sch (sys m) i) = Not_waiting" for i
      using that idle by (cases "i = s") (simp_all add: m')
  qed (simp_all add: m' same)
  have "wait_ok (sch (sys m') x) (wk m' x) (ph_lt (ph m') x) (ph_cleared (ph m') x)" for x
    using ws wx [of x] smp_invD(4) [OF inv, of x] by (cases "x = s") (simp_all add: m')
  moreover have "sets_ok (sys m') (runs N m') (ph m')" using sets rr by (simp add: m' runs_def)
  moreover have "on_ok m'" using smp_invD(5) [OF inv] dd unfolding on_ok_def m' by auto
  ultimately show ?thesis using c i by (simp add: smp_inv_def)
qed

lemma held_ready:
  assumes inv: "smp_inv N m" and h: "s \<in> ph_held (ph m)"
  shows "ready (sch (sys m) s)" "s \<notin> runs N m" "s \<notin> qset (sys m)" "wk m s \<in> {No_waker, Seen}"
    "\<not> schedee_is_thread s (sys m) \<Longrightarrow> waiting (sch (sys m) s) = Not_waiting \<and> wk m s = No_waker"
    "s \<in> ph_on (ph m) \<Longrightarrow> active (sch (sys m) s)"
proof -
  note so = smp_invD(1) [OF inv]
  show r: "ready (sch (sys m) s)" "s \<notin> runs N m" "s \<notin> qset (sys m)"
    using so h sets_ok_readyD(1) [OF so, of s] by (auto simp: sets_ok_def)
  note w = smp_invD(4) [OF inv, of s]
  show "s \<in> ph_on (ph m) \<Longrightarrow> active (sch (sys m) s)" using smp_invD(5) [OF inv] r(1) by (auto simp: on_ok_def ended_def)
  show k: "wk m s \<in> {No_waker, Seen}" using w r(1) by (cases "wk m s") (auto simp: wait_ok_def)
  assume "\<not> schedee_is_thread s (sys m)"
  then have "s_type (sch (sys m) s) = SCHEDEE_LTHREAD" by (cases "s_type (sch (sys m) s)") (auto simp: schedee_is_thread_def)
  then show "waiting (sch (sys m) s) = Not_waiting \<and> wk m s = No_waker"
    using w r(1) k by (auto simp: wait_ok_def)
qed

lemma idle_type: "smp_inv N m \<Longrightarrow> is_idle N m s \<Longrightarrow> schedee_is_thread s (sys m)"
  by (force simp: smp_inv_def idle_ok_def is_idle_def)

lemma q_ok_sets: "sets_ok st R p \<Longrightarrow> q_ok st"
  by (simp add: sets_ok_def)

lemma light_inv:
  assumes inv: "smp_inv N m" and p: "ph m = Picked p y prev s" and t: "\<not> schedee_is_thread s (sys m)"
  shows "smp_inv N (m\<lparr>sys := lthread_clear_ready s (sys m), ph := LtCleared p y prev s\<rparr>)"
  unfolding lthread_clear_ready_def
proof (rule inv_phase [OF inv])
  note h = held_ready [OF inv, of s, unfolded p, simplified]
  let ?st = "upd_schedee s (\<lambda>x. x\<lparr>ready := False\<rparr>) (sys m)"
  have ne: "s \<noteq> prev" using t smp_invD(1) [OF inv] p by (auto simp: sets_ok_def)
  have ty: "schedee_is_thread x ?st = schedee_is_thread x (sys m)" for x by (simp add: schedee_is_thread_def)
  show "sets_ok ?st (runs N m) (LtCleared p y prev s)"
    using smp_invD(1) [OF inv] h(2,3) unfolding sets_ok_def p ty by auto
  show "ph_ok ?st c (LtCleared p y prev s)" if "ph_ok (sys m) c (ph m)" for c
    using that t h(5) [OF t] ne unfolding p by (simp add: ty)
  show "wait_ok ((sch (sys m) s)\<lparr>ready := False\<rparr>) (wk m s) (ph_lt (LtCleared p y prev s) s) (ph_cleared (LtCleared p y prev s) s)"
    using h(5) [OF t] by (simp add: wait_ok_def)
  show "active ((sch (sys m) s)\<lparr>ready := False\<rparr>) \<or> ended ((sch (sys m) s)\<lparr>ready := False\<rparr>) (wk m s)"
    if "s \<in> ph_on (LtCleared p y prev s)"
    using that ne by simp
qed (use p t idle_type [OF inv] in auto)

lemma light_run_inv:
  assumes inv: "smp_inv N m" and p: "ph m = LtCleared p y prev s"
  shows "smp_inv N (m\<lparr>sys := lthread_set_waiting s (sys m), ph := LtRun p y prev\<rparr>)"
  unfolding lthread_set_waiting_def
proof (rule inv_phase [OF inv])
  let ?st = "upd_schedee s (\<lambda>x. x\<lparr>waiting := Waiting\<rparr>) (sys m)"
  have l: "\<not> ready (sch (sys m) s)" "waiting (sch (sys m) s) = Not_waiting" "s_type (sch (sys m) s) = SCHEDEE_LTHREAD"
    using ph_ltD [OF smp_invD(2) [OF inv], of s] p by auto
  have ty: "schedee_is_thread x ?st = schedee_is_thread x (sys m)" for x by (simp add: schedee_is_thread_def)
  show "sets_ok ?st (runs N m) (LtRun p y prev)"
    using smp_invD(1) [OF inv] unfolding sets_ok_def p ty by auto
  show "ph_ok ?st c (LtRun p y prev)" if "ph_ok (sys m) c (ph m)" for c
    using that unfolding p by auto
  show "wait_ok ((sch (sys m) s)\<lparr>waiting := Waiting\<rparr>) (wk m s) (ph_lt (LtRun p y prev) s) (ph_cleared (LtRun p y prev) s)"
    using smp_invD(4) [OF inv, of s] l by (auto simp: wait_ok_def)
  show "ready ((sch (sys m) s)\<lparr>waiting := Waiting\<rparr>) \<and> waiting ((sch (sys m) s)\<lparr>waiting := Waiting\<rparr>) = Not_waiting" if "is_idle N m s"
    using idle_type [OF inv that] l(3) by (simp add: schedee_is_thread_def)
  have "s \<noteq> prev" using l(3) smp_invD(1) [OF inv] p by (auto simp: sets_ok_def schedee_is_thread_def)
  then show "active ((sch (sys m) s)\<lparr>waiting := Waiting\<rparr>) \<or> ended ((sch (sys m) s)\<lparr>waiting := Waiting\<rparr>) (wk m s)"
    if "s \<in> ph_on (LtRun p y prev)"
    using that by simp
qed (use p in auto)

lemma same_inv:
  assumes inv: "smp_inv N m" and p: "ph m = Picked p y s s"
  shows "smp_inv N (m\<lparr>ph := Finishing s\<rparr>)"
proof (rule inv_phase [OF inv, of "Finishing s" _ s "\<lambda>x. x"])
  show "sets_ok (upd_schedee s (\<lambda>x. x) (sys m)) (runs N m) (Finishing s)"
    using smp_invD(1) [OF inv] unfolding sets_ok_def p by auto
  show "wait_ok (sch (sys m) s) (wk m s) (ph_lt (Finishing s) s) (ph_cleared (Finishing s) s)"
    using smp_invD(4) [OF inv, of s] by (simp add: p)
  show "ready (sch (sys m) s) \<and> waiting (sch (sys m) s) = Not_waiting" if "is_idle N m s"
    using idle_readyD [OF smp_invD(3) [OF inv] that] .
qed (use p held_ready(6) [OF inv, of s] in auto)

lemma activate_inv:
  assumes inv: "smp_inv N m" and p: "ph m = Picked p y prev s" and t: "schedee_is_thread s (sys m)" and ne: "s \<noteq> prev"
  shows "smp_inv N (m\<lparr>sys := sched_start_switch s (sys m), ph := Activated prev s\<rparr>)"
  unfolding sched_start_switch_def
proof (rule inv_phase [OF inv])
  note h = held_ready [OF inv, of s, unfolded p, simplified]
  let ?f = "\<lambda>x. x\<lparr>released := False, active := True\<rparr>"
  let ?st = "upd_schedee s ?f (sys m)"
  have ty: "schedee_is_thread x ?st = schedee_is_thread x (sys m)" for x by (simp add: schedee_is_thread_def)
  show "sets_ok ?st (runs N m) (Activated prev s)"
    using smp_invD(1) [OF inv] h(2,3) t unfolding sets_ok_def p ty by auto
  show "ph_ok ?st c (Activated prev s)" if "ph_ok (sys m) c (ph m)" for c
    using that ne unfolding p by simp
  show "wait_ok (?f (sch (sys m) s)) (wk m s) (ph_lt (Activated prev s) s) (ph_cleared (Activated prev s) s)"
    using smp_invD(4) [OF inv, of s] h(1,4) by (auto simp: wait_ok_def)
  show "ready (?f (sch (sys m) s)) \<and> waiting (?f (sch (sys m) s)) = Not_waiting" if "is_idle N m s"
    using idle_readyD [OF smp_invD(3) [OF inv] that] by simp
qed (use p in auto)

lemma clear_inv:
  assumes inv: "smp_inv N m" and p: "ph m = Activated prev s"
  shows "smp_inv N (m\<lparr>sys := deactivate_clear prev (sys m), ph := Cleared prev s\<rparr>)"
  unfolding deactivate_clear_def
proof (rule inv_phase [OF inv])
  let ?f = "\<lambda>x. x\<lparr>active := False\<rparr>"
  let ?st = "upd_schedee prev ?f (sys m)"
  obtain c where "ph_ok (sys m) c (ph m)" using smp_invD(2) [OF inv] p unfolding cpus_ok_def by auto
  then have ne: "prev \<noteq> s" by (simp add: p)
  have ty: "schedee_is_thread x ?st = schedee_is_thread x (sys m)" for x by (simp add: schedee_is_thread_def)
  show "sets_ok ?st (runs N m) (Cleared prev s)"
    using smp_invD(1) [OF inv] ne unfolding sets_ok_def p ty by auto
  show "ph_ok ?st c (Cleared prev s)" if "ph_ok (sys m) c (ph m)" for c
    using that unfolding p by simp
  show "wait_ok (?f (sch (sys m) prev)) (wk m prev) (ph_lt (Cleared prev s) prev) (ph_cleared (Cleared prev s) prev)"
    using smp_invD(4) [OF inv, of prev] by (auto simp: wait_ok_def p)
  show "ready (?f (sch (sys m) prev)) \<and> waiting (?f (sch (sys m) prev)) = Not_waiting" if "is_idle N m prev"
    using idle_readyD [OF smp_invD(3) [OF inv] that] by simp
  show "active (?f (sch (sys m) prev)) \<or> ended (?f (sch (sys m) prev)) (wk m prev)" if "prev \<in> ph_on (Cleared prev s)"
    using that ne by simp
qed (use p in auto)

lemma release_inv:
  assumes inv: "smp_inv N m" and p: "ph m = Woken prev s"
  shows "smp_inv N (m\<lparr>sys := deactivate_release prev (sys m), ph := Finishing s\<rparr>)"
  unfolding deactivate_release_def
proof (rule inv_phase [OF inv])
  let ?f = "\<lambda>x. x\<lparr>released := True\<rparr>"
  let ?st = "upd_schedee prev ?f (sys m)"
  have ty: "schedee_is_thread x ?st = schedee_is_thread x (sys m)" for x by (simp add: schedee_is_thread_def)
  show "sets_ok ?st (runs N m) (Finishing s)"
    using smp_invD(1) [OF inv] unfolding sets_ok_def p ty by auto
  show "ph_ok ?st c (Finishing s)" if "ph_ok (sys m) c (ph m)" for c
    using that unfolding p by simp
  show "wait_ok (?f (sch (sys m) prev)) (wk m prev) (ph_lt (Finishing s) prev) (ph_cleared (Finishing s) prev)"
    using smp_invD(4) [OF inv, of prev] by (simp add: wait_ok_def p)
  show "ready (?f (sch (sys m) prev)) \<and> waiting (?f (sch (sys m) prev)) = Not_waiting" if "is_idle N m prev"
    using idle_readyD [OF smp_invD(3) [OF inv] that] by simp
  show "active (?f (sch (sys m) prev)) \<or> ended (?f (sch (sys m) prev)) (wk m prev)" if "prev \<in> ph_on (Finishing s)"
    using that held_ready(6) [OF inv, of s] p by simp
qed (use p in auto)

lemma wake_inv:
  assumes inv: "smp_inv N m" and p: "ph m = Cleared prev s" and w: "wk m prev = No_waker"
    and e: "deactivate_wake N c prev (sys m) = Some st"
  shows "smp_inv N (m\<lparr>sys := st, ph := Woken prev s\<rparr>)"
proof (cases "waiting (sch (sys m) prev) = TW_SMP_WAKING \<and> \<not> finished (sch (sys m) prev)")
  case True
  obtain c where "ph_ok (sys m) c (ph m)" using smp_invD(2) [OF inv] p unfolding cpus_ok_def by auto
  then have ne: "prev \<noteq> s" by (simp add: p)
  have nr: "\<not> ready (sch (sys m) prev)" using smp_invD(4) [OF inv, of prev] True by (simp add: wait_ok_def)
  then have "\<not> active (sch (sys m) prev)"
    using sets_ok_readyD(1,2) [OF smp_invD(1) [OF inv], of prev] ne p by auto
  then show ?thesis
    using inv_enqueue [OF inv nr, of _ st "m\<lparr>sys := st, ph := Woken prev s\<rparr>"] True e w p
    by (auto simp: deactivate_wake_def fun_eq_iff)
next
  case False
  then have st: "st = sys m" using e by (simp add: deactivate_wake_def split: if_splits)
  show ?thesis
  proof (rule inv_phase [OF inv, of "Woken prev s" _ prev "\<lambda>x. x"])
    show "sets_ok (upd_schedee prev (\<lambda>x. x) (sys m)) (runs N m) (Woken prev s)"
      using smp_invD(1) [OF inv] unfolding sets_ok_def p by auto
    show "wait_ok (sch (sys m) prev) (wk m prev) (ph_lt (Woken prev s) prev) (ph_cleared (Woken prev s) prev)"
      using smp_invD(4) [OF inv, of prev] False by (auto simp: p wait_ok_def)
    show "ready (sch (sys m) prev) \<and> waiting (sch (sys m) prev) = Not_waiting" if "is_idle N m prev"
      using idle_readyD [OF smp_invD(3) [OF inv] that] .
    show "active (sch (sys m) prev) \<or> ended (sch (sys m) prev) (wk m prev)" if "prev \<in> ph_on (Woken prev s)"
      using that held_ready(6) [OF inv, of s] p by auto
  qed (use p st in auto)
qed

text \<open>Leaving \<^verbatim>\<open>schedule\<close>: the schedee held by the processor becomes the one it runs.\<close>

lemma leave_inv:
  assumes inv: "smp_inv N m" and p: "ph m = Finishing s"
    and st: "q_ok st" "qset st = qset (sys m)" "sch st = sch (sys m)" "cur st = cur (sys m)" "cpu_idle st = cpu_idle (sys m)"
      "\<And>x. affinity (at st x) = affinity (at (sys m) x)"
  shows "smp_inv N (m\<lparr>sys := st, ph := Outside\<rparr>)"
proof -
  let ?m = "m\<lparr>sys := st, ph := Outside\<rparr>"
  obtain c where b: "bkl m = Some c" using smp_invD(2) [OF inv] p unfolding cpus_ok_def by auto
  have c: "c < N" "cur (sys m) c = Some s" "may_run (sys m) c s"
    using cpus_ok_switchD [OF smp_invD(2) [OF inv] _ b] by (simp_all add: p)
  have rr: "runs_on N ?m d x \<longleftrightarrow> runs_on N m d x \<or> d = c \<and> x = s" for d x
    using c b p by (auto simp: runs_on_def switching_def st)
  have R: "runs N ?m = insert s (runs N m)" by (auto simp: runs_def rr)
  have s: "s \<notin> runs N m" "s \<notin> qset (sys m)" "active (sch (sys m) s)" using held_ready [OF inv, of s] p by auto
  have ty: "schedee_is_thread x st = schedee_is_thread x (sys m)" for x by (simp add: st schedee_is_thread_def)
  have mr: "may_run st = may_run (sys m)" by (simp add: may_run_def st fun_eq_iff)
  have "sets_ok st (runs N ?m) Outside"
    using smp_invD(1) [OF inv] s st(1) unfolding sets_ok_def R ty st(2,3) p by auto
  moreover have "cpus_ok N ?m"
  proof -
    note e = cpus_okD [OF smp_invD(2) [OF inv]]
    have "runs_on N m d s \<Longrightarrow> False" for d using s(1) by (auto simp: runs_def)
    then show ?thesis using e c(3) unfolding cpus_ok_def rr by (simp add: mr st(4)) blast
  qed
  moreover have "idle_ok N st"
    by (rule idle_ok_transfer [OF smp_invD(3) [OF inv]]) (simp_all add: st)
  moreover have "wait_ok (sch st x) (wk m x) False False" for x
    using smp_invD(4) [OF inv, of x] by (simp add: st p)
  moreover have "on_ok ?m" by (simp add: on_ok_def)
  ultimately show ?thesis by (simp add: smp_inv_def)
qed

lemma ra_stale: "ra_inv (q\<lparr>map_stale := k\<rparr>, a) = ra_inv (q, a)" "ra_level (q\<lparr>map_stale := k\<rparr>, a) = ra_level (q, a)"
  by (simp_all add: ra_inv_def ra_level_def cong: if_cong)

lemma ignore_affinity_frame:
  "runq_get_next_ignore_affinity (q, a) = (r, (q', a')) \<Longrightarrow> a' = a \<and> (q' = q \<or> (\<exists>k. q' = q\<lparr>map_stale := k\<rparr>))"
  by (auto simp: runq_get_next_ignore_affinity_def split: option.splits if_splits)

lemma ticker_frame:
  assumes "q_ok st"
  shows "q_ok (sched_ticker_update N c st)" "qset (sched_ticker_update N c st) = qset st" "sch (sched_ticker_update N c st) = sch st"
    "cur (sched_ticker_update N c st) = cur st" "cpu_idle (sched_ticker_update N c st) = cpu_idle st"
    "at (sched_ticker_update N c st) = at st"
proof -
  obtain r q a where g: "runq_get_next_ignore_affinity (queue st, at st) = (r, (q, a))" by (metis prod_cases3)
  note f = ignore_affinity_frame [OF g]
  let ?t = "sched_ticker_update N c st"
  show e: "sch ?t = sch st" "cur ?t = cur st" "cpu_idle ?t = cpu_idle st" "at ?t = at st"
    using f by (auto simp: sched_ticker_update_def g Let_def split: option.split)
  have q: "queue ?t = queue st \<or> (\<exists>k. queue ?t = (queue st)\<lparr>map_stale := k\<rparr>)" "rq_nr_ready ?t = rq_nr_ready st"
    using f by (auto simp: sched_ticker_update_def g Let_def split: option.split)
  show qs: "qset ?t = qset st" using q(1) by (auto simp: qset_def e ra_stale)
  have "ra_inv (queue ?t, at ?t) = ra_inv (queue st, at st)" using q(1) by (auto simp: e ra_stale)
  then show "q_ok ?t" using assms q(2) qs by (simp add: q_ok_def e)
qed

lemma tick_inv: "smp_inv N m \<Longrightarrow> ph m = Finishing s \<Longrightarrow> smp_inv N (m\<lparr>sys := sched_ticker_update N c (sys m), ph := Outside\<rparr>)"
  using ticker_frame [OF q_ok_sets [OF smp_invD(1)], of N m N c] by (intro leave_inv) simp_all

lemma first_inv: "smp_inv N m \<Longrightarrow> ph m = Finishing s \<Longrightarrow> smp_inv N (m\<lparr>sys := (sys m)\<lparr>ticking := True\<rparr>, ph := Outside\<rparr>)"
  by (rule leave_inv) (use q_ok_sets [OF smp_invD(1), of N m] q_ok_cong [of "(sys m)\<lparr>ticking := True\<rparr>" "sys m"]
    qset_cong [of "(sys m)\<lparr>ticking := True\<rparr>" "sys m"] in simp_all)

section \<open>The lock, priorities, freezing\<close>

lemma lock_inv:
  assumes inv: "smp_inv N m" and b: "ph m = Outside" "bkl m = None \<or> bkl m' = None" "m' = m\<lparr>bkl := k\<rparr>"
  shows "smp_inv N m'"
proof -
  have "runs_on N m' = runs_on N m" using b by (simp add: runs_on_def switching_def fun_eq_iff)
  then show ?thesis using inv b unfolding smp_inv_def cpus_ok_def runs_def on_ok_def by simp
qed

text \<open>
  The test for being in the run queue never misses a queued schedee that is not on a processor, and it
  is wrong the other way only for the one that is extracted and not yet activated.
\<close>

lemma in_rq_exact:
  assumes "smp_inv N m" "\<not> extracted (ph m) s"
  shows "in_rq s (sys m) \<Longrightarrow> s \<in> qset (sys m)" "s \<in> qset (sys m) \<Longrightarrow> s \<notin> ph_on (ph m) \<Longrightarrow> in_rq s (sys m)"
proof -
  note so = smp_invD(1) [OF assms(1)]
  note rd = sets_ok_readyD [OF so, of s]
  show "s \<in> qset (sys m)" if "in_rq s (sys m)"
  proof (rule ccontr)
    assume "s \<notin> qset (sys m)"
    then have h: "s \<in> ph_held (ph m)" "\<not> active (sch (sys m) s)" using that rd by (auto simp: in_rq_def)
    then show False using held_ready(6) [OF assms(1) h(1)] assms(2) by (cases "ph m") auto
  qed
  show "in_rq s (sys m)" if "s \<in> qset (sys m)" "s \<notin> ph_on (ph m)"
    using that so rd by (auto simp: in_rq_def sets_ok_def)
qed

lemma inv_state:
  assumes inv: "smp_inv N m" and sets: "sets_ok st (runs N m) (ph m)"
    and st: "cur st = cur (sys m)" "cpu_idle st = cpu_idle (sys m)" "\<And>x. affinity (at st x) = affinity (at (sys m) x)"
      "\<And>x. s_type (sch st x) = s_type (sch (sys m) x)"
    and pok: "\<And>c. ph_ok (sys m) c (ph m) \<Longrightarrow> ph_ok st c (ph m)"
    and w: "\<And>x. wait_ok (sch st x) (wk m x) (ph_lt (ph m) x) (ph_cleared (ph m) x)"
    and i: "\<And>i. is_idle N m i \<Longrightarrow> ready (sch st i) = ready (sch (sys m) i) \<and> waiting (sch st i) = waiting (sch (sys m) i)"
    and dd: "\<And>x. x \<in> ph_on (ph m) \<Longrightarrow> active (sch (sys m) x) \<or> ended (sch (sys m) x) (wk m x)
        \<Longrightarrow> active (sch st x) \<or> ended (sch st x) (wk m x)"
  shows "smp_inv N (m\<lparr>sys := st, raced := r\<rparr>)"
proof -
  let ?m = "m\<lparr>sys := st, raced := r\<rparr>"
  have rr: "runs_on N ?m = runs_on N m" by (rule runs_on_cong) (simp_all add: st)
  have mr: "may_run st = may_run (sys m)" by (simp add: may_run_def st fun_eq_iff)
  have "sets_ok st (runs N ?m) (ph m)" using sets unfolding runs_def rr .
  moreover have "cpus_ok N ?m" using smp_invD(2) [OF inv] pok unfolding cpus_ok_def rr by (simp add: mr st(1)) blast
  moreover have "idle_ok N st"
    by (rule idle_ok_transfer [OF smp_invD(3) [OF inv]]) (use i in \<open>simp_all add: st\<close>)
  moreover have "on_ok ?m" using smp_invD(5) [OF inv] dd by (simp add: on_ok_def)
  ultimately show ?thesis using w by (simp add: smp_inv_def)
qed

lemma setters_bounded:
  assumes "f \<in> {priority_set, priority_inherit, priority_reverse}" "prior < 256" "b < 256" "k < 256"
  shows "fst (f prior (b, k)) < 256" "snd (f prior (b, k)) < 256"
  using assms by auto

lemma set_prio_frame [simp]:
  "s_type (sch (set_prio f s st) x) = s_type (sch st x)" "ready (sch (set_prio f s st) x) = ready (sch st x)"
  "active (sch (set_prio f s st) x) = active (sch st x)" "waiting (sch (set_prio f s st) x) = waiting (sch st x)"
  "finished (sch (set_prio f s st) x) = finished (sch st x)" "cur (set_prio f s st) = cur st"
  "cpu_idle (set_prio f s st) = cpu_idle st" "affinity (at (set_prio f s st) x) = affinity (at st x)"
  by (simp_all add: set_prio_def Let_def)

text \<open>A priority change as a whole: it succeeds and keeps the members of the queue.\<close>

lemma change_priority_ok:
  assumes q: "q_ok st" and rq: "in_rq s st \<Longrightarrow> s \<in> qset st" and b: "prior < 256"
    and f: "setter \<in> {priority_set, priority_inherit, priority_reverse}"
  obtains st' where "sched_change_priority N c s prior setter st = Some st'" "q_ok st'" "qset st' = qset st"
    "cur st' = cur st" "cpu_idle st' = cpu_idle st" "\<forall>x. affinity (at st' x) = affinity (at st x)"
    "\<forall>x. s_type (sch st' x) = s_type (sch st x)" "\<forall>x. active (sch st' x) = active (sch st x)"
    "\<forall>x. ready (sch st' x) = ready (sch st x)" "\<forall>x. waiting (sch st' x) = waiting (sch st x)"
    "\<forall>x. finished (sch st' x) = finished (sch st x)"
proof (cases "in_rq s st")
  case rq_True: True
  note True = rq [OF rq_True]
  obtain st1 where d: "sched_dequeue s st = Some st1" "q_ok st1" "qset st1 = qset st - {s}" "same_rest st st1" "cur st1 = cur st"
    by (rule sched_dequeue_ok [OF q True])
  define st2 where "st2 = set_prio (setter prior) s st1"
  have "base_priority (sch st1 s) < 256" "priority (at st1 s) < 256" using d(2) by (simp_all add: q_ok_def)
  note p = set_prio_ok [where f = "setter prior" and s = s, OF d(2) setters_bounded [OF f b this], folded st2_def]
  have "s \<notin> qset st2" using p(2) d(3) by simp
  note e = sched_enqueue_ok [OF p(1) this]
  define st3 where "st3 = sched_check_preempt N c s (sched_enqueue s st2)"
  have "sched_change_priority N c s prior setter st = Some st3"
    using rq_True d(1) by (simp add: sched_change_priority_def st3_def st2_def Let_def)
  then show thesis by (rule that) (use e p(2) d(3,4,5) True in \<open>auto simp: st3_def st2_def same_rest_def\<close>)
next
  case False
  define st2 where "st2 = set_prio (setter prior) s st"
  have "base_priority (sch st s) < 256" "priority (at st s) < 256" using q by (simp_all add: q_ok_def)
  note p = set_prio_ok [where f = "setter prior" and s = s, OF q setters_bounded [OF f b this], folded st2_def]
  have "sched_change_priority N c s prior setter st = Some (sched_check_preempt N c s st2)"
    using False by (simp add: sched_change_priority_def st2_def Let_def)
  then show thesis by (rule that) (use p in \<open>auto simp: st2_def\<close>)
qed

lemma wait_ok_cong:
  "s_type x = s_type x' \<Longrightarrow> ready x = ready x' \<Longrightarrow> active x = active x' \<Longrightarrow> waiting x = waiting x' \<Longrightarrow> finished x = finished x'
    \<Longrightarrow> wait_ok x w lt cl = wait_ok x' w lt cl"
  by (simp add: wait_ok_def)

lemma prio_inv:
  assumes inv: "smp_inv N m" and x: "\<not> extracted (ph m) s" and b: "prior < 256"
    and f: "setter \<in> {priority_set, priority_inherit, priority_reverse}"
  shows "\<exists>st. sched_change_priority N c s prior setter (sys m) = Some st \<and> smp_inv N (m\<lparr>sys := st, raced := r\<rparr>)"
proof -
  note so = smp_invD(1) [OF inv]
  obtain st where st: "sched_change_priority N c s prior setter (sys m) = Some st" "q_ok st" "qset st = qset (sys m)"
    "cur st = cur (sys m)" "cpu_idle st = cpu_idle (sys m)" "\<forall>x. affinity (at st x) = affinity (at (sys m) x)"
    "\<forall>x. s_type (sch st x) = s_type (sch (sys m) x)" "\<forall>x. active (sch st x) = active (sch (sys m) x)"
    "\<forall>x. ready (sch st x) = ready (sch (sys m) x)" "\<forall>x. waiting (sch st x) = waiting (sch (sys m) x)"
    "\<forall>x. finished (sch st x) = finished (sch (sys m) x)"
    by (rule change_priority_ok [where s = s and N = N and c = c, OF q_ok_sets [OF so] in_rq_exact(1) [OF inv x] b f])
  have "smp_inv N (m\<lparr>sys := st, raced := r\<rparr>)"
  proof (rule inv_state [OF inv])
    show "sets_ok st (runs N m) (ph m)" by (rule sets_ok_transfer [OF so]) (use st in simp_all)
    show "wait_ok (sch st x) (wk m x) (ph_lt (ph m) x) (ph_cleared (ph m) x)" for x
      using smp_invD(4) [OF inv, of x] wait_ok_cong [of "sch st x" "sch (sys m) x"] st by simp
    show "ph_ok st d (ph m)" if "ph_ok (sys m) d (ph m)" for d
      by (rule ph_ok_transfer [OF that]) (use st that in \<open>auto elim!: ph_lt.elims\<close>)
  qed (use st in \<open>auto simp: ended_def\<close>)
  then show ?thesis using st(1) by blast
qed

lemma freeze_inv:
  assumes inv: "smp_inv N m" and p: "ph m = Outside \<or> between_turns (ph m)" and w: "wk m s = No_waker" and i: "\<not> is_idle N m s"
    and r: "\<not> on_cpu N m s" and f: "finished (sch (sys m) s)"
  shows "\<exists>st. sched_freeze s (sys m) = Some st \<and> smp_inv N (m\<lparr>sys := st, raced := k\<rparr>)"
proof -
  note so = smp_invD(1) [OF inv]
  have ph: "ph_held (ph m) = {}" "\<And>x. \<not> ph_lt (ph m) x" "\<And>x. \<not> ph_cleared (ph m) x" "\<not> extracted (ph m) s"
    using p by (auto elim!: between_turns.elims)
  have nr: "s \<notin> runs N m" "s \<notin> ph_on (ph m)" using r by (auto simp: on_cpu_def runs_def runs_on_def)
  then have na: "\<not> active (sch (sys m) s)" using sets_ok_readyD(2) [OF so, of s] by blast
  note rq = in_rq_exact [OF inv ph(4)]
  let ?f = "\<lambda>x. x\<lparr>ready := False, active := False, waiting := Not_waiting\<rparr>"
  obtain st1 where st1: "(if in_rq s (sys m) then sched_dequeue s (sys m) else Some (sys m)) = Some st1" "q_ok st1"
    "qset st1 = qset (sys m) - {s}" "same_rest (sys m) st1" "cur st1 = cur (sys m)"
  proof (cases "s \<in> qset (sys m)")
    case True
    show thesis by (rule sched_dequeue_ok [OF q_ok_sets [OF so] True]) (use that True rq nr in auto)
  next
    case False
    then have "\<not> in_rq s (sys m)" using rq(1) by blast
    then show thesis using that [of "sys m"] q_ok_sets [OF so] False by (simp add: same_rest_def)
  qed
  have "smp_inv N (m\<lparr>sys := upd_schedee s ?f st1, raced := k\<rparr>)"
  proof (rule inv_state [OF inv])
    show "wait_ok (sch (upd_schedee s ?f st1) x) (wk m x) (ph_lt (ph m) x) (ph_cleared (ph m) x)" for x
      using smp_invD(4) [OF inv, of x] st1(4) w f ph by (cases "x = s") (simp_all add: same_rest_def wait_ok_def)
    show "sets_ok (upd_schedee s ?f st1) (runs N m) (ph m)"
      using so st1 nr na ph(1) unfolding sets_ok_def same_rest_def schedee_is_thread_def by auto
    show "ph_ok (upd_schedee s ?f st1) c (ph m)" if "ph_ok (sys m) c (ph m)" for c
      using that p nr st1 by (auto elim!: between_turns.elims simp: same_rest_def)
  qed (use st1 nr i in \<open>auto simp: same_rest_def\<close>)
  then show ?thesis using st1(1) by (simp add: sched_freeze_def)
qed

text \<open>A thread that ends itself leaves the set of running ones; its processor goes on to \<^verbatim>\<open>schedule\<close>.\<close>

lemma die_inv:
  assumes inv: "smp_inv N m" and b: "bkl m = Some c" and r: "runs_on N m c s" and i: "\<not> is_idle N m s"
    and w: "wk m s = No_waker" and f: "finished (sch (sys m) s)"
  shows "\<exists>st. sched_freeze s (sys m) = Some st
    \<and> smp_inv N (m\<lparr>sys := upd_schedee s (\<lambda>x. x\<lparr>waiting := Waiting\<rparr>) st, ph := Dying s\<rparr>)"
proof -
  note so = smp_invD(1) [OF inv] and d = runs_onD [OF inv r]
  define st where "st = upd_schedee s (\<lambda>x. x\<lparr>ready := False, active := False, waiting := Not_waiting\<rparr>) (sys m)"
  define st' where "st' = upd_schedee s (\<lambda>x. x\<lparr>waiting := Waiting\<rparr>) st"
  let ?m = "m\<lparr>sys := st', ph := Dying s\<rparr>"
  have fr: "cur st' = cur (sys m)" "at st' = at (sys m)" "cpu_idle st' = cpu_idle (sys m)" "qset st' = qset (sys m)"
    "q_ok st' = q_ok (sys m)"
    "sch st' = (sch (sys m))(s := (sch (sys m) s)\<lparr>ready := False, active := False, waiting := Waiting\<rparr>)"
    by (simp_all add: st'_def st_def)
  have rr: "ph m = Outside" "\<And>e x. runs_on N ?m e x \<longleftrightarrow> runs_on N m e x \<and> e \<noteq> c" "runs N ?m = runs N m - {s}"
    using enter_runs [OF inv r b, of ?m] fr(1) b by auto
  have ty: "schedee_is_thread x st' = schedee_is_thread x (sys m)" for x by (simp add: fr schedee_is_thread_def)
  have "sets_ok st' (runs N ?m) (Dying s)"
    using so d(3,4) r unfolding sets_ok_def rr ty fr(4,5) by (auto simp: fr(6) runs_def)
  moreover have "cpus_ok N ?m"
    using smp_invD(2) [OF inv] r b d(6) unfolding cpus_ok_def may_run_def rr(1,2) by (auto simp: fr runs_on_def)
  moreover have "idle_ok N st'"
    by (rule idle_ok_transfer [OF smp_invD(3) [OF inv]]) (use i in \<open>auto simp: fr\<close>)
  moreover have "wait_ok (sch st' x) (wk m x) False False" for x
    using smp_invD(4) [OF inv, of x] w f d(3) unfolding fr(6) rr(1) by (cases "x = s") (auto simp: wait_ok_def)
  moreover have "on_ok ?m" using w f by (simp add: on_ok_def fr(6) ended_def)
  ultimately have "smp_inv N ?m" by (simp add: smp_inv_def)
  moreover have "sched_freeze s (sys m) = Some st" using d(2) by (simp add: sched_freeze_def in_rq_def st_def)
  ultimately show ?thesis by (simp add: st'_def)
qed

lemma die_enter_inv:
  assumes inv: "smp_inv N m" and p: "ph m = Dying prev" and e: "schedule_enter c False prev (sys m) = (y, st)"
  shows "smp_inv N (m\<lparr>sys := st, ph := LtRun False y prev\<rparr>)"
proof -
  let ?s = "(sys m)\<lparr>resched_sent := (resched_sent (sys m))(c := False)\<rparr>"
  let ?m = "m\<lparr>sys := ?s\<rparr>"
  note so = smp_invD(1) [OF inv]
  have inv0: "smp_inv N ?m" by (rule inv_quiet [OF inv]) (use smp_invD(4) [OF inv] in simp_all)
  obtain d where "ph_ok (sys m) d (ph m)" using smp_invD(2) [OF inv] p unfolding cpus_ok_def by auto
  then have x: "ended (sch (sys m) prev) (wk m prev)" using smp_invD(5) [OF inv] p by (simp add: on_ok_def)
  then have st: "m\<lparr>sys := st, ph := LtRun False y prev\<rparr> = ?m\<lparr>sys := upd_schedee prev (\<lambda>x. x\<lparr>ready := False\<rparr>) (sys ?m), ph := LtRun False y prev\<rparr>"
    using e by (simp add: schedule_enter_def Let_def ended_def)
  show ?thesis
  proof (rule inv_phase [OF inv0 _ _ st])
    show "sets_ok (upd_schedee prev (\<lambda>x. x\<lparr>ready := False\<rparr>) (sys ?m)) (runs N ?m) (LtRun False y prev)"
      using smp_invD(1) [OF inv0] x p unfolding sets_ok_def schedee_is_thread_def by (auto simp: ended_def)
    have "\<not> is_idle N ?m prev" using x idle_readyD [OF smp_invD(3) [OF inv0], of prev] by (auto simp: ended_def)
    then show "ready ((sch (sys ?m) prev)\<lparr>ready := False\<rparr>) \<and> waiting ((sch (sys ?m) prev)\<lparr>ready := False\<rparr>) = Not_waiting"
      if "is_idle N ?m prev" using that by simp
  qed (use p x smp_invD(4) [OF inv, of prev] in \<open>auto simp: ended_def wait_ok_def\<close>)
qed

section \<open>All steps\<close>

lemma cpu_mask_bit: "bit (cpu_mask c) n \<longleftrightarrow> n = c \<and> c < 32"
  by (auto simp: cpu_mask_def bit_simps)

lemma boot_inv:
  assumes N: "N \<le> 32" and pr: "\<forall>s. pr s < 256"
  shows "smp_inv N (smp_boot N ty pr af)"
proof -
  let ?m = "smp_boot N ty pr af"
  have rr: "runs_on N ?m c s \<longleftrightarrow> c < N \<and> s = c" for c s by (auto simp: runs_on_def switching_def smp_boot_def)
  have R: "runs N ?m = {..<N}" by (auto simp: runs_def rr)
  have q: "qset (sys ?m) = {}" by (simp add: qset_def smp_boot_def runq_init_inv set_level_order)
  have "q_ok (sys ?m)"
    using pr q unfolding q_ok_def by (simp add: smp_boot_def runq_init_inv runq_consts)
  then have "sets_ok (sys ?m) (runs N ?m) (ph ?m)"
    unfolding sets_ok_def R q by (auto simp: smp_boot_def schedee_is_thread_def)
  moreover have mr: "may_run (sys ?m) d c \<longleftrightarrow> d = c" if "c < N" "d < N" for c d
  proof -
    have "bit (cpu_mask c AND cpu_mask d) n \<longleftrightarrow> n = c \<and> n = d" for n
      using that N by (auto simp: cpu_mask_bit bit_and_iff)
    moreover have "x \<noteq> 0 \<longleftrightarrow> (\<exists>n. bit x n)" for x :: u32 by (metis bit_eq_iff bit_0_eq bot_apply bot_bool_def)
    ultimately have "cpu_mask c AND cpu_mask d \<noteq> 0 \<longleftrightarrow> d = c" by auto
    then show ?thesis using that by (simp add: may_run_def sched_affinity_check_def smp_boot_def)
  qed
  moreover have "cpus_ok N ?m" unfolding cpus_ok_def rr using mr by (auto simp: smp_boot_def)
  moreover have "idle_ok N (sys ?m)"
    unfolding idle_ok_def
  proof (intro allI impI exI conjI)
    fix c assume "c < N"
    then show "cpu_idle (sys ?m) c = Some c" "ready (sch (sys ?m) c)" "waiting (sch (sys ?m) c) = Not_waiting"
      "schedee_is_thread c (sys ?m)" "d < N \<Longrightarrow> may_run (sys ?m) d c \<longleftrightarrow> d = c" for d
      using mr by (simp_all add: smp_boot_def schedee_is_thread_def)
  qed
  moreover have "wait_ok (sch (sys ?m) s) (wk ?m s) (ph_lt (ph ?m) s) (ph_cleared (ph ?m) s)" for s
    by (simp add: smp_boot_def wait_ok_def)
  moreover have "on_ok ?m" by (simp add: on_ok_def smp_boot_def)
  ultimately show ?thesis by (simp add: smp_inv_def)
qed

lemma wake_ok:
  assumes inv: "smp_inv N m" and w: "wk m s = Inactive"
  shows "\<exists>st. sched_wakeup_waiting N c s (sys m) = Some st \<and> smp_inv N (m\<lparr>sys := st, wk := (wk m)(s := No_waker)\<rparr>)"
proof -
  have x: "\<not> ready (sch (sys m) s)" "\<not> active (sch (sys m) s)" "waiting (sch (sys m) s) = TW_SMP_WAKING"
    using smp_invD(4) [OF inv, of s] w by (simp_all add: wait_ok_def)
  then obtain st where "sched_wakeup_waiting N c s (sys m) = Some st" by (simp add: sched_wakeup_waiting_def)
  then show ?thesis using inv_enqueue [OF inv x] by simp
qed

lemma outside_if_unlocked: "smp_inv N m \<Longrightarrow> bkl m = None \<Longrightarrow> ph m = Outside"
  using smp_invD(2) unfolding cpus_ok_def by fastforce

lemma free_lock: "bkl m = Some c \<Longrightarrow> free_cpu m c \<Longrightarrow> ph m = Outside \<or> between_turns (ph m)"
  by (auto simp: free_cpu_def switching_def)

lemma step_raced: "smp_step N m m' \<Longrightarrow> raced m \<Longrightarrow> raced m'"
  by (induction rule: smp_step.induct) simp_all

lemma step_inv:
  assumes "smp_step N m m'" "smp_inv N m" "\<not> raced m'"
  shows "smp_inv N m'"
  using assms
proof (induction rule: smp_step.induct)
  case (lock c m)
  then have "ph m = Outside" using outside_if_unlocked by blast
  then show ?case by (rule lock_inv [OF lock(3), of _ "Some c"]) (simp_all add: lock(2))
next
  case (unlock m)
  show ?case by (rule lock_inv [OF unlock(2,1), of _ None]) simp_all
next
  case (prio c m prior setter s st)
  have "\<exists>st. sched_change_priority N c s prior setter (sys m) = Some st \<and> smp_inv N (m\<lparr>sys := st, raced := raced m \<or> extracted (ph m) s\<rparr>)"
    by (rule prio_inv) (use prio in auto)
  then show ?case unfolding prio(5) by simp
next
  case (freeze m c s st)
  have "\<exists>st. sched_freeze s (sys m) = Some st \<and> smp_inv N (m\<lparr>sys := st, raced := raced m \<or> on_cpu N m s \<or> is_idle N m s\<rparr>)"
    by (rule freeze_inv [OF freeze(7) free_lock [OF freeze(1,2)]]) (use freeze in auto)
  then show ?case unfolding freeze(6) by simp
next
  case (die m c s st)
  have "\<exists>st. sched_freeze s (sys m) = Some st \<and> smp_inv N (m\<lparr>sys := upd_schedee s (\<lambda>x. x\<lparr>waiting := Waiting\<rparr>) st, ph := Dying s\<rparr>)"
    by (rule die_inv) (fact die)+
  then show ?case unfolding die(6) by simp
next
  case (die_enter m c prev y st ch st')
  let ?m = "m\<lparr>sys := st, ph := LtRun False y prev\<rparr>"
  have "smp_inv N ?m" by (rule die_enter_inv) (fact die_enter)+
  then have "\<exists>ch st. schedule_pick c False y prev (sys ?m) = Some (ch, st) \<and> smp_inv N (?m\<lparr>sys := st, ph := after_pick False y prev ch\<rparr>)"
    by (rule again_inv) (simp_all add: die_enter(1))
  then show ?case by (simp add: die_enter(4))
next
  case (die_unlock m s)
  then show ?case by simp
next
  case (enter m c prev p y st ch st')
  let ?m = "m\<lparr>sys := st, ph := LtRun p y prev\<rparr>"
  have "smp_inv N ?m" by (rule enter_inv) (fact enter)+
  then have "\<exists>ch st. schedule_pick c p y prev (sys ?m) = Some (ch, st) \<and> smp_inv N (?m\<lparr>sys := st, ph := after_pick p y prev ch\<rparr>)"
    by (rule again_inv) (simp_all add: enter(1))
  then show ?case by (simp add: enter(4))
next
  case (again m c p y prev ch st)
  have "\<exists>ch st. schedule_pick c p y prev (sys m) = Some (ch, st) \<and> smp_inv N (m\<lparr>sys := st, ph := after_pick p y prev ch\<rparr>)"
    by (rule again_inv) (fact again)+
  then show ?case unfolding again(3) by simp
next
  case (w_wake m s c st)
  have "\<exists>st. sched_wakeup_waiting N c s (sys m) = Some st \<and> smp_inv N (m\<lparr>sys := st, wk := (wk m)(s := No_waker)\<rparr>)"
    by (rule wake_ok) (fact w_wake)+
  then show ?case unfolding w_wake(3) by simp
next
  case prepare
  show ?case by (rule prepare_inv) (fact prepare)+
next
  case cleanup
  show ?case by (rule cleanup_inv) (fact cleanup)+
next
  case finish
  show ?case by (rule finish_inv) (fact finish)+
next
  case post
  show ?case by (rule post_inv) (fact post)+
next
  case light
  show ?case by (rule light_inv) (fact light)+
next
  case light_run
  show ?case by (rule light_run_inv) (fact light_run)+
next
  case same
  show ?case by (rule same_inv) (fact same)+
next
  case activate
  show ?case by (rule activate_inv) (fact activate)+
next
  case clear
  show ?case by (rule clear_inv) (fact clear)+
next
  case wake
  show ?case by (rule wake_inv) (fact wake)+
next
  case release
  show ?case by (rule release_inv) (fact release)+
next
  case tick
  show ?case by (rule tick_inv) (fact tick)+
next
  case first
  show ?case by (rule first_inv) (fact first)+
next
  case w_see
  show ?case by (rule w_see_inv) (fact w_see)+
next
  case w_ready
  show ?case by (rule w_ready_inv) (fact w_ready)+
next
  case w_mark
  show ?case by (rule w_mark_inv) (fact w_mark)+
next
  case w_check
  show ?case by (rule w_check_inv) (fact w_check)+
qed

lemma reach_inv: "smp_reach N m \<Longrightarrow> \<not> raced m \<Longrightarrow> smp_inv N m"
  by (induction rule: smp_reach.induct) (auto intro: boot_inv step_inv dest: step_raced)

lemma turn_goes_on:
  assumes "bkl m = Some c" "\<And>y st. schedule_enter c p prev (sys m) = (y, st) \<Longrightarrow> smp_inv N (m\<lparr>sys := st, ph := LtRun p y prev\<rparr>)"
  shows "case schedule_enter c p prev (sys m) of (y, st) \<Rightarrow> schedule_pick c p y prev st \<noteq> None"
proof -
  obtain y st where e: "schedule_enter c p prev (sys m) = (y, st)" by fastforce
  show ?thesis using again_inv [OF assms(2) [OF e], of p y prev c] assms(1) e by auto
qed

lemma freeze_goes_on:
  assumes "q_ok st" "in_rq s st \<Longrightarrow> s \<in> qset st"
  shows "sched_freeze s st \<noteq> None"
proof (cases "in_rq s st")
  case True
  show ?thesis by (rule sched_dequeue_ok [OF assms(1) assms(2) [OF True]]) (use True in \<open>simp add: sched_freeze_def\<close>)
qed (simp add: sched_freeze_def)

section \<open>Runs\<close>

text \<open>
  The steps as a function of an action, so that a run can be carried out. An action names what the
  step relation leaves open: the processor, the schedee, the new priority.
\<close>

datatype act = Lock nat | Unlock | Prepare nat | Finish sid | Set_prio nat sid nat | Freeze sid | Die | Die_enter
  | Enter bool | Again | Light | Light_run | Activate | Clear | Wake | Release | Tick
  | W_see sid | W_ready sid | W_mark sid | W_check sid | W_wake nat sid

definition pick_turn :: "nat \<Rightarrow> bool \<Rightarrow> bool \<Rightarrow> sid \<Rightarrow> sched \<Rightarrow> smp \<Rightarrow> smp option" where
  "pick_turn c p y prev st m =
     map_option (\<lambda>(ch, st'). m\<lparr>sys := st', ph := after_pick p y prev ch\<rparr>) (schedule_pick c p y prev st)"

definition need :: "bool \<Rightarrow> unit option" where
  "need b = (if b then Some () else None)"

fun smp_do :: "nat \<Rightarrow> act \<Rightarrow> smp \<Rightarrow> smp option" where
  "smp_do N (Lock c) m = do { need (c < N \<and> bkl m = None); Some (m\<lparr>bkl := Some c\<rparr>) }"
| "smp_do N Unlock m = do { need (ph m = Outside); Some (m\<lparr>bkl := None\<rparr>) }"
| "smp_do N (Prepare c) m = do {
     s \<leftarrow> cur (sys m) c; need (runs_on N m c s \<and> \<not> is_idle N m s);
     Some (m\<lparr>sys := sched_wait_prepare c (sys m)\<rparr>) }"
| "smp_do N (Finish s) m = Some (m\<lparr>sys := sched_finished s (sys m)\<rparr>)"
| "smp_do N (Set_prio c s prior) m = do {
     need (c < N \<and> free_cpu m c \<and> prior < 256);
     st \<leftarrow> sched_change_priority N c s prior priority_set (sys m);
     Some (m\<lparr>sys := st, raced := raced m \<or> extracted (ph m) s\<rparr>) }"
| "smp_do N (Freeze s) m = do {
     c \<leftarrow> bkl m; need (free_cpu m c \<and> wk m s = No_waker \<and> \<not> runs_on N m c s \<and> finished (sch (sys m) s));
     st \<leftarrow> sched_freeze s (sys m);
     Some (m\<lparr>sys := st, raced := raced m \<or> on_cpu N m s \<or> is_idle N m s\<rparr>) }"
| "smp_do N Die m = do {
     c \<leftarrow> bkl m; s \<leftarrow> cur (sys m) c;
     need (runs_on N m c s \<and> \<not> is_idle N m s \<and> wk m s = No_waker \<and> finished (sch (sys m) s));
     st \<leftarrow> sched_freeze s (sys m);
     Some (m\<lparr>sys := upd_schedee s (\<lambda>x. x\<lparr>waiting := Waiting\<rparr>) st, ph := Dying s\<rparr>) }"
| "smp_do N Die_enter m = do {
     c \<leftarrow> bkl m;
     case ph m of Dying prev \<Rightarrow> (case schedule_enter c False prev (sys m) of (y, st) \<Rightarrow> pick_turn c False y prev st m)
     | _ \<Rightarrow> None }"
| "smp_do N (Enter p) m = do {
     c \<leftarrow> bkl m; prev \<leftarrow> cur (sys m) c; need (runs_on N m c prev);
     case schedule_enter c p prev (sys m) of (y, st) \<Rightarrow> pick_turn c p y prev st m }"
| "smp_do N Again m = do {
     c \<leftarrow> bkl m; case ph m of LtRun p y prev \<Rightarrow> pick_turn c p y prev (sys m) m | _ \<Rightarrow> None }"
| "smp_do N Light m = (case ph m of
     Picked p y prev s \<Rightarrow> do { need (\<not> schedee_is_thread s (sys m));
       Some (m\<lparr>sys := lthread_clear_ready s (sys m), ph := LtCleared p y prev s\<rparr>) } | _ \<Rightarrow> None)"
| "smp_do N Light_run m = (case ph m of
     LtCleared p y prev s \<Rightarrow> Some (m\<lparr>sys := lthread_set_waiting s (sys m), ph := LtRun p y prev\<rparr>) | _ \<Rightarrow> None)"
| "smp_do N Activate m = (case ph m of
     Picked p y prev s \<Rightarrow> do { need (schedee_is_thread s (sys m));
       if s = prev then Some (m\<lparr>ph := Finishing s\<rparr>)
       else Some (m\<lparr>sys := sched_start_switch s (sys m), ph := Activated prev s\<rparr>) } | _ \<Rightarrow> None)"
| "smp_do N Clear m = (case ph m of
     Activated prev s \<Rightarrow> Some (m\<lparr>sys := deactivate_clear prev (sys m), ph := Cleared prev s\<rparr>) | _ \<Rightarrow> None)"
| "smp_do N Wake m = do {
     c \<leftarrow> bkl m;
     case ph m of Cleared prev s \<Rightarrow> do { need (wk m prev = No_waker); st \<leftarrow> deactivate_wake N c prev (sys m);
       Some (m\<lparr>sys := st, ph := Woken prev s\<rparr>) } | _ \<Rightarrow> None }"
| "smp_do N Release m = (case ph m of
     Woken prev s \<Rightarrow> Some (m\<lparr>sys := deactivate_release prev (sys m), ph := Finishing s\<rparr>) | _ \<Rightarrow> None)"
| "smp_do N Tick m = do {
     c \<leftarrow> bkl m; case ph m of Finishing s \<Rightarrow> Some (m\<lparr>sys := sched_ticker_update N c (sys m), ph := Outside\<rparr>) | _ \<Rightarrow> None }"
| "smp_do N (W_see s) m = do { need (wk m s = No_waker \<and> was_waiting s (sys m)); Some (m\<lparr>wk := (wk m)(s := Seen)\<rparr>) }"
| "smp_do N (W_ready s) m = do {
     need (wk m s = Seen);
     case sched_wakeup_ready s (sys m) of (r, st) \<Rightarrow>
       Some (m\<lparr>sys := st, wk := (wk m)(s := if r then No_waker else Not_ready)\<rparr>) }"
| "smp_do N (W_mark s) m = do {
     need (wk m s = Not_ready); Some (m\<lparr>sys := wakeup_mark s (sys m), wk := (wk m)(s := Marked)\<rparr>) }"
| "smp_do N (W_check s) m = do {
     need (wk m s = Marked);
     Some (m\<lparr>wk := (wk m)(s := if active (sch (sys m) s) then No_waker else Inactive)\<rparr>) }"
| "smp_do N (W_wake c s) m = do {
     need (wk m s = Inactive \<and> c < N); st \<leftarrow> sched_wakeup_waiting N c s (sys m);
     Some (m\<lparr>sys := st, wk := (wk m)(s := No_waker)\<rparr>) }"

fun smp_run :: "nat \<Rightarrow> act list \<Rightarrow> smp \<Rightarrow> smp option" where
  "smp_run N [] m = Some m"
| "smp_run N (a # as) m = do { m' \<leftarrow> smp_do N a m; smp_run N as m' }"

lemma need_Some [simp]: "need b = Some u \<longleftrightarrow> b"
  by (simp add: need_def)

lemma do_check:
  "wk m s = Marked \<Longrightarrow> active (sch (sys m) s) \<Longrightarrow> smp_step N m (m\<lparr>wk := (wk m)(s := No_waker)\<rparr>)"
  "wk m s = Marked \<Longrightarrow> \<not> active (sch (sys m) s) \<Longrightarrow> smp_step N m (m\<lparr>wk := (wk m)(s := Inactive)\<rparr>)"
  using smp_step.w_check [of m s N] by simp_all

lemma smp_do_step: "smp_do N a m = Some m' \<Longrightarrow> smp_step N m m'"
  by (cases a)
    (auto simp: pick_turn_def simp del: fun_upd_apply intro: smp_step.intros smp_step.w_ready [where r = True, simplified]
       smp_step.w_ready [where r = False, simplified] do_check
     split: Option.bind_split_asm phase.split_asm prod.split_asm if_split_asm)

lemma smp_run_reach: "smp_reach N m \<Longrightarrow> smp_run N as m = Some m' \<Longrightarrow> smp_reach N m'"
proof (induction "as" arbitrary: m)
  case (Cons a as)
  then obtain y where y: "smp_do N a m = Some y" "smp_run N as y = Some m'" by (auto simp: bind_eq_Some_conv)
  then show ?case using Cons.IH [OF smp_reach.step [OF Cons.prems(1) smp_do_step [OF y(1)]]] by simp
qed simp

definition boot2 :: smp where
  "boot2 = smp_boot 2 (\<lambda>_. SCHEDEE_THREAD) (\<lambda>_. 100) (\<lambda>_. SCHEDEE_AFFINITY_NONE)"

lemma is_idle_code [code]: "is_idle N m s \<longleftrightarrow> list_ex (\<lambda>c. cpu_idle (sys m) c = Some s) [0..<N]"
  by (auto simp: is_idle_def list_ex_iff)

lemma on_cpu_code [code]: "on_cpu N m s \<longleftrightarrow> list_ex (\<lambda>c. runs_on N m c s) [0..<N] \<or> s \<in> ph_on (ph m)"
  by (auto simp: on_cpu_def list_ex_iff)

section \<open>Runs on two processors\<close>

text \<open>
  Threads 0 and 1 are the idle threads, thread 2 has priority 100 and may run on both processors. It is
  woken up from processor 1 while processor 0 holds the big lock; processor 0 extracts it, runs it, and
  switches away from it again while another wake-up is under way.
\<close>

definition wake_up :: "nat \<Rightarrow> sid \<Rightarrow> act list" where
  "wake_up c s = [W_see s, W_ready s, W_mark s, W_check s, W_wake c s]"

definition to_picked :: "act list" where
  "to_picked = Lock 0 # wake_up 1 2 @ [Enter True]"

definition switch_over :: "act list" where
  "switch_over = [Activate, Clear, Wake, Release, Tick]"

definition to_cleared :: "act list" where
  "to_cleared = to_picked @ switch_over @ [Prepare 0, Enter False, W_see 2, W_ready 2, W_mark 2, W_check 2, Activate, Clear]"

definition to_doubled :: "act list" where
  "to_doubled = to_picked @ [Set_prio 1 2 101] @ switch_over @ [Unlock, Lock 1, Enter True] @ switch_over"


lemma run_boot2: "smp_run 2 as boot2 = Some m \<Longrightarrow> smp_reach 2 m"
  unfolding boot2_def by (rule smp_run_reach [OF smp_reach.boot]) simp_all

lemma run_value:
  assumes "map_option f (smp_run 2 as boot2) = Some v"
  obtains m where "smp_run 2 as boot2 = Some m" "smp_reach 2 m" "f m = v"
  using assms run_boot2 by auto

lemma run_woken:
  "map_option (\<lambda>m. (raced m, ph m, bkl m, runs_on 2 m 0 0, runs_on 2 m 1 1, rq_nr_ready (sys m))) (smp_run 2 (Lock 0 # wake_up 1 2) boot2)
    = Some (False, Outside, Some 0, True, True, 1)"
  by code_simp

lemma run_picked:
  "map_option (\<lambda>m. (raced m, ph m, runs_on 2 m 1 1, ready (sch (sys m) 2))) (smp_run 2 to_picked boot2)
    = Some (False, Picked True True 0 2, True, True)"
  by code_simp

lemma run_cleared:
  "map_option (\<lambda>m. (raced m, ph m, wk m 2, finished (sch (sys m) 2), waiting (sch (sys m) 2), active (sch (sys m) 2))) (smp_run 2 to_cleared boot2)
    = Some (False, Cleared 2 0, No_waker, False, TW_SMP_WAKING, False)"
  by code_simp

lemma run_doubled:
  "map_option (\<lambda>m. (runs_on 2 m 0 2, runs_on 2 m 1 2)) (smp_run 2 to_doubled boot2) = Some (True, True)"
  by code_simp


section \<open>Properties\<close>

text \<open>
  C2: in every reachable state before a raced call no schedee runs on two processors; what runs is
  active, not in the run queue and not on the stack that the processor inside \<^verbatim>\<open>schedule\<close> uses; and a
  thread that \<^verbatim>\<open>schedule\<close> is about to switch to is not active on any processor and not queued, so that
  its stack is free, although wake-ups and priority changes do not take the big lock.
\<close>

theorem sched_one_cpu:
  assumes "smp_reach N m" "\<not> raced m"
  shows "(\<forall>c d s. runs_on N m c s \<and> runs_on N m d s \<longrightarrow> c = d)
    \<and> (\<forall>c s. runs_on N m c s \<longrightarrow> active (sch (sys m) s) \<and> ready (sch (sys m) s) \<and> s \<notin> qset (sys m) \<and> s \<notin> ph_on (ph m))
    \<and> (\<forall>p y prev s. ph m = Picked p y prev s \<and> s \<noteq> prev \<longrightarrow> \<not> active (sch (sys m) s) \<and> s \<notin> qset (sys m) \<and> (\<forall>c. \<not> runs_on N m c s))"
proof (intro conjI allI impI)
  note inv = reach_inv [OF assms]
  show "c = d" if "runs_on N m c s \<and> runs_on N m d s" for c d s
    using cpus_okD(2) [OF smp_invD(2) [OF inv]] that by blast
  show "active (sch (sys m) s)" "ready (sch (sys m) s)" "s \<notin> qset (sys m)" if "runs_on N m c s" for c s
    using runs_onD [OF inv that] by simp_all
  show "s \<notin> ph_on (ph m)" if "runs_on N m c s" for c s
    using smp_invD(1) [OF inv] that by (auto simp: sets_ok_def runs_def)
  show "\<not> active (sch (sys m) s)" "s \<notin> qset (sys m)" if "ph m = Picked p y prev s \<and> s \<noteq> prev" for p y prev s
    using held_ready [OF inv, of s] sets_ok_readyD(2) [OF smp_invD(1) [OF inv], of s] that by auto
  show "\<not> runs_on N m c s" if "ph m = Picked p y prev s \<and> s \<noteq> prev" for p y prev s c
    using held_ready(2) [OF inv, of s] that by (auto simp: runs_def)
qed

theorem sched_one_cpu_witness:
  "\<exists>m :: smp. smp_reach 2 m \<and> \<not> raced m \<and> ph m = Picked True True 0 2 \<and> runs_on 2 m 1 1 \<and> 1 \<notin> qset (sys m)
    \<and> \<not> active (sch (sys m) 2) \<and> 2 \<notin> qset (sys m)"
proof -
  obtain m where m: "smp_reach 2 m" "\<not> raced m" "ph m = Picked True True 0 2" "runs_on 2 m 1 1"
    by (rule run_value [OF run_picked]) auto
  then show ?thesis
    using sched_one_cpu [OF m(1,2), THEN conjunct2, THEN conjunct1, rule_format, OF m(4)]
      sched_one_cpu [OF m(1,2), THEN conjunct2, THEN conjunct2, rule_format, of True True 0 2] by auto
qed

text \<open>
  C1: no wake-up is lost. In every reachable state before a raced call a schedee that is not finished and
  that no caller of \<^verbatim>\<open>sched_wakeup\<close> holds is either waiting, or ready, or the light thread that is being
  started, or marked \<^verbatim>\<open>TW_SMP_WAKING\<close> while a processor is still switching away from it; with no switch
  in progress it is waiting or in the run queue or running. The processor that switches away from a
  marked schedee puts it on the run queue.
\<close>

theorem sched_no_lost_wakeup:
  assumes "smp_reach N m" "\<not> raced m" "\<not> finished (sch (sys m) s)" "wk m s = No_waker"
  shows "(waiting (sch (sys m) s) = Not_waiting \<longrightarrow> ready (sch (sys m) s) \<or> (\<exists>p y prev. ph m = LtCleared p y prev s))
    \<and> (waiting (sch (sys m) s) = TW_SMP_WAKING \<longrightarrow> s \<in> ph_on (ph m) \<or> (\<exists>n. ph m = Cleared s n))
    \<and> (ph m = Outside \<longrightarrow> waiting (sch (sys m) s) = Waiting \<or> s \<in> qset (sys m) \<or> (\<exists>c. runs_on N m c s))
    \<and> (\<forall>n c. ph m = Cleared s n \<and> waiting (sch (sys m) s) = TW_SMP_WAKING \<longrightarrow>
         (\<exists>st. deactivate_wake N c s (sys m) = Some st \<and> s \<in> qset st \<and> ready (sch st s)))"
proof -
  note inv = reach_inv [OF assms(1,2)]
  note so = smp_invD(1) [OF inv] and w = smp_invD(4) [OF inv, of s] and rd = sets_ok_readyD [OF smp_invD(1) [OF inv], of s]
  have lt: "ph_lt (ph m) s \<Longrightarrow> \<exists>p y prev. ph m = LtCleared p y prev s" by (cases "ph m") auto
  have cl: "ph_cleared (ph m) s \<Longrightarrow> \<exists>n. ph m = Cleared s n" by (cases "ph m") auto
  have nw: "waiting (sch (sys m) s) = Not_waiting \<longrightarrow> ready (sch (sys m) s) \<or> ph_lt (ph m) s"
    using w assms(3) by (simp add: wait_ok_def)
  have wk: "waiting (sch (sys m) s) = TW_SMP_WAKING \<longrightarrow> \<not> ready (sch (sys m) s) \<and> (s \<in> ph_on (ph m) \<or> ph_cleared (ph m) s)"
  proof
    assume "waiting (sch (sys m) s) = TW_SMP_WAKING"
    then have "\<not> ready (sch (sys m) s) \<and> (active (sch (sys m) s) \<or> ph_cleared (ph m) s)"
      using w assms(3,4) by (simp add: wait_ok_def)
    then show "\<not> ready (sch (sys m) s) \<and> (s \<in> ph_on (ph m) \<or> ph_cleared (ph m) s)" using rd by blast
  qed
  have out: "waiting (sch (sys m) s) = Waiting \<or> s \<in> qset (sys m) \<or> (\<exists>c. runs_on N m c s)" if "ph m = Outside"
  proof (cases "waiting (sch (sys m) s)")
    case Not_waiting
    then have "ready (sch (sys m) s)" using nw that by simp
    then show ?thesis using rd(1) that by (auto simp: runs_def)
  next
    case TW_SMP_WAKING
    then show ?thesis using wk that by simp
  qed simp
  have wake: "\<exists>st. deactivate_wake N c s (sys m) = Some st \<and> s \<in> qset st \<and> ready (sch st s)"
    if "ph m = Cleared s n \<and> waiting (sch (sys m) s) = TW_SMP_WAKING" for n c
  proof -
    have "s \<notin> qset (sys m)" using wk rd(1) that by blast
    then show ?thesis using sched_enqueue_ok(2) [OF q_ok_sets [OF so], of s] that assms(3)
      by (auto simp: deactivate_wake_def sched_wakeup_waiting_def sched_wokenup_clear_waiting_def sched_enqueue_set_ready_def)
  qed
  show ?thesis using nw wk lt cl out wake by blast
qed

theorem sched_no_lost_wakeup_witness:
  "\<exists>m :: smp. smp_reach 2 m \<and> ph m = Cleared 2 0 \<and> waiting (sch (sys m) 2) = TW_SMP_WAKING
    \<and> (\<exists>st. deactivate_wake 2 0 2 (sys m) = Some st \<and> 2 \<in> qset st \<and> ready (sch st 2))"
proof -
  obtain m where m: "smp_reach 2 m" "\<not> raced m" "\<not> finished (sch (sys m) 2)" "wk m 2 = No_waker"
    "ph m = Cleared 2 0" "waiting (sch (sys m) 2) = TW_SMP_WAKING"
    by (rule run_value [OF run_cleared]) auto
  then show ?thesis using sched_no_lost_wakeup [OF m(1-4)] by blast
qed

text \<open>
  C3: the assertions of the scheduler about the run queue and the wait state hold and its count is exact.
  In every reachable state before a raced call the count of ready schedees is the length of the run
  queue; a processor that enters \<^verbatim>\<open>schedule\<close>, from a thread that runs or that has ended itself, or takes
  another turn of its loop finds a schedee; the deferred and the direct wake-up find the schedee waiting;
  and a priority change and a freeze, at any point of another processor's switch, go through for every
  schedee other than the one that is extracted and not yet active.
\<close>

theorem sched_assertions_hold:
  assumes "smp_reach N m" "\<not> raced m"
  shows "rq_nr_ready (sys m) = int (length (level_order 256 (ra_level (queue (sys m), at (sys m)))))
    \<and> (\<forall>c p prev. bkl m = Some c \<and> runs_on N m c prev \<longrightarrow>
         (case schedule_enter c p prev (sys m) of (y, st) \<Rightarrow> schedule_pick c p y prev st \<noteq> None))
    \<and> (\<forall>c prev. bkl m = Some c \<and> ph m = Dying prev \<longrightarrow>
         (case schedule_enter c False prev (sys m) of (y, st) \<Rightarrow> schedule_pick c False y prev st \<noteq> None))
    \<and> (\<forall>c p y prev. bkl m = Some c \<and> ph m = LtRun p y prev \<longrightarrow> schedule_pick c p y prev (sys m) \<noteq> None)
    \<and> (\<forall>c prev s. ph m = Cleared prev s \<longrightarrow> deactivate_wake N c prev (sys m) \<noteq> None)
    \<and> (\<forall>c s. wk m s = Inactive \<longrightarrow> sched_wakeup_waiting N c s (sys m) \<noteq> None)
    \<and> (\<forall>c s prior. \<forall>setter \<in> {priority_set, priority_inherit, priority_reverse}. \<not> extracted (ph m) s \<and> prior < 256 \<longrightarrow>
         sched_change_priority N c s prior setter (sys m) \<noteq> None)
    \<and> (\<forall>s. \<not> extracted (ph m) s \<longrightarrow> sched_freeze s (sys m) \<noteq> None)"
proof (intro conjI allI ballI impI)
  note inv = reach_inv [OF assms]
  have q: "q_ok (sys m)" using q_ok_sets [OF smp_invD(1) [OF inv]] .
  then have "distinct (level_order 256 (ra_level (queue (sys m), at (sys m))))" using ra_inv_distinct by (simp add: q_ok_def)
  then show "rq_nr_ready (sys m) = int (length (level_order 256 (ra_level (queue (sys m), at (sys m)))))"
    using q by (simp add: q_ok_def qset_def distinct_card)
  show "case schedule_enter c p prev (sys m) of (y, st) \<Rightarrow> schedule_pick c p y prev st \<noteq> None"
    if "bkl m = Some c \<and> runs_on N m c prev" for c p prev
    by (rule turn_goes_on [where N = N]) (use that enter_inv [OF inv] in auto)
  show "case schedule_enter c False prev (sys m) of (y, st) \<Rightarrow> schedule_pick c False y prev st \<noteq> None"
    if "bkl m = Some c \<and> ph m = Dying prev" for c prev
    by (rule turn_goes_on [where N = N]) (use that die_enter_inv [OF inv] in auto)
  show "schedule_pick c p y prev (sys m) \<noteq> None" if "bkl m = Some c \<and> ph m = LtRun p y prev" for c p y prev
    using again_inv [OF inv, of p y prev c] that by auto
  show "deactivate_wake N c prev (sys m) \<noteq> None" for c prev by (simp add: deactivate_wake_def sched_wakeup_waiting_def)
  show "sched_wakeup_waiting N c s (sys m) \<noteq> None" if "wk m s = Inactive" for c s
    using wake_ok [OF inv that, of c] by auto
  show "sched_change_priority N c s prior setter (sys m) \<noteq> None"
    if "setter \<in> {priority_set, priority_inherit, priority_reverse}" "\<not> extracted (ph m) s \<and> prior < 256" for c s prior setter
    using prio_inv [OF inv, of s prior setter c] that by auto
  show "sched_freeze s (sys m) \<noteq> None" if "\<not> extracted (ph m) s" for s
    using freeze_goes_on [OF q in_rq_exact(1) [OF inv that]] .
qed

theorem sched_assertions_hold_witness:
  "\<exists>m :: smp. smp_reach 2 m \<and> rq_nr_ready (sys m) = 1
    \<and> length (level_order 256 (ra_level (queue (sys m), at (sys m)))) = 1
    \<and> (case schedule_enter 0 True 0 (sys m) of (y, st) \<Rightarrow> schedule_pick 0 True y 0 st \<noteq> None)
    \<and> sched_change_priority 2 1 2 50 priority_set (sys m) \<noteq> None
    \<and> sched_freeze 1 (sys m) \<noteq> None \<and> sched_freeze 2 (sys m) \<noteq> None"
proof -
  obtain m where m: "smp_reach 2 m" "\<not> raced m" "ph m = Outside" "bkl m = Some 0" "runs_on 2 m 0 0" "rq_nr_ready (sys m) = 1"
    by (rule run_value [OF run_woken]) auto
  note a = sched_assertions_hold [OF m(1,2)]
  have "length (level_order 256 (ra_level (queue (sys m), at (sys m)))) = 1" using a m(6) by linarith
  moreover have "case schedule_enter 0 True 0 (sys m) of (y, st) \<Rightarrow> schedule_pick 0 True y 0 st \<noteq> None"
    using a [THEN conjunct2, THEN conjunct1, rule_format, of 0 0 True] m(4,5) by simp
  moreover have "sched_change_priority 2 1 2 50 priority_set (sys m) \<noteq> None"
    using a [THEN conjunct2, THEN conjunct2, THEN conjunct2, THEN conjunct2, THEN conjunct2, THEN conjunct2, THEN conjunct1] m(3) by simp
  moreover have "sched_freeze s (sys m) \<noteq> None" for s using a m(3) by simp
  ultimately show ?thesis using m(1,6) by (intro exI [of _ m] conjI)
qed

text \<open>
  C37: the test by which \<^verbatim>\<open>sched_change_priority\<close> and \<^verbatim>\<open>sched_freeze\<close> decide that a schedee is in the
  run queue, ready and not active. Before a raced call it is exact when no processor is inside
  \<^verbatim>\<open>schedule\<close>, and inside \<^verbatim>\<open>schedule\<close> it answers yes only for queued schedees except one; but for a
  thread that \<^verbatim>\<open>schedule\<close> has extracted and not yet activated it answers yes although the thread is in
  no queue.
\<close>

theorem in_rq_test_exact_outside:
  assumes "smp_reach N m" "\<not> raced m"
  shows "(ph m = Outside \<longrightarrow> (\<forall>s. in_rq s (sys m) \<longleftrightarrow> s \<in> qset (sys m)))
    \<and> (\<forall>s. in_rq s (sys m) \<and> \<not> extracted (ph m) s \<longrightarrow> s \<in> qset (sys m))
    \<and> (\<forall>p y prev s. ph m = Picked p y prev s \<and> s \<noteq> prev \<longrightarrow> in_rq s (sys m) \<and> s \<notin> qset (sys m))"
proof (intro conjI allI impI)
  note inv = reach_inv [OF assms]
  show "in_rq s (sys m) \<longleftrightarrow> s \<in> qset (sys m)" if "ph m = Outside" for s
    using in_rq_exact [OF inv, of s] that by auto
  show "s \<in> qset (sys m)" if "in_rq s (sys m) \<and> \<not> extracted (ph m) s" for s
    using in_rq_exact(1) [OF inv, of s] that by blast
  show "in_rq s (sys m)" "s \<notin> qset (sys m)" if "ph m = Picked p y prev s \<and> s \<noteq> prev" for p y prev s
    using held_ready [OF inv, of s] sets_ok_readyD(2) [OF smp_invD(1) [OF inv], of s] that by (auto simp: in_rq_def)
qed

theorem in_rq_test_exact_outside_witness:
  "\<exists>m :: smp. smp_reach 2 m \<and> ph m = Picked True True 0 2 \<and> in_rq 2 (sys m) \<and> 2 \<notin> qset (sys m)"
proof -
  obtain m where m: "smp_reach 2 m" "\<not> raced m" "ph m = Picked True True 0 2"
    by (rule run_value [OF run_picked]) auto
  then show ?thesis
    using in_rq_test_exact_outside [OF m(1,2), THEN conjunct2, THEN conjunct2, rule_format, of True True 0 2] by auto
qed

text \<open>
  C39: the exception is real. Processor 0 has extracted thread 2, which is alone at its level, and not
  yet marked it active; processor 1 changes the priority of thread 2, which needs the lock of the run queue
  only, finds it ready and not active and queues it; processor 0 goes on and runs it; then processor 1
  enters \<^verbatim>\<open>schedule\<close>, extracts it as well, and one thread runs on two processors.
\<close>

theorem priority_change_doubles_thread:
  "\<exists>m :: smp. smp_reach 2 m \<and> runs_on 2 m 0 2 \<and> runs_on 2 m 1 2"
  by (rule run_value [OF run_doubled]) auto


end
