(* ===== verification/Crc.thy ===== *)
theory Crc
  imports Prelude
begin

text \<open>
  The checksums of \<^verbatim>\<open>lib/crypt/crc32\<close> and \<^verbatim>\<open>lib/crypt/crc16\<close>: byte-wise and table-driven. They are
  compared with the division of the message, bit by bit, by the generator polynomial. An
  \<^verbatim>\<open>unsigned long\<close> has 64 bits.
\<close>

section \<open>CRC-32\<close>

text \<open>One turn of the inner loop of \<^verbatim>\<open>count_crc32\<close>, for any generator.\<close>

definition crc_bit :: "'w::len word \<Rightarrow> 'w word \<Rightarrow> 'w word" where
  "crc_bit poly crc = (if crc AND 1 \<noteq> 0 then drop_bit 1 crc XOR poly else drop_bit 1 crc)"

definition crc_table :: "u64 list" where
  "crc_table = map (\<lambda>i. (crc_bit 0xEDB88320 ^^ 8) (of_nat i)) [0..<256]"

definition count_crc32 :: "u8 list \<Rightarrow> u64" where
  "count_crc32 xs =
     foldl (\<lambda>crc b. crc_table ! unat ((crc XOR ucast b) AND 0xFF) XOR drop_bit 8 crc) 0xFFFFFFFF xs XOR 0xFFFFFFFF"

definition crc32_tab :: "u64 list" where
  "crc32_tab = [
     0x00000000, 0x77073096, 0xee0e612c, 0x990951ba, 0x076dc419, 0x706af48f, 0xe963a535, 0x9e6495a3,
     0x0edb8832, 0x79dcb8a4, 0xe0d5e91e, 0x97d2d988, 0x09b64c2b, 0x7eb17cbd, 0xe7b82d07, 0x90bf1d91,
     0x1db71064, 0x6ab020f2, 0xf3b97148, 0x84be41de, 0x1adad47d, 0x6ddde4eb, 0xf4d4b551, 0x83d385c7,
     0x136c9856, 0x646ba8c0, 0xfd62f97a, 0x8a65c9ec, 0x14015c4f, 0x63066cd9, 0xfa0f3d63, 0x8d080df5,
     0x3b6e20c8, 0x4c69105e, 0xd56041e4, 0xa2677172, 0x3c03e4d1, 0x4b04d447, 0xd20d85fd, 0xa50ab56b,
     0x35b5a8fa, 0x42b2986c, 0xdbbbc9d6, 0xacbcf940, 0x32d86ce3, 0x45df5c75, 0xdcd60dcf, 0xabd13d59,
     0x26d930ac, 0x51de003a, 0xc8d75180, 0xbfd06116, 0x21b4f4b5, 0x56b3c423, 0xcfba9599, 0xb8bda50f,
     0x2802b89e, 0x5f058808, 0xc60cd9b2, 0xb10be924, 0x2f6f7c87, 0x58684c11, 0xc1611dab, 0xb6662d3d,
     0x76dc4190, 0x01db7106, 0x98d220bc, 0xefd5102a, 0x71b18589, 0x06b6b51f, 0x9fbfe4a5, 0xe8b8d433,
     0x7807c9a2, 0x0f00f934, 0x9609a88e, 0xe10e9818, 0x7f6a0dbb, 0x086d3d2d, 0x91646c97, 0xe6635c01,
     0x6b6b51f4, 0x1c6c6162, 0x856530d8, 0xf262004e, 0x6c0695ed, 0x1b01a57b, 0x8208f4c1, 0xf50fc457,
     0x65b0d9c6, 0x12b7e950, 0x8bbeb8ea, 0xfcb9887c, 0x62dd1ddf, 0x15da2d49, 0x8cd37cf3, 0xfbd44c65,
     0x4db26158, 0x3ab551ce, 0xa3bc0074, 0xd4bb30e2, 0x4adfa541, 0x3dd895d7, 0xa4d1c46d, 0xd3d6f4fb,
     0x4369e96a, 0x346ed9fc, 0xad678846, 0xda60b8d0, 0x44042d73, 0x33031de5, 0xaa0a4c5f, 0xdd0d7cc9,
     0x5005713c, 0x270241aa, 0xbe0b1010, 0xc90c2086, 0x5768b525, 0x206f85b3, 0xb966d409, 0xce61e49f,
     0x5edef90e, 0x29d9c998, 0xb0d09822, 0xc7d7a8b4, 0x59b33d17, 0x2eb40d81, 0xb7bd5c3b, 0xc0ba6cad,
     0xedb88320, 0x9abfb3b6, 0x03b6e20c, 0x74b1d29a, 0xead54739, 0x9dd277af, 0x04db2615, 0x73dc1683,
     0xe3630b12, 0x94643b84, 0x0d6d6a3e, 0x7a6a5aa8, 0xe40ecf0b, 0x9309ff9d, 0x0a00ae27, 0x7d079eb1,
     0xf00f9344, 0x8708a3d2, 0x1e01f268, 0x6906c2fe, 0xf762575d, 0x806567cb, 0x196c3671, 0x6e6b06e7,
     0xfed41b76, 0x89d32be0, 0x10da7a5a, 0x67dd4acc, 0xf9b9df6f, 0x8ebeeff9, 0x17b7be43, 0x60b08ed5,
     0xd6d6a3e8, 0xa1d1937e, 0x38d8c2c4, 0x4fdff252, 0xd1bb67f1, 0xa6bc5767, 0x3fb506dd, 0x48b2364b,
     0xd80d2bda, 0xaf0a1b4c, 0x36034af6, 0x41047a60, 0xdf60efc3, 0xa867df55, 0x316e8eef, 0x4669be79,
     0xcb61b38c, 0xbc66831a, 0x256fd2a0, 0x5268e236, 0xcc0c7795, 0xbb0b4703, 0x220216b9, 0x5505262f,
     0xc5ba3bbe, 0xb2bd0b28, 0x2bb45a92, 0x5cb36a04, 0xc2d7ffa7, 0xb5d0cf31, 0x2cd99e8b, 0x5bdeae1d,
     0x9b64c2b0, 0xec63f226, 0x756aa39c, 0x026d930a, 0x9c0906a9, 0xeb0e363f, 0x72076785, 0x05005713,
     0x95bf4a82, 0xe2b87a14, 0x7bb12bae, 0x0cb61b38, 0x92d28e9b, 0xe5d5be0d, 0x7cdcefb7, 0x0bdbdf21,
     0x86d3d2d4, 0xf1d4e242, 0x68ddb3f8, 0x1fda836e, 0x81be16cd, 0xf6b9265b, 0x6fb077e1, 0x18b74777,
     0x88085ae6, 0xff0f6a70, 0x66063bca, 0x11010b5c, 0x8f659eff, 0xf862ae69, 0x616bffd3, 0x166ccf45,
     0xa00ae278, 0xd70dd2ee, 0x4e048354, 0x3903b3c2, 0xa7672661, 0xd06016f7, 0x4969474d, 0x3e6e77db,
     0xaed16a4a, 0xd9d65adc, 0x40df0b66, 0x37d83bf0, 0xa9bcae53, 0xdebb9ec5, 0x47b2cf7f, 0x30b5ffe9,
     0xbdbdf21c, 0xcabac28a, 0x53b39330, 0x24b4a3a6, 0xbad03605, 0xcdd70693, 0x54de5729, 0x23d967bf,
     0xb3667a2e, 0xc4614ab8, 0x5d681b02, 0x2a6f2b94, 0xb40bbe37, 0xc30c8ea1, 0x5a05df1b, 0x2d02ef8d]"

definition crc32_accumulate :: "u64 \<Rightarrow> u8 list \<Rightarrow> u64" where
  "crc32_accumulate crc32val s =
     foldl (\<lambda>crc b. crc32_tab ! unat ((crc XOR ucast b) AND 0xff) XOR drop_bit 8 crc) crc32val s"

section \<open>CRC-16\<close>

definition crc16_table :: "u16 list" where
  "crc16_table = [
     0x0000, 0xc0c1, 0xc181, 0x0140, 0xc301, 0x03c0, 0x0280, 0xc241,
     0xc601, 0x06c0, 0x0780, 0xc741, 0x0500, 0xc5c1, 0xc481, 0x0440,
     0xcc01, 0x0cc0, 0x0d80, 0xcd41, 0x0f00, 0xcfc1, 0xce81, 0x0e40,
     0x0a00, 0xcac1, 0xcb81, 0x0b40, 0xc901, 0x09c0, 0x0880, 0xc841,
     0xd801, 0x18c0, 0x1980, 0xd941, 0x1b00, 0xdbc1, 0xda81, 0x1a40,
     0x1e00, 0xdec1, 0xdf81, 0x1f40, 0xdd01, 0x1dc0, 0x1c80, 0xdc41,
     0x1400, 0xd4c1, 0xd581, 0x1540, 0xd701, 0x17c0, 0x1680, 0xd641,
     0xd201, 0x12c0, 0x1380, 0xd341, 0x1100, 0xd1c1, 0xd081, 0x1040,
     0xf001, 0x30c0, 0x3180, 0xf141, 0x3300, 0xf3c1, 0xf281, 0x3240,
     0x3600, 0xf6c1, 0xf781, 0x3740, 0xf501, 0x35c0, 0x3480, 0xf441,
     0x3c00, 0xfcc1, 0xfd81, 0x3d40, 0xff01, 0x3fc0, 0x3e80, 0xfe41,
     0xfa01, 0x3ac0, 0x3b80, 0xfb41, 0x3900, 0xf9c1, 0xf881, 0x3840,
     0x2800, 0xe8c1, 0xe981, 0x2940, 0xeb01, 0x2bc0, 0x2a80, 0xea41,
     0xee01, 0x2ec0, 0x2f80, 0xef41, 0x2d00, 0xedc1, 0xec81, 0x2c40,
     0xe401, 0x24c0, 0x2580, 0xe541, 0x2700, 0xe7c1, 0xe681, 0x2640,
     0x2200, 0xe2c1, 0xe381, 0x2340, 0xe101, 0x21c0, 0x2080, 0xe041,
     0xa001, 0x60c0, 0x6180, 0xa141, 0x6300, 0xa3c1, 0xa281, 0x6240,
     0x6600, 0xa6c1, 0xa781, 0x6740, 0xa501, 0x65c0, 0x6480, 0xa441,
     0x6c00, 0xacc1, 0xad81, 0x6d40, 0xaf01, 0x6fc0, 0x6e80, 0xae41,
     0xaa01, 0x6ac0, 0x6b80, 0xab41, 0x6900, 0xa9c1, 0xa881, 0x6840,
     0x7800, 0xb8c1, 0xb981, 0x7940, 0xbb01, 0x7bc0, 0x7a80, 0xba41,
     0xbe01, 0x7ec0, 0x7f80, 0xbf41, 0x7d00, 0xbdc1, 0xbc81, 0x7c40,
     0xb401, 0x74c0, 0x7580, 0xb541, 0x7700, 0xb7c1, 0xb681, 0x7640,
     0x7200, 0xb2c1, 0xb381, 0x7340, 0xb101, 0x71c0, 0x7080, 0xb041,
     0x5000, 0x90c1, 0x9181, 0x5140, 0x9301, 0x53c0, 0x5280, 0x9241,
     0x9601, 0x56c0, 0x5780, 0x9741, 0x5500, 0x95c1, 0x9481, 0x5440,
     0x9c01, 0x5cc0, 0x5d80, 0x9d41, 0x5f00, 0x9fc1, 0x9e81, 0x5e40,
     0x5a00, 0x9ac1, 0x9b81, 0x5b40, 0x9901, 0x59c0, 0x5880, 0x9841,
     0x8801, 0x48c0, 0x4980, 0x8941, 0x4b00, 0x8bc1, 0x8a81, 0x4a40,
     0x4e00, 0x8ec1, 0x8f81, 0x4f40, 0x8d01, 0x4dc0, 0x4c80, 0x8c41,
     0x4400, 0x84c1, 0x8581, 0x4540, 0x8701, 0x47c0, 0x4680, 0x8641,
     0x8201, 0x42c0, 0x4380, 0x8341, 0x4100, 0x81c1, 0x8081, 0x4040]"

definition crc16_byte :: "u16 \<Rightarrow> u8 \<Rightarrow> u16" where
  "crc16_byte crc b = drop_bit 8 crc XOR crc16_table ! unat ((crc XOR ucast b) AND 0xff)"

primrec crc16 :: "u16 \<Rightarrow> u8 list \<Rightarrow> u16" where
  "crc16 crc [] = crc"
| "crc16 crc (b # bs) = crc16 (crc16_byte crc b) bs"

section \<open>Division by the generator\<close>

definition crc_bytes :: "'w::len word \<Rightarrow> 'w word \<Rightarrow> u8 list \<Rightarrow> 'w word" where
  "crc_bytes poly = foldl (\<lambda>crc b. (crc_bit poly ^^ 8) (crc XOR ucast b))"

lemma crc_bit_xor: "crc_bit p (x XOR y) = crc_bit p x XOR crc_bit p y"
proof -
  have o: "w AND 1 \<noteq> 0 \<longleftrightarrow> bit w 0" for w :: "'a word" by (simp add: bit_0 and_one_eq odd_iff_mod_2_eq_one)
  have d: "drop_bit 1 (x XOR y) = drop_bit 1 x XOR drop_bit 1 y" by (rule bit_word_eqI) (simp add: bit_simps)
  show ?thesis unfolding crc_bit_def o d by (auto simp: bit_simps xor.assoc xor.left_commute xor.commute)
qed

lemma crc_bits_xor: "(crc_bit p ^^ n) (x XOR y) = (crc_bit p ^^ n) x XOR (crc_bit p ^^ n) y"
  by (induction n) (simp_all add: crc_bit_xor)

lemma crc_bits_high: "(\<And>i. i < n \<Longrightarrow> \<not> bit y i) \<Longrightarrow> (crc_bit p ^^ n) y = drop_bit n y"
proof (induction n)
  case (Suc n)
  then have h: "(crc_bit p ^^ n) y = drop_bit n y" by simp
  have "drop_bit n y AND 1 = 0" using Suc.prems [of n] by (auto intro!: bit_word_eqI simp: bit_simps bit_1_iff)
  then have "crc_bit p (drop_bit n y) = drop_bit (Suc n) y" by (simp add: crc_bit_def)
  then show ?case by (simp add: h)
qed simp

text \<open>A byte at a time: the low byte goes through the table, the rest only moves down.\<close>

lemma crc_byte:
  "(crc_bit p ^^ 8) z = (crc_bit p ^^ 8) (z AND 0xFF) XOR drop_bit 8 z"
proof -
  have ff: "(0xFF :: 'a word) = mask 8" by (simp add: mask_eq_exp_minus_1)
  have z: "z = (z AND mask 8) XOR (z AND NOT (mask 8))" by (rule bit_word_eqI) (auto simp: bit_simps)
  have "(crc_bit p ^^ 8) (z AND NOT (mask 8)) = drop_bit 8 (z AND NOT (mask 8))"
    by (rule crc_bits_high) (auto simp: bit_simps dest: bit_imp_le_length)
  also have "drop_bit 8 (z AND NOT (mask 8)) = drop_bit 8 z" by (rule bit_word_eqI) (auto simp: bit_simps dest: bit_imp_le_length)
  finally show ?thesis unfolding ff by (subst z) (simp only: crc_bits_xor)
qed

text \<open>The tables are closed under exclusive or, so they are determined by the entries at the powers of two.\<close>

fun grow :: "'w::len word list \<Rightarrow> 'w word list \<Rightarrow> 'w word list" where
  "grow t [] = t"
| "grow t (b # bs) = grow (t @ map (\<lambda>x. b XOR x) t) bs"

lemma power_plus_xor: "r < 2 ^ k \<Longrightarrow> of_nat (2 ^ k + r) = (of_nat (2 ^ k) XOR of_nat r :: 'w::len word)"
proof -
  assume r: "r < 2 ^ k"
  have "take_bit k r = r" using r by (simp add: take_bit_nat_eq_self)
  then have "(2 ^ k AND r :: nat) = 0" by (metis and_exp_eq_0_iff_not_bit and.commute bit_take_bit_iff less_irrefl)
  then show ?thesis by (simp only: disjunctive_add_eq_xor of_nat_xor_eq)
qed

lemma grow_entries:
  assumes "t = map (\<lambda>i. (crc_bit p ^^ 8) (of_nat i)) [0..<2 ^ k]" "bs = map (\<lambda>j. (crc_bit p ^^ 8) (of_nat (2 ^ j))) [k..<k + n]"
  shows "grow t bs = map (\<lambda>i. (crc_bit p ^^ 8) (of_nat i)) [0..<2 ^ (k + n)]"
  using assms
proof (induction n arbitrary: t bs k)
  case (Suc n)
  have b: "bs = (crc_bit p ^^ 8) (of_nat (2 ^ k)) # map (\<lambda>j. (crc_bit p ^^ 8) (of_nat (2 ^ j))) [Suc k..<Suc k + n]"
    unfolding Suc.prems(2) by (subst upt_conv_Cons) simp_all
  have "[0..<2 ^ Suc k] = [0..<2 ^ k] @ map (\<lambda>r. 2 ^ k + r) [0..<2 ^ k]"
  proof -
    have "map (\<lambda>r. 2 ^ k + r) [0..<2 ^ k] = [2 ^ k..<2 ^ k + 2 ^ k]"
      by (rule nth_equalityI) simp_all
    moreover have "[0..<2 ^ k + 2 ^ k] = [0..<2 ^ k] @ [2 ^ k..<2 ^ k + 2 ^ k]" using upt_add_eq_append [of 0 "2 ^ k" "2 ^ k"] by simp
    ultimately show ?thesis by (simp only: power_Suc mult_2)
  qed
  then have "t @ map (\<lambda>x. (crc_bit p ^^ 8) (of_nat (2 ^ k)) XOR x) t = map (\<lambda>i. (crc_bit p ^^ 8) (of_nat i)) [0..<2 ^ Suc k]"
    unfolding Suc.prems(1) by (simp only: map_append map_map o_def) (simp add: power_plus_xor crc_bits_xor del: of_nat_add of_nat_power)
  from Suc.IH [OF this refl] show ?case unfolding b by simp
qed simp

lemma upt_8: "[0..<0 + 8] = [0, 1, 2, 3, 4, 5, 6, 7]"
  by (simp add: upt_conv_Cons)

lemma pow_8: "2 ^ (0 + 8) = (256 :: nat)"
  by simp

lemma bits_8: "(f ^^ 8) x = f (f (f (f (f (f (f (f x)))))))"
  by (simp add: eval_nat_numeral)

lemma crc32_tab_eq: "crc32_tab = map (\<lambda>i. (crc_bit 0xEDB88320 ^^ 8) (of_nat i)) [0..<256]"
proof -
  let ?b = "[0x77073096, 0xee0e612c, 0x076dc419, 0x0edb8832, 0x1db71064, 0x3b6e20c8, 0x76dc4190, 0xedb88320] :: u64 list"
  have b: "?b = map (\<lambda>j. (crc_bit 0xEDB88320 ^^ 8) (of_nat (2 ^ j))) [0..<0 + 8]"
    unfolding upt_8 list.map bits_8 by (simp add: crc_bit_def)
  have "crc32_tab = grow [0] ?b" by (simp add: crc32_tab_def)
  also have "\<dots> = map (\<lambda>i. (crc_bit 0xEDB88320 ^^ 8) (of_nat i)) [0..<2 ^ (0 + 8)]"
    by (rule grow_entries [OF _ b]) (simp add: bits_8 crc_bit_def)
  finally show ?thesis unfolding pow_8 .
qed

lemma crc16_table_eq: "crc16_table = map (\<lambda>i. (crc_bit 0xA001 ^^ 8) (of_nat i)) [0..<256]"
proof -
  let ?b = "[0xc0c1, 0xc181, 0xc301, 0xc601, 0xcc01, 0xd801, 0xf001, 0xa001] :: u16 list"
  have b: "?b = map (\<lambda>j. (crc_bit 0xA001 ^^ 8) (of_nat (2 ^ j))) [0..<0 + 8]"
    unfolding upt_8 list.map bits_8 by (simp add: crc_bit_def)
  have "crc16_table = grow [0] ?b" by (simp add: crc16_table_def)
  also have "\<dots> = map (\<lambda>i. (crc_bit 0xA001 ^^ 8) (of_nat i)) [0..<2 ^ (0 + 8)]"
    by (rule grow_entries [OF _ b]) (simp add: bits_8 crc_bit_def)
  finally show ?thesis unfolding pow_8 .
qed

lemma crc_table_eq: "crc_table = crc32_tab"
  unfolding crc_table_def crc32_tab_eq ..

lemma low_byte: "unat (w AND 0xFF :: 'w::len word) < 256"
proof -
  have "w AND 0xFF = take_bit 8 w" by (simp add: take_bit_eq_mask mask_eq_exp_minus_1)
  moreover have "take_bit 8 (unat w) < 2 ^ 8" by (rule take_bit_nat_less_exp)
  ultimately show ?thesis by (simp only: unsigned_take_bit_eq) simp
qed

lemma table_step:
  fixes crc :: "'w::len word"
  assumes "tab = map (\<lambda>i. (crc_bit p ^^ 8) (of_nat i)) [0..<n]" "n = 256"
  shows "tab ! unat ((crc XOR ucast (b::u8)) AND 0xFF) XOR drop_bit 8 crc = (crc_bit p ^^ 8) (crc XOR ucast b)"
proof -
  let ?z = "crc XOR ucast b"
  have "tab ! unat (?z AND 0xFF) = (crc_bit p ^^ 8) (?z AND 0xFF)"
    using low_byte [of ?z, folded assms(2)] unfolding assms(1) by simp
  moreover have "drop_bit 8 ?z = drop_bit 8 crc"
    by (rule bit_word_eqI) (auto simp: bit_simps dest: bit_imp_le_length)
  ultimately show ?thesis using crc_byte [of p ?z] by simp
qed

lemma foldl_cong: "(\<And>a x. f a x = g a x) \<Longrightarrow> foldl f a xs = foldl g a xs"
  by (induction xs arbitrary: a) simp_all

section \<open>Checksums inside the message\<close>

lemma crc16_byte_eq: "crc16_byte e b = (crc_bit 0xA001 ^^ 8) (e XOR ucast b)"
  using table_step [OF crc16_table_eq refl, of e b] by (simp add: crc16_byte_def xor.commute)

lemma crc32_accumulate_eq: "crc32_accumulate c xs = crc_bytes 0xEDB88320 c xs"
  unfolding crc32_accumulate_def crc_bytes_def by (rule foldl_cong) (rule table_step [OF crc32_tab_eq refl])

lemma crc16_eq: "crc16 d xs = crc_bytes 0xA001 d xs"
  by (induction xs arbitrary: d) (simp_all add: crc_bytes_def crc16_byte_eq)

lemma count_crc32_eq: "count_crc32 xs = crc_bytes 0xEDB88320 0xFFFFFFFF xs XOR 0xFFFFFFFF"
  by (simp add: count_crc32_def crc32_accumulate_eq [unfolded crc32_accumulate_def] crc_table_eq)

lemma crc_bytes_append: "crc_bytes p c (xs @ ys) = crc_bytes p (crc_bytes p c xs) ys"
  by (simp add: crc_bytes_def)

lemma crc_bytes_Cons: "crc_bytes p c (b # bs) = crc_bytes p ((crc_bit p ^^ 8) (c XOR ucast b)) bs"
  by (simp add: crc_bytes_def)

text \<open>The low \<open>n\<close> bytes of a word, the lowest first.\<close>

definition le_bytes :: "nat \<Rightarrow> 'w::len word \<Rightarrow> u8 list" where
  "le_bytes n v = map (\<lambda>i. ucast (drop_bit (8 * i) v)) [0..<n]"

lemma le_bytes_Suc: "le_bytes (Suc n) v = ucast v # le_bytes n (drop_bit 8 v)"
  by (simp add: le_bytes_def upt_conv_Cons map_Suc_upt [symmetric] del: upt_Suc) (simp add: add.commute)

text \<open>Feeding a word byte by byte is adding it to the state and dividing.\<close>

lemma crc_le_bytes: "crc_bytes p s (le_bytes n v) = (crc_bit p ^^ (8 * n)) (s XOR take_bit (8 * n) v)"
proof (induction n arbitrary: s v)
  case 0
  then show ?case by (simp add: le_bytes_def crc_bytes_def)
next
  case (Suc n)
  let ?hi = "take_bit (8 * Suc n) v AND NOT (mask 8)"
  have u: "ucast (ucast v :: u8) = take_bit 8 v" by (rule bit_word_eqI) (auto simp: bit_simps)
  have "(crc_bit p ^^ 8) ?hi = drop_bit 8 ?hi"
    by (rule crc_bits_high) (auto simp: bit_simps dest: bit_imp_le_length)
  also have "\<dots> = take_bit (8 * n) (drop_bit 8 v)" by (rule bit_word_eqI) (auto simp: bit_simps dest: bit_imp_le_length)
  finally have h: "(crc_bit p ^^ 8) ?hi = take_bit (8 * n) (drop_bit 8 v)" .
  have v: "take_bit (8 * Suc n) v = take_bit 8 v XOR ?hi" by (rule bit_word_eqI) (auto simp: bit_simps)
  have "(crc_bit p ^^ (8 * Suc n)) (s XOR take_bit (8 * Suc n) v) = (crc_bit p ^^ (8 * n)) ((crc_bit p ^^ 8) ((s XOR take_bit 8 v) XOR ?hi))"
    by (subst v) (simp add: funpow_add xor.assoc add.commute [of 8])
  also have "\<dots> = (crc_bit p ^^ (8 * n)) ((crc_bit p ^^ 8) (s XOR take_bit 8 v) XOR take_bit (8 * n) (drop_bit 8 v))"
    unfolding crc_bits_xor [where y = ?hi] h ..
  finally show ?case unfolding le_bytes_Suc crc_bytes_Cons Suc.IH u ..
qed

text \<open>The state of a checksum of \<open>k\<close> bits stays in \<open>k\<close> bits, and there a turn of the division is injective.\<close>

definition in_bits :: "nat \<Rightarrow> 'w::len word \<Rightarrow> bool" where
  "in_bits k x \<longleftrightarrow> (\<forall>i\<ge>k. \<not> bit x i)"

lemma in_bits_xor: "in_bits k x \<Longrightarrow> in_bits k y \<Longrightarrow> in_bits k (x XOR y)"
  by (simp add: in_bits_def bit_simps)

lemma in_bits_crc: "in_bits k x \<Longrightarrow> in_bits k p \<Longrightarrow> in_bits k ((crc_bit p ^^ n) x)"
  by (induction n) (auto simp: crc_bit_def in_bits_def bit_simps)

lemma in_bits_byte: "8 \<le> k \<Longrightarrow> in_bits k (ucast (b :: u8))"
  by (auto simp: in_bits_def bit_simps dest: bit_imp_le_length)

lemma in_bits_bytes: "8 \<le> k \<Longrightarrow> in_bits k p \<Longrightarrow> in_bits k c \<Longrightarrow> in_bits k (crc_bytes p c xs)"
  by (induction xs arbitrary: c) (simp_all add: crc_bytes_Cons in_bits_crc in_bits_xor in_bits_byte, simp add: crc_bytes_def)

lemma crc_bit_zero:
  assumes p: "bit p (k - 1)" "0 < k" and z: "in_bits k z" "crc_bit p z = 0"
  shows "z = 0"
proof -
  have o: "z AND 1 \<noteq> 0 \<longleftrightarrow> bit z 0" by (simp add: bit_0 and_one_eq odd_iff_mod_2_eq_one)
  have b: "\<not> bit z 0"
  proof
    assume "bit z 0"
    then have "drop_bit 1 z XOR p = 0" using z(2) o by (simp add: crc_bit_def)
    then have "\<not> bit (drop_bit 1 z XOR p) (k - 1)" by simp
    then show False using p z(1) by (simp add: bit_simps in_bits_def)
  qed
  then have d: "drop_bit 1 z = 0" using z(2) o by (simp add: crc_bit_def)
  show "z = 0"
  proof (rule bit_word_eqI)
    fix n
    show "bit z n = bit 0 n" using b arg_cong [OF d, of "\<lambda>w. bit w (n - 1)"] by (cases n) (simp_all add: bit_simps)
  qed
qed

lemma crc_bits_inj:
  assumes p: "bit p (k - 1)" "0 < k" "in_bits k p" and x: "in_bits k x" "in_bits k y" and e: "(crc_bit p ^^ n) x = (crc_bit p ^^ n) y"
  shows "x = y"
proof -
  have "z = 0" if "(crc_bit p ^^ n) z = 0" "in_bits k z" for z
    using that by (induction n) (use crc_bit_zero [OF p(1,2)] in_bits_crc [OF _ p(3)] in auto)
  from this [of "x XOR y"] have "x XOR y = 0" using in_bits_xor [OF x] e by (simp add: crc_bits_xor)
  then show ?thesis by (metis xor.assoc xor.right_neutral xor_self_eq xor.left_neutral)
qed

lemma crc_bytes_inj:
  assumes p: "bit p (k - 1)" "8 \<le> k" "in_bits k p" and x: "in_bits k c" "in_bits k d" and e: "crc_bytes p c xs = crc_bytes p d xs"
  shows "c = d"
  using x e
proof (induction xs arbitrary: c d)
  case (Cons b xs)
  have k: "0 < k" using p(2) by simp
  have i: "in_bits k (c XOR ucast b)" "in_bits k (d XOR ucast b)" using Cons.prems in_bits_byte [OF p(2), of b] by (auto intro: in_bits_xor)
  then have "(crc_bit p ^^ 8) (c XOR ucast b) = (crc_bit p ^^ 8) (d XOR ucast b)"
    using Cons.IH [OF in_bits_crc [OF i(1) p(3)] in_bits_crc [OF i(2) p(3)]] Cons.prems(3) by (simp add: crc_bytes_Cons)
  then have "c XOR ucast b = d XOR ucast b" by (rule crc_bits_inj [OF p(1) k p(3) i])
  then show ?case by (metis xor.assoc xor.right_neutral xor_self_eq)
qed (simp add: crc_bytes_def)

lemma crc_one_byte:
  fixes c :: "'w::len word"
  assumes p: "bit p (k - 1)" "8 \<le> k" "in_bits k p" "in_bits k c" "8 \<le> LENGTH('w)"
  shows "crc_bytes p c (xs @ b # ys) = crc_bytes p c (xs @ b' # ys) \<longleftrightarrow> b = b'"
proof
  let ?s = "crc_bytes p c xs"
  have s: "in_bits k ?s" by (rule in_bits_bytes) (use p in simp_all)
  have k: "0 < k" using p(2) by simp
  have i: "in_bits k (?s XOR ucast b)" for b :: u8 using in_bits_xor [OF s in_bits_byte [OF p(2)]] .
  assume "crc_bytes p c (xs @ b # ys) = crc_bytes p c (xs @ b' # ys)"
  then have "(crc_bit p ^^ 8) (?s XOR ucast b) = (crc_bit p ^^ 8) (?s XOR ucast b')"
    unfolding crc_bytes_append crc_bytes_Cons by (rule crc_bytes_inj [OF p(1-3) in_bits_crc [OF i p(3)] in_bits_crc [OF i p(3)]])
  then have "?s XOR ucast b = ?s XOR ucast b'" by (rule crc_bits_inj [OF p(1) k p(3) i i])
  then have "(ucast b :: 'w word) = ucast b'" by (metis xor.assoc xor.left_neutral xor_self_eq)
  then have "(ucast (ucast b :: 'w word) :: u8) = ucast (ucast b' :: 'w word)" by simp
  moreover have "(ucast (ucast x :: 'w word) :: u8) = x" for x :: u8
    using p(5) by (intro bit_word_eqI) (auto simp: bit_simps dest: bit_imp_le_length)
  ultimately show "b = b'" by simp
qed simp

lemma in_bits_less: "x < 2 ^ 32 \<Longrightarrow> in_bits 32 (x :: u64)"
proof -
  assume "x < 2 ^ 32"
  then have "uint x < 2 ^ 32" by (simp add: word_less_def)
  then have "take_bit 32 (uint x) = uint x" by (simp add: take_bit_int_eq_self)
  then have "bit (uint x) i \<Longrightarrow> i < 32" for i by (metis bit_take_bit_iff)
  then have "bit x i \<Longrightarrow> i < 32" for i using bit_imp_le_length [of x i] by (simp add: bit_uint_iff)
  then show ?thesis unfolding in_bits_def by (metis not_less)
qed

lemma in_bits_take: "in_bits k x \<Longrightarrow> take_bit k x = x"
  by (rule bit_word_eqI) (auto simp: bit_take_bit_iff in_bits_def not_less [symmetric])

lemma xor_cancel: "x XOR (x XOR y) = (y :: 'w::len word)"
  by (rule bit_word_eqI) (auto simp: bit_simps)

lemma xor_right_eq: "x XOR z = y XOR z \<longleftrightarrow> x = (y :: 'w::len word)"
  by (metis xor_cancel xor.commute)

lemma poly16: "bit (0xA001 :: u16) (16 - 1)" "in_bits 16 (w :: u16)"
  by (simp, simp add: in_bits_def) (use bit_imp_le_length [of w] in force)

lemma poly32: "bit (0xEDB88320 :: u64) (32 - 1)" "in_bits 32 (0xEDB88320 :: u64)" "in_bits 32 (0xFFFFFFFF :: u64)"
  by (simp, rule in_bits_less, simp, rule in_bits_less, simp)

lemma funpow_turn: "(f ^^ numeral k) x = (f ^^ pred_numeral k) (f x)"
  by (simp add: numeral_eq_Suc funpow_swap1)

lemma residue32: "(crc_bit 0xEDB88320 ^^ 32) (0xFFFFFFFF :: u64) = 0xDEBB20E3"
  by (simp add: funpow_turn crc_bit_def)

section \<open>Properties\<close>

text \<open>
  C28: the table-driven checksums compute the remainder of the division, bit by bit, by the generator
  polynomial: the table in the source and the one built at run time are the same, and so are the two
  CRC-32 routines; the same holds of CRC-16 with its own table.
\<close>

theorem crc_tables_divide:
  "crc32_accumulate c xs = crc_bytes 0xEDB88320 c xs
   \<and> count_crc32 xs = crc32_accumulate 0xFFFFFFFF xs XOR 0xFFFFFFFF
   \<and> crc16 d xs = crc_bytes 0xA001 d xs"
  by (simp add: crc32_accumulate_eq count_crc32_eq crc16_eq)

text \<open>
  C30: what a receiver relies on. A CRC-16 followed by its own two bytes, the low one first, divides out to
  zero, and a CRC-32 followed by its own four bytes, the lowest first, gives the fixed residue
  \<^verbatim>\<open>0x2144DF1C\<close>, whatever the message; and both checksums tell apart any two messages that differ in
  exactly one byte.
\<close>

theorem crc_residue_and_errors:
  "crc16 d (xs @ le_bytes 2 (crc16 d xs)) = 0
   \<and> count_crc32 (xs @ le_bytes 4 (count_crc32 xs)) = 0x2144DF1C
   \<and> (crc16 d (xs @ b # ys) = crc16 d (xs @ b' # ys) \<longleftrightarrow> b = b')
   \<and> (count_crc32 (xs @ b # ys) = count_crc32 (xs @ b' # ys) \<longleftrightarrow> b = b')"
proof (intro conjI)
  have z: "(crc_bit p ^^ n) 0 = 0" for p :: u16 and n by (induction n) (simp_all add: crc_bit_def)
  show "crc16 d (xs @ le_bytes 2 (crc16 d xs)) = 0"
    unfolding crc16_eq crc_bytes_append crc_le_bytes by (simp add: z take_bit_word_beyond_length_eq)
  let ?s = "crc_bytes 0xEDB88320 0xFFFFFFFF xs :: u64"
  have i: "in_bits 32 ?s" by (rule in_bits_bytes) (simp_all add: poly32)
  have "take_bit 32 (?s XOR 0xFFFFFFFF) = ?s XOR 0xFFFFFFFF"
    by (rule in_bits_take [OF in_bits_xor [OF i poly32(3)]])
  then have t: "?s XOR take_bit 32 (?s XOR 0xFFFFFFFF) = 0xFFFFFFFF" by (simp only: xor_cancel)
  have n: "8 * 4 = (32 :: nat)" by simp
  show "count_crc32 (xs @ le_bytes 4 (count_crc32 xs)) = 0x2144DF1C"
    unfolding count_crc32_eq crc_bytes_append crc_le_bytes n t residue32 by simp
  show "crc16 d (xs @ b # ys) = crc16 d (xs @ b' # ys) \<longleftrightarrow> b = b'"
    unfolding crc16_eq by (rule crc_one_byte [where k = 16]) (simp_all add: poly16 [simplified])
  have "crc_bytes 0xEDB88320 0xFFFFFFFF (xs @ b # ys) = (crc_bytes 0xEDB88320 0xFFFFFFFF (xs @ b' # ys) :: u64) \<longleftrightarrow> b = b'"
    by (rule crc_one_byte [where k = 32]) (simp_all add: poly32 poly32 [simplified])
  then show "count_crc32 (xs @ b # ys) = count_crc32 (xs @ b' # ys) \<longleftrightarrow> b = b'"
    unfolding count_crc32_eq xor_right_eq .
qed

end
