(* ===== verification/B64.thy ===== *)
theory B64
  imports Prelude
begin

text \<open>
  Base64, \<^verbatim>\<open>lib/crypt/b64/b64.c\<close>. Strings are lists of bytes. A pointer argument that may be
  \<^verbatim>\<open>NULL\<close> is an option; the output buffer is given by its size.
\<close>

datatype b64_error = B64_EINVAL | B64_ENOMEM

definition b2char :: "u8 list" where
  "b2char = map of_char ''ABCDEFGHIJKLMNOPQRSTUVWXYZabcdefghijklmnopqrstuvwxyz0123456789+/''"

definition char2b :: "int list" where
  "char2b = [
     - 1, - 1, - 1, - 1, - 1, - 1, - 1, - 1, - 1, - 1, - 1, - 1, - 1, - 1, - 1, - 1,
     - 1, - 1, - 1, - 1, - 1, - 1, - 1, - 1, - 1, - 1, - 1, - 1, - 1, - 1, - 1, - 1,
     - 1, - 1, - 1, - 1, - 1, - 1, - 1, - 1, - 1, - 1, 62, - 1, - 1, - 1, - 1, 63,
     52, 53, 54, 55, 56, 57, 58, 59, 60, 61, - 1, - 1, - 1, - 1, - 1, - 1,
     - 1, 0, 1, 2, 3, 4, 5, 6, 7, 8, 9, 10, 11, 12, 13, 14,
     15, 16, 17, 18, 19, 20, 21, 22, 23, 24, 25, - 1, - 1, - 1, - 1, - 1,
     - 1, 26, 27, 28, 29, 30, 31, 32, 33, 34, 35, 36, 37, 38, 39, 40,
     41, 42, 43, 44, 45, 46, 47, 48, 49, 50, 51, - 1, - 1, - 1, - 1, - 1,
     - 1, - 1, - 1, - 1, - 1, - 1, - 1, - 1, - 1, - 1, - 1, - 1, - 1, - 1, - 1, - 1,
     - 1, - 1, - 1, - 1, - 1, - 1, - 1, - 1, - 1, - 1, - 1, - 1, - 1, - 1, - 1, - 1,
     - 1, - 1, - 1, - 1, - 1, - 1, - 1, - 1, - 1, - 1, - 1, - 1, - 1, - 1, - 1, - 1,
     - 1, - 1, - 1, - 1, - 1, - 1, - 1, - 1, - 1, - 1, - 1, - 1, - 1, - 1, - 1, - 1,
     - 1, - 1, - 1, - 1, - 1, - 1, - 1, - 1, - 1, - 1, - 1, - 1, - 1, - 1, - 1, - 1,
     - 1, - 1, - 1, - 1, - 1, - 1, - 1, - 1, - 1, - 1, - 1, - 1, - 1, - 1, - 1, - 1,
     - 1, - 1, - 1, - 1, - 1, - 1, - 1, - 1, - 1, - 1, - 1, - 1, - 1, - 1, - 1, - 1,
     - 1, - 1, - 1, - 1, - 1, - 1, - 1, - 1, - 1, - 1, - 1, - 1, - 1, - 1, - 1, - 1]"

definition B_TO_CHAR :: "u8 \<Rightarrow> u8" where
  "B_TO_CHAR b = b2char ! unat b"

text \<open>The value goes into a bit field of six bits.\<close>

definition CHAR_TO_B :: "u8 \<Rightarrow> u8 option" where
  "CHAR_TO_B ch = (let b = char2b ! unat ch in if b = - 1 then None else Some (of_int b AND 0x3F))"

definition MAKE_B1 :: "u8 \<Rightarrow> u8" where
  "MAKE_B1 c1 = drop_bit 2 c1"

definition MAKE_B2 :: "u8 \<Rightarrow> u8 \<Rightarrow> u8" where
  "MAKE_B2 c1 c2 = push_bit 4 (c1 AND 0x03) OR drop_bit 4 c2"

definition MAKE_B3 :: "u8 \<Rightarrow> u8 \<Rightarrow> u8" where
  "MAKE_B3 c2 c3 = push_bit 2 (c2 AND 0x0F) OR drop_bit 6 c3"

definition MAKE_B4 :: "u8 \<Rightarrow> u8" where
  "MAKE_B4 c3 = c3 AND 0x3F"

definition MAKE_CHAR1 :: "u8 \<Rightarrow> u8 \<Rightarrow> u8" where
  "MAKE_CHAR1 b1 b2 = push_bit 2 b1 OR drop_bit 4 b2"

definition MAKE_CHAR2 :: "u8 \<Rightarrow> u8 \<Rightarrow> u8" where
  "MAKE_CHAR2 b2 b3 = push_bit 4 (b2 AND 0x0F) OR drop_bit 2 b3"

definition MAKE_CHAR3 :: "u8 \<Rightarrow> u8 \<Rightarrow> u8" where
  "MAKE_CHAR3 b3 b4 = push_bit 6 (b3 AND 0x03) OR b4"

definition b64_coded_len :: "nat \<Rightarrow> nat" where
  "b64_coded_len plain_sz = ((plain_sz + 2) div 3) * 4"

definition EQ_SIGN :: u8 where
  "EQ_SIGN = 0x3D"

definition b64_plain_len :: "u8 list \<Rightarrow> nat" where
  "b64_plain_len coded =
     (let coded_sz = length coded;
          n = (coded_sz div 4) * 3;
          n = (if coded ! (coded_sz - 1) = EQ_SIGN then n - 1 else n)
      in if coded ! (coded_sz - 2) = EQ_SIGN then n - 1 else n)"

text \<open>The loop over the groups of three, and the two shapes of the rest.\<close>

fun encode_groups :: "u8 list \<Rightarrow> u8 list" where
  "encode_groups (c1 # c2 # c3 # plain) =
     B_TO_CHAR (MAKE_B1 c1) # B_TO_CHAR (MAKE_B2 c1 c2) # B_TO_CHAR (MAKE_B3 c2 c3) # B_TO_CHAR (MAKE_B4 c3)
       # encode_groups plain"
| "encode_groups [c1, c2] = [B_TO_CHAR (MAKE_B1 c1), B_TO_CHAR (MAKE_B2 c1 c2), B_TO_CHAR (MAKE_B3 c2 0), EQ_SIGN]"
| "encode_groups [c1] = [B_TO_CHAR (MAKE_B1 c1), B_TO_CHAR (MAKE_B2 c1 0), EQ_SIGN, EQ_SIGN]"
| "encode_groups [] = []"

definition b64_encode :: "u8 list option \<Rightarrow> nat option \<Rightarrow> bool \<Rightarrow> b64_error + u8 list" where
  "b64_encode plain buff_sz has_out =
     (case (plain, buff_sz) of
        (Some plain, Some buff_sz) \<Rightarrow>
          if \<not> has_out then Inl B64_EINVAL
          else if b64_coded_len (length plain) > buff_sz then Inl B64_ENOMEM
          else Inr (encode_groups plain)
      | _ \<Rightarrow> Inl B64_EINVAL)"

text \<open>
  The last group, where the padding is looked at, and the loop before it. \<^verbatim>\<open>CHAR_TO_B\<close> returns from
  the function at the first character that is not in the table; by then bytes may have been written. The
  result says whether the end was reached, with the bytes written into the buffer.
\<close>

definition decode_last :: "u8 \<Rightarrow> u8 \<Rightarrow> u8 \<Rightarrow> u8 \<Rightarrow> bool \<times> u8 list" where
  "decode_last k1 k2 k3 k4 =
     (case CHAR_TO_B k1 of None \<Rightarrow> (False, []) | Some b1 \<Rightarrow>
      case CHAR_TO_B k2 of None \<Rightarrow> (False, []) | Some b2 \<Rightarrow>
      if k3 = EQ_SIGN then (True, [MAKE_CHAR1 b1 b2])
      else case CHAR_TO_B k3 of None \<Rightarrow> (False, [MAKE_CHAR1 b1 b2]) | Some b3 \<Rightarrow>
      if k4 = EQ_SIGN then (True, [MAKE_CHAR1 b1 b2, MAKE_CHAR2 b2 b3])
      else case CHAR_TO_B k4 of None \<Rightarrow> (False, [MAKE_CHAR1 b1 b2, MAKE_CHAR2 b2 b3]) | Some b4 \<Rightarrow>
      (True, [MAKE_CHAR1 b1 b2, MAKE_CHAR2 b2 b3, MAKE_CHAR3 b3 b4]))"

fun decode_groups :: "u8 list \<Rightarrow> bool \<times> u8 list" where
  "decode_groups [k1, k2, k3, k4] = decode_last k1 k2 k3 k4"
| "decode_groups (k1 # k2 # k3 # k4 # coded) =
     (case (CHAR_TO_B k1, CHAR_TO_B k2, CHAR_TO_B k3, CHAR_TO_B k4) of
        (Some b1, Some b2, Some b3, Some b4) \<Rightarrow>
          (case decode_groups coded of
             (ok, out) \<Rightarrow> (ok, MAKE_CHAR1 b1 b2 # MAKE_CHAR2 b2 b3 # MAKE_CHAR3 b3 b4 # out))
      | _ \<Rightarrow> (False, []))"
| "decode_groups _ = (True, [])"

text \<open>On an error the bytes that are already in the buffer come with the error.\<close>

definition b64_decode :: "u8 list option \<Rightarrow> nat option \<Rightarrow> bool \<Rightarrow> b64_error \<times> u8 list + u8 list" where
  "b64_decode coded buff_sz has_out =
     (case (coded, buff_sz) of
        (Some coded, Some buff_sz) \<Rightarrow>
          if length coded mod 4 \<noteq> 0 \<or> \<not> has_out then Inl (B64_EINVAL, [])
          else if length coded = 0 then Inr []
          else if b64_plain_len coded > buff_sz then Inl (B64_ENOMEM, [])
          else (case decode_groups coded of (False, out) \<Rightarrow> Inl (B64_EINVAL, out) | (True, out) \<Rightarrow> Inr out)
      | _ \<Rightarrow> Inl (B64_EINVAL, []))"

section \<open>Round trip of one group\<close>

lemma mask_numerals: "(0x3F :: u8) = mask 6" "(0x0F :: u8) = mask 4" "(0x03 :: u8) = mask 2"
  by (simp_all add: mask_eq_exp_minus_1)

lemmas make_defs = MAKE_B1_def MAKE_B2_def MAKE_B3_def MAKE_B4_def MAKE_CHAR1_def MAKE_CHAR2_def MAKE_CHAR3_def

lemma sextets:
  "MAKE_B1 c1 AND 0x3F = MAKE_B1 c1" "MAKE_B2 c1 c2 AND 0x3F = MAKE_B2 c1 c2" "MAKE_B3 c2 c3 AND 0x3F = MAKE_B3 c2 c3"
  "MAKE_B4 c3 AND 0x3F = MAKE_B4 c3"
  unfolding make_defs mask_numerals
  by (rule bit_word_eqI, auto simp: bit_simps dest: bit_imp_le_length)+

lemma make_inverse:
  "MAKE_CHAR1 (MAKE_B1 c1) (MAKE_B2 c1 c2) = c1" "MAKE_CHAR2 (MAKE_B2 c1 c2) (MAKE_B3 c2 c3) = c2"
  "MAKE_CHAR3 (MAKE_B3 c2 c3) (MAKE_B4 c3) = c3"
  unfolding make_defs mask_numerals by (rule u8_eqI; simp add: bit_simps)+

lemma sextet_less: "b AND 0x3F = b \<Longrightarrow> unat (b :: u8) < 64"
proof -
  assume "b AND 0x3F = b"
  then have "take_bit 6 b = b" by (simp add: take_bit_eq_mask mask_numerals)
  then have "take_bit 6 (unat b) = unat b" by (metis unsigned_take_bit_eq)
  then show ?thesis using take_bit_nat_less_exp [of 6 "unat b"] by simp
qed

text \<open>Of the 64 characters all but the plus sign come back; the entry of the plus sign is one place too low.\<close>

lemma b2char_list:
  "b2char = [65, 66, 67, 68, 69, 70, 71, 72, 73, 74, 75, 76, 77, 78, 79, 80, 81, 82, 83, 84, 85, 86, 87, 88, 89, 90, 97, 98, 99, 100, 101, 102, 103, 104, 105, 106, 107, 108, 109, 110, 111, 112, 113, 114, 115, 116, 117, 118, 119, 120, 121, 122, 48, 49, 50, 51, 52, 53, 54, 55, 56, 57, 43, 47]"
  by (simp add: b2char_def of_char_def)

lemma tables_check:
  "list_all (\<lambda>i. b2char ! i \<noteq> EQ_SIGN \<and> (if i = 62 then b2char ! i = 0x2B else char2b ! unat (b2char ! i) = int i \<and> b2char ! i \<noteq> 0x2B)) [0..<64]"
  "char2b ! 0x2B = - 1" "char2b ! 0x2A = 62" "length char2b = 256" "list_all (\<lambda>b. - 1 \<le> b \<and> b < 64) char2b"
  by (simp_all add: b2char_list char2b_def EQ_SIGN_def upt_conv_Cons)

lemma tables_inverse: "i < 64 \<Longrightarrow> b2char ! i \<noteq> 0x2B \<Longrightarrow> char2b ! unat (b2char ! i) = int i"
  using tables_check(1) unfolding list_all_iff by (metis atLeastLessThan_iff le0 set_upt)

lemma b2char_not_eq: "i < 64 \<Longrightarrow> b2char ! i \<noteq> EQ_SIGN"
  using tables_check(1) unfolding list_all_iff by (metis atLeastLessThan_iff le0 set_upt)

lemma char_roundtrip: "b AND 0x3F = b \<Longrightarrow> B_TO_CHAR b \<noteq> 0x2B \<Longrightarrow> CHAR_TO_B (B_TO_CHAR b) = Some b"
proof -
  assume b: "b AND 0x3F = b" "B_TO_CHAR b \<noteq> 0x2B"
  then have "char2b ! unat (B_TO_CHAR b) = int (unat b)" using tables_inverse [OF sextet_less [of b]] by (simp add: B_TO_CHAR_def)
  moreover have "int (unat b) \<noteq> - 1" by linarith
  moreover have "of_int (int (unat b)) = b" by simp
  ultimately show ?thesis using b(1) unfolding CHAR_TO_B_def Let_def by metis
qed

lemma char_not_eq: "b AND 0x3F = b \<Longrightarrow> B_TO_CHAR b \<noteq> EQ_SIGN"
  using b2char_not_eq [OF sextet_less [of b]] by (simp add: B_TO_CHAR_def)

lemma char_plus: "CHAR_TO_B 0x2B = None"
  using tables_check(2) by (simp add: CHAR_TO_B_def)

section \<open>Whole strings\<close>

lemma encode_length: "length (encode_groups xs) = b64_coded_len (length xs)"
proof (induction xs rule: encode_groups.induct)
  case (1 c1 c2 c3 plain)
  have "(length plain + 3 + 2) div 3 = (length plain + 2) div 3 + 1" by simp
  then show ?case using 1 by (simp add: b64_coded_len_def)
qed (simp_all add: b64_coded_len_def)

lemma sextets_0: "MAKE_B3 c2 0 AND 0x3F = MAKE_B3 c2 0" "MAKE_B2 c1 0 AND 0x3F = MAKE_B2 c1 0"
  by (rule sextets)+

lemma decode_encode:
  "xs \<noteq> [] \<Longrightarrow> 0x2B \<notin> set (encode_groups xs) \<Longrightarrow> decode_groups (encode_groups xs) = (True, xs)"
proof (induction xs rule: encode_groups.induct)
  case (1 c1 c2 c3 plain)
  note r = char_roundtrip [OF sextets(1)] char_roundtrip [OF sextets(2)] char_roundtrip [OF sextets(3)] char_roundtrip [OF sextets(4)]
    char_not_eq [OF sextets(3)] char_not_eq [OF sextets(4)]
  show ?case
  proof (cases plain)
    case Nil
    then show ?thesis using "1.prems" by (simp add: decode_last_def r make_inverse)
  next
    case (Cons c cs)
    then obtain k ks where e: "encode_groups plain = k # ks" by (cases plain rule: encode_groups.cases) auto
    have "decode_groups (encode_groups plain) = (True, plain)" using 1 Cons by simp
    then show ?thesis using "1.prems" by (simp add: e r make_inverse)
  qed
next
  case (2 c1 c2)
  then show ?case
    by (simp add: decode_last_def char_roundtrip sextets char_not_eq make_inverse)
next
  case (3 c1)
  then show ?case
    by (simp add: decode_last_def char_roundtrip sextets char_not_eq make_inverse)
qed simp

text \<open>What comes out fits the size that was checked, whatever the input.\<close>

lemma plain_len_4: "b64_plain_len [k1, k2, k3, k4] = 3 - of_bool (k4 = EQ_SIGN) - of_bool (k3 = EQ_SIGN)"
  by (simp add: b64_plain_len_def Let_def)

lemma plain_len_group:
  assumes "4 \<le> length w" "length w mod 4 = 0"
  shows "b64_plain_len (k1 # k2 # k3 # k4 # w) = 3 + b64_plain_len w"
proof -
  have nth: "(k1 # k2 # k3 # k4 # w) ! (4 + i) = w ! i" for i by simp
  have "length (k1 # k2 # k3 # k4 # w) - 1 = 4 + (length w - 1)" "length (k1 # k2 # k3 # k4 # w) - 2 = 4 + (length w - 2)"
    using assms(1) by simp_all
  note l = this [THEN arg_cong [where f = "\<lambda>i. (k1 # k2 # k3 # k4 # w) ! i"], unfolded nth]
  have "length (k1 # k2 # k3 # k4 # w) div 4 = 1 + length w div 4" "1 \<le> length w div 4" using assms(1) by simp_all
  then show ?thesis unfolding b64_plain_len_def Let_def l by auto
qed

lemma decode_length:
  "length ks mod 4 = 0 \<Longrightarrow> ks \<noteq> [] \<Longrightarrow> length (snd (decode_groups ks)) \<le> b64_plain_len ks"
proof (induction ks rule: decode_groups.induct)
  case (1 k1 k2 k3 k4)
  then show ?case by (simp add: decode_last_def plain_len_4 split: option.split)
next
  case (2 k1 k2 k3 k4 v vs)
  have l: "length (v # vs) mod 4 = 0" using "2.prems"(1) mod_add_self1 [of 4 "length (v # vs)"] by simp
  then have l4: "4 \<le> length (v # vs)" by (metis dvd_imp_le length_greater_0_conv list.distinct(1) mod_0_imp_dvd)
  note g = plain_len_group [OF l4 l, of k1 k2 k3 k4]
  show ?case
  proof (cases "CHAR_TO_B k1 = None \<or> CHAR_TO_B k2 = None \<or> CHAR_TO_B k3 = None \<or> CHAR_TO_B k4 = None")
    case True
    then have "decode_groups (k1 # k2 # k3 # k4 # v # vs) = (False, [])" by (auto split: option.split)
    then show ?thesis by simp
  next
    case False
    then obtain b1 b2 b3 b4 where b: "CHAR_TO_B k1 = Some b1" "CHAR_TO_B k2 = Some b2" "CHAR_TO_B k3 = Some b3" "CHAR_TO_B k4 = Some b4"
      by auto
    have "length (snd (decode_groups (v # vs))) \<le> b64_plain_len (v # vs)" using "2.IH" [OF refl b(1) refl b(2) refl b(3,4) l] by simp
    then show ?thesis unfolding g by (auto simp: b split: prod.split)
  qed
qed simp_all

text \<open>The characters that decoding reads: all but the last one after a padding sign.\<close>

definition coded_part :: "u8 list \<Rightarrow> u8 list" where
  "coded_part ks = (if ks ! (length ks - 2) = EQ_SIGN then butlast ks else ks)"

lemma coded_part_group:
  assumes "2 \<le> length w"
  shows "coded_part (k1 # k2 # k3 # k4 # w) = k1 # k2 # k3 # k4 # coded_part w"
proof -
  have n: "length (k1 # k2 # k3 # k4 # w) - 2 = Suc (Suc (Suc (Suc (length w - 2))))" using assms by simp
  have "(k1 # k2 # k3 # k4 # w) ! (length (k1 # k2 # k3 # k4 # w) - 2) = w ! (length w - 2)" unfolding n by simp
  moreover have "w \<noteq> []" using assms by auto
  ultimately show ?thesis unfolding coded_part_def by simp
qed

lemma decode_no_plus:
  "fst (decode_groups ks) \<Longrightarrow> length ks mod 4 = 0 \<Longrightarrow> 0x2B \<notin> set (coded_part ks)"
proof (induction ks rule: decode_groups.induct)
  case (1 k1 k2 k3 k4)
  then show ?case
    by (auto simp: decode_last_def coded_part_def char_plus EQ_SIGN_def split: option.splits if_splits)
next
  case (2 k1 k2 k3 k4 v vs)
  have l: "length (v # vs) mod 4 = 0" using "2.prems"(2) mod_add_self1 [of 4 "length (v # vs)"] by simp
  then have l4: "4 \<le> length (v # vs)" by (metis dvd_imp_le length_greater_0_conv list.distinct(1) mod_0_imp_dvd)
  obtain b1 b2 b3 b4 where b: "CHAR_TO_B k1 = Some b1" "CHAR_TO_B k2 = Some b2" "CHAR_TO_B k3 = Some b3" "CHAR_TO_B k4 = Some b4"
    "fst (decode_groups (v # vs))"
    using "2.prems"(1) by (auto split: option.splits prod.splits)
  have "0x2B \<notin> set (coded_part (v # vs))" using "2.IH" [OF refl b(1) refl b(2) refl b(3,4) b(5) l] .
  moreover have "0x2B \<notin> {k1, k2, k3, k4}" using b char_plus by auto
  ultimately show ?case using coded_part_group [of "v # vs"] l4 by simp
qed (simp_all add: coded_part_def)

lemma encode_coded_part: "0x2B \<in> set (encode_groups xs) \<Longrightarrow> 0x2B \<in> set (coded_part (encode_groups xs))"
proof (induction xs rule: encode_groups.induct)
  case (1 c1 c2 c3 plain)
  show ?case
  proof (cases "plain = []")
    case True
    then show ?thesis using "1.prems" by (simp add: coded_part_def char_not_eq sextets)
  next
    case False
    then have "2 \<le> length (encode_groups plain)" by (cases plain rule: encode_groups.cases) auto
    then show ?thesis using 1 by (auto simp: coded_part_group)
  qed
qed (auto simp: coded_part_def EQ_SIGN_def char_not_eq sextets)

lemma char_not_star: "b AND 0x3F = b \<Longrightarrow> B_TO_CHAR b \<noteq> 0x2A"
proof -
  assume b: "b AND 0x3F = b"
  have "list_all (\<lambda>c. c \<noteq> 0x2A) b2char" "length b2char = 64" by (simp_all add: b2char_list)
  then show ?thesis using sextet_less [OF b] by (simp add: B_TO_CHAR_def list_all_length)
qed

lemma encode_no_star: "0x2A \<notin> set (encode_groups xs)"
proof -
  note s = sextets [THEN char_not_star, THEN not_sym]
  show ?thesis by (induction xs rule: encode_groups.induct) (simp_all add: s EQ_SIGN_def)
qed

lemma encode_plain_len: "xs \<noteq> [] \<Longrightarrow> b64_plain_len (encode_groups xs) = length xs"
proof (induction xs rule: encode_groups.induct)
  case (1 c1 c2 c3 plain)
  show ?case
  proof (cases "plain = []")
    case True
    then show ?thesis by (simp add: plain_len_4 char_not_eq sextets)
  next
    case False
    have "length (encode_groups plain) mod 4 = 0" by (simp add: encode_length b64_coded_len_def)
    moreover have "4 \<le> length (encode_groups plain)" using False by (cases plain rule: encode_groups.cases) auto
    ultimately show ?thesis using 1 False by (simp add: plain_len_group)
  qed
qed (simp_all add: plain_len_4 char_not_eq sextets)

section \<open>Properties\<close>

text \<open>
  C23: encoding succeeds when the buffer has the announced size, fills exactly that size, and decoding
  gives the bytes back, provided the encoded text has no plus sign.
\<close>

theorem b64_roundtrip:
  assumes "b64_coded_len (length xs) \<le> n" "0x2B \<notin> set (encode_groups xs)"
  shows "\<exists>ys. b64_encode (Some xs) (Some n) True = Inr ys \<and> length ys = b64_coded_len (length xs)
    \<and> b64_decode (Some ys) (Some (b64_plain_len ys)) True = Inr xs \<and> (xs \<noteq> [] \<longrightarrow> b64_plain_len ys = length xs)"
proof -
  have m: "length (encode_groups xs) mod 4 = 0" by (simp add: encode_length b64_coded_len_def)
  show ?thesis
  proof (cases "xs = []")
    case True
    then show ?thesis using assms(1) by (simp add: b64_encode_def b64_decode_def b64_coded_len_def)
  next
    case False
    then have "encode_groups xs \<noteq> []" by (cases xs rule: encode_groups.cases) auto
    then have "0 < b64_coded_len (length xs)" using encode_length [of xs] by (metis length_greater_0_conv)
    then show ?thesis using assms m encode_plain_len [OF False] False decode_encode [OF False assms(2)]
      by (simp add: b64_encode_def b64_decode_def encode_length)
  qed
qed

theorem b64_roundtrip_witness:
  "\<exists>ys. b64_encode (Some [0x66, 0x6F]) (Some 4) True = Inr ys \<and> b64_decode (Some ys) (Some (b64_plain_len ys)) True = Inr [0x66, 0x6F]"
proof -
  have "0x2B \<notin> set (encode_groups [0x66, 0x6F])" by code_simp
  then show ?thesis using b64_roundtrip [of "[0x66, 0x6F]" 4] by (auto simp: b64_coded_len_def)
qed

text \<open>
  C31: the decoder never writes past the buffer: whatever the input, successful or not, the bytes it has
  written when it returns are no more than the buffer has; it reports a buffer that is too small exactly when
  the announced size of a well-formed input does not fit, and then has written nothing.
\<close>

theorem b64_decode_bounds:
  "(case buff_sz of None \<Rightarrow> b64_decode coded buff_sz has_out = Inl (B64_EINVAL, [])
    | Some n \<Rightarrow> (case b64_decode coded buff_sz has_out of Inr out \<Rightarrow> length out \<le> n | Inl (e, out) \<Rightarrow> length out \<le> n))
   \<and> ((\<exists>out. b64_decode coded buff_sz has_out = Inl (B64_ENOMEM, out)) \<longleftrightarrow>
        (\<exists>ks n. coded = Some ks \<and> buff_sz = Some n \<and> has_out \<and> ks \<noteq> [] \<and> length ks mod 4 = 0 \<and> n < b64_plain_len ks))
   \<and> (\<forall>out. b64_decode coded buff_sz has_out = Inl (B64_ENOMEM, out) \<longrightarrow> out = [])"
proof (cases "coded = None \<or> buff_sz = None")
  case True
  then show ?thesis by (auto simp: b64_decode_def split: option.split)
next
  case False
  then obtain ks n where e: "coded = Some ks" "buff_sz = Some n" by auto
  obtain ok out where d: "decode_groups ks = (ok, out)" by fastforce
  show ?thesis
    using decode_length [of ks] by (cases ok) (auto simp: e d b64_decode_def)
qed

theorem b64_decode_bounds_witness:
  "b64_decode (Some [0x41, 0x41, 0x21, 0x41]) (Some 3) True = Inl (B64_EINVAL, [0]) \<and> length [0 :: u8] \<le> 3
   \<and> b64_decode (Some [0x41, 0x41, 0x41, 0x41]) (Some 2) True = Inl (B64_ENOMEM, [])"
proof -
  have r: "b64_decode (Some [0x41, 0x41, 0x21, 0x41]) (Some 3) True = Inl (B64_EINVAL, [0])" by code_simp
  have s: "b64_decode (Some [0x41, 0x41, 0x41, 0x41]) (Some 2) True = Inl (B64_ENOMEM, [])" by code_simp
  show ?thesis
    using b64_decode_bounds [where buff_sz = "Some 3" and coded = "Some [0x41, 0x41, 0x21, 0x41]" and has_out = True] unfolding r by (simp add: s)
qed

text \<open>
  C35: the decoding table has the value of the plus sign one place too low. Whatever the sizes, a text with
  a plus sign among the characters that decoding reads is never decoded; so the encoder's own output is
  refused, with a buffer of any sufficient size, whenever it contains a plus sign; and an asterisk, which
  the encoder never writes, is read as the value 62 of the plus sign.
\<close>

theorem b64_plus_refused:
  "(0x2B \<in> set (coded_part ks) \<longrightarrow> (\<exists>e. b64_decode (Some ks) buff_sz has_out = Inl e))
   \<and> (0x2B \<in> set (encode_groups xs) \<and> length xs \<le> n \<longrightarrow>
        (\<exists>w. b64_decode (Some (encode_groups xs)) (Some n) True = Inl (B64_EINVAL, w)))
   \<and> CHAR_TO_B 0x2A = Some 62 \<and> B_TO_CHAR 62 = 0x2B \<and> 0x2A \<notin> set (encode_groups xs)"
proof (intro conjI impI)
  show "\<exists>e. b64_decode (Some ks) buff_sz has_out = Inl e" if p: "0x2B \<in> set (coded_part ks)"
  proof -
    have "ks \<noteq> []" using p by (auto simp: coded_part_def split: if_splits)
    then show ?thesis using decode_no_plus [of ks] p
      by (cases buff_sz; cases "decode_groups ks") (auto simp: b64_decode_def split: bool.split)
  qed
  show "\<exists>w. b64_decode (Some (encode_groups xs)) (Some n) True = Inl (B64_EINVAL, w)"
    if p: "0x2B \<in> set (encode_groups xs) \<and> length xs \<le> n"
  proof -
    have ne: "xs \<noteq> []" "encode_groups xs \<noteq> []" using p by auto
    have m: "length (encode_groups xs) mod 4 = 0" by (simp add: encode_length b64_coded_len_def)
    obtain out where "decode_groups (encode_groups xs) = (False, out)"
      using decode_no_plus [OF _ m] encode_coded_part p by (cases "decode_groups (encode_groups xs)") auto
    then show ?thesis using ne m p encode_plain_len [OF ne(1)] by (simp add: b64_decode_def)
  qed
  show "CHAR_TO_B 0x2A = Some 62" "B_TO_CHAR 62 = 0x2B" by code_simp+
  show "0x2A \<notin> set (encode_groups xs)" by (rule encode_no_star)
qed

theorem b64_plus_refused_witness:
  "encode_groups [0xF8, 0, 0] = [0x2B, 0x41, 0x41, 0x41]
   \<and> (\<exists>w. b64_decode (Some (encode_groups [0xF8, 0, 0])) (Some 3) True = Inl (B64_EINVAL, w))
   \<and> (\<exists>e. b64_decode (Some [0x41, 0x2B, 0x3D, 0x3D]) (Some 100) True = Inl e)"
proof -
  have e: "encode_groups [0xF8, 0, 0] = [0x2B, 0x41, 0x41, 0x41]" by code_simp
  have c: "0x2B \<in> set (coded_part [0x41, 0x2B, 0x3D, 0x3D])" by code_simp
  note p = b64_plus_refused [of "[0x41, 0x2B, 0x3D, 0x3D]" "Some 100" True "[0xF8, 0, 0]" 3]
  have "\<exists>w. b64_decode (Some (encode_groups [0xF8, 0, 0])) (Some 3) True = Inl (B64_EINVAL, w)"
    by (rule p [THEN conjunct2, THEN conjunct1, rule_format]) (simp add: e del: encode_groups.simps)
  then show ?thesis using e p c by blast
qed

end
