(* ===== verification/Des.thy ===== *)
theory Des
  imports Prelude
begin

text \<open>
  The block cipher of \<^verbatim>\<open>lib/crypt/des/des.c\<close>. The code keeps one bit per byte, so a bit is a
  \<^typ>\<open>u8\<close> that is 0 or 1; arrays are lists, and the arrays a function fills are its result.
\<close>

section \<open>Tables\<close>

definition initial_permutation :: "nat list" where
  "initial_permutation = [
     58, 50, 42, 34, 26, 18, 10, 2,
     60, 52, 44, 36, 28, 20, 12, 4,
     62, 54, 46, 38, 30, 22, 14, 6,
     64, 56, 48, 40, 32, 24, 16, 8,
     57, 49, 41, 33, 25, 17, 9, 1,
     59, 51, 43, 35, 27, 19, 11, 3,
     61, 53, 45, 37, 29, 21, 13, 5,
     63, 55, 47, 39, 31, 23, 15, 7]"

definition final_permunation :: "nat list" where
  "final_permunation = [
     40, 8, 48, 16, 56, 24, 64, 32,
     39, 7, 47, 15, 55, 23, 63, 31,
     38, 6, 46, 14, 54, 22, 62, 30,
     37, 5, 45, 13, 53, 21, 61, 29,
     36, 4, 44, 12, 52, 20, 60, 28,
     35, 3, 43, 11, 51, 19, 59, 27,
     34, 2, 42, 10, 50, 18, 58, 26,
     33, 1, 41, 9, 49, 17, 57, 25]"

definition s_boxes :: "u8 list list list" where
  "s_boxes = [
     [[14, 4, 13, 1, 2, 15, 11, 8, 3, 10, 6, 12, 5, 9, 0, 7],
      [0, 15, 7, 4, 14, 2, 13, 1, 10, 6, 12, 11, 9, 5, 3, 8],
      [4, 1, 14, 8, 13, 6, 2, 11, 15, 12, 9, 7, 3, 10, 5, 0],
      [15, 12, 8, 2, 4, 9, 1, 7, 5, 11, 3, 14, 10, 0, 6, 13]],
     [[15, 1, 8, 14, 6, 11, 3, 4, 9, 7, 2, 13, 12, 0, 5, 10],
      [3, 13, 4, 7, 15, 2, 8, 14, 12, 0, 1, 10, 6, 9, 11, 5],
      [0, 14, 7, 11, 10, 4, 13, 1, 5, 8, 12, 6, 9, 3, 2, 15],
      [13, 8, 10, 1, 3, 15, 4, 2, 11, 6, 7, 12, 0, 5, 14, 9]],
     [[10, 0, 9, 14, 6, 3, 15, 5, 1, 13, 12, 7, 11, 4, 2, 8],
      [13, 7, 0, 9, 3, 4, 6, 10, 2, 8, 5, 14, 12, 11, 15, 1],
      [13, 6, 4, 9, 8, 15, 3, 0, 11, 1, 2, 12, 5, 10, 14, 7],
      [1, 10, 13, 0, 6, 9, 8, 7, 4, 15, 14, 3, 11, 5, 2, 12]],
     [[7, 13, 14, 3, 0, 6, 9, 10, 1, 2, 8, 5, 11, 12, 4, 15],
      [13, 8, 11, 5, 6, 15, 0, 3, 4, 7, 2, 12, 1, 10, 14, 9],
      [10, 6, 9, 0, 12, 11, 7, 13, 15, 1, 3, 14, 5, 2, 8, 4],
      [3, 15, 0, 6, 10, 1, 13, 8, 9, 4, 5, 11, 12, 7, 2, 14]],
     [[2, 12, 4, 1, 7, 10, 11, 6, 8, 5, 3, 15, 13, 0, 14, 9],
      [14, 11, 2, 12, 4, 7, 13, 1, 5, 0, 15, 10, 3, 9, 8, 6],
      [4, 2, 1, 11, 10, 13, 7, 8, 15, 9, 12, 5, 6, 3, 0, 14],
      [11, 8, 12, 7, 1, 14, 2, 13, 6, 15, 0, 9, 10, 4, 5, 3]],
     [[12, 1, 10, 15, 9, 2, 6, 8, 0, 13, 3, 4, 14, 7, 5, 11],
      [10, 15, 4, 2, 7, 12, 9, 5, 6, 1, 13, 14, 0, 11, 3, 8],
      [9, 14, 15, 5, 2, 8, 12, 3, 7, 0, 4, 10, 1, 13, 11, 6],
      [4, 3, 2, 12, 9, 5, 15, 10, 11, 14, 1, 7, 6, 0, 8, 13]],
     [[4, 11, 2, 14, 15, 0, 8, 13, 3, 12, 9, 7, 5, 10, 6, 1],
      [13, 0, 11, 7, 4, 9, 1, 10, 14, 3, 5, 12, 2, 15, 8, 6],
      [1, 4, 11, 13, 12, 3, 7, 14, 10, 15, 6, 8, 0, 5, 9, 2],
      [6, 11, 13, 8, 1, 4, 10, 7, 9, 5, 0, 15, 14, 2, 3, 12]],
     [[13, 2, 8, 4, 6, 15, 11, 1, 10, 9, 3, 14, 5, 0, 12, 7],
      [1, 15, 13, 8, 10, 3, 7, 4, 12, 5, 6, 11, 0, 14, 9, 2],
      [7, 11, 4, 1, 9, 12, 14, 2, 0, 6, 10, 13, 15, 3, 5, 8],
      [2, 1, 14, 7, 4, 10, 8, 13, 15, 12, 9, 0, 3, 5, 6, 11]]]"

definition des_extansion :: "nat list" where
  "des_extansion = [
     32, 1, 2, 3, 4, 5,
     4, 5, 6, 7, 8, 9,
     8, 9, 10, 11, 12, 13,
     12, 13, 14, 15, 16, 17,
     16, 17, 18, 19, 20, 21,
     20, 21, 22, 23, 24, 25,
     24, 25, 26, 27, 28, 29,
     28, 29, 30, 31, 32, 1]"

definition permutation :: "nat list" where
  "permutation = [
     16, 7, 20, 21, 29, 12, 28, 17,
     1, 15, 23, 26, 5, 18, 31, 10,
     2, 8, 24, 14, 32, 27, 3, 9,
     19, 13, 30, 6, 22, 11, 4, 25]"

definition permuted_choice_1 :: "nat list" where
  "permuted_choice_1 = [
     57, 49, 41, 33, 25, 17, 9,
     1, 58, 50, 42, 34, 26, 18,
     10, 2, 59, 51, 43, 35, 27,
     19, 11, 3, 60, 52, 44, 36,
     63, 55, 47, 39, 31, 23, 15,
     7, 62, 54, 46, 38, 30, 22,
     14, 6, 61, 53, 45, 37, 29,
     21, 13, 5, 28, 20, 12, 4]"

definition rotation_table :: "nat list" where
  "rotation_table = [
     1, 1, 2, 2, 2, 2, 2, 2, 1, 2, 2, 2, 2, 2, 2, 1]"

definition permuted_choice_2 :: "nat list" where
  "permuted_choice_2 = [
     14, 17, 11, 24, 1, 5,
     3, 28, 15, 6, 21, 10,
     23, 19, 12, 4, 26, 8,
     16, 7, 27, 20, 13, 2,
     41, 52, 31, 37, 47, 55,
     30, 40, 51, 45, 33, 48,
     44, 49, 39, 56, 34, 53,
     46, 42, 50, 36, 29, 32]"

section \<open>Bits\<close>

definition bytes_to_bits :: "u8 list \<Rightarrow> u8 list" where
  "bytes_to_bits src = concat (map (\<lambda>i. map (\<lambda>k. drop_bit k (src ! i) AND 0x01) [7, 6, 5, 4, 3, 2, 1, 0]) [0..<8])"

definition bits_to_bytes :: "u8 list \<Rightarrow> u8 list" where
  "bits_to_bytes dst =
     fold (\<lambda>n src. src[n div 8 := (src ! (n div 8)) OR push_bit (7 - n mod 8) (dst ! n)]) [0..<64] (replicate 8 0)"

definition permutation_init :: "u8 list \<Rightarrow> u8 list \<times> u8 list" where
  "permutation_init d =
     (let bits = bytes_to_bits d
      in (map (\<lambda>i. bits ! (initial_permutation ! i - 1)) [0..<32],
          map (\<lambda>i. bits ! (initial_permutation ! (i + 32) - 1)) [0..<32]))"

definition permutation_finit :: "u8 list \<Rightarrow> u8 list \<Rightarrow> u8 list" where
  "permutation_finit left right =
     (let d = left @ right
      in bits_to_bytes (map (\<lambda>i. d ! (final_permunation ! i - 1)) [0..<64]))"

section \<open>Keys\<close>

definition fill_keys :: "u8 list \<Rightarrow> u8 list \<times> u8 list" where
  "fill_keys bin_key =
     (let key_bits = bytes_to_bits bin_key
      in (map (\<lambda>i. key_bits ! (permuted_choice_1 ! i - 1)) [0..<28],
          map (\<lambda>i. key_bits ! (permuted_choice_1 ! (i + 28) - 1)) [0..<28]))"

text \<open>The new halves and the key of the round.\<close>

definition rotate_keys :: "nat \<Rightarrow> u8 list \<times> u8 list \<Rightarrow> (u8 list \<times> u8 list) \<times> u8 list" where
  "rotate_keys step = (\<lambda>(c, d).
     let c' = map (\<lambda>i. c ! ((i + rotation_table ! step) mod 28)) [0..<28];
         d' = map (\<lambda>i. d ! ((i + rotation_table ! step) mod 28)) [0..<28];
         tmp_key = c' @ d'
     in ((c', d'), map (\<lambda>i. tmp_key ! (permuted_choice_2 ! i - 1)) [0..<48]))"

section \<open>Rounds\<close>

definition s_box :: "u8 list \<Rightarrow> nat \<Rightarrow> u8 list" where
  "s_box tmp_key i =
     (let p = (\<lambda>j. tmp_key ! (i * 6 + j));
          col = push_bit 3 (p 1) XOR push_bit 2 (p 2) XOR push_bit 1 (p 3) XOR p 4;
          row = push_bit 1 (p 0) XOR p 5;
          k = s_boxes ! i ! unat row ! unat col
      in [drop_bit 3 k AND 0x01, drop_bit 2 k AND 0x01, drop_bit 1 k AND 0x01, drop_bit 0 k AND 0x01])"

definition permutate :: "u8 list \<Rightarrow> u8 list \<Rightarrow> u8 list \<Rightarrow> u8 list" where
  "permutate left right key =
     (let tmp_key = map (\<lambda>i. right ! (des_extansion ! i - 1) XOR key ! i) [0..<48];
          tmp = concat (map (s_box tmp_key) [0..<8])
      in map (\<lambda>i. tmp ! (permutation ! i - 1) XOR left ! i) [0..<32])"

definition encrypt_round :: "nat \<Rightarrow> (u8 list \<times> u8 list) \<times> (u8 list \<times> u8 list) \<Rightarrow> (u8 list \<times> u8 list) \<times> (u8 list \<times> u8 list)" where
  "encrypt_round n = (\<lambda>((left, right), cd).
     let (cd', tmp_key) = rotate_keys n cd
     in ((right, permutate left right tmp_key), cd'))"

definition des_encrypt :: "u8 list \<Rightarrow> u8 list \<Rightarrow> u8 list" where
  "des_encrypt d key =
     (let ((left, right), _) = fold encrypt_round [0..<16] (permutation_init d, fill_keys key)
      in permutation_finit right left)"

text \<open>The keys of decryption, \<^verbatim>\<open>tmp_keys[0]\<close> first: the loop fills them from the end.\<close>

definition decrypt_keys :: "u8 list \<Rightarrow> u8 list list" where
  "decrypt_keys key =
     snd (fold (\<lambda>n (cd, tmp_keys). let (cd', k) = rotate_keys n cd in (cd', k # tmp_keys)) [0..<16] (fill_keys key, []))"

definition des_decrypt :: "u8 list \<Rightarrow> u8 list \<Rightarrow> u8 list" where
  "des_decrypt d key =
     (let tmp_keys = decrypt_keys key;
          (right, left) = permutation_init d;
          (right, left) = fold (\<lambda>k (right, left). (left, permutate right left k)) tmp_keys (right, left)
      in permutation_finit left right)"

section \<open>The Feistel structure\<close>

text \<open>The keys in the order of encryption, and a round as a function of its key.\<close>

fun round_keys :: "nat list \<Rightarrow> u8 list \<times> u8 list \<Rightarrow> u8 list list" where
  "round_keys [] cd = []"
| "round_keys (n # ns) cd = snd (rotate_keys n cd) # round_keys ns (fst (rotate_keys n cd))"

definition feistel :: "u8 list \<Rightarrow> u8 list \<times> u8 list \<Rightarrow> u8 list \<times> u8 list" where
  "feistel k = (\<lambda>(left, right). (right, permutate left right k))"

lemma encrypt_fold: "fst (fold encrypt_round ns (lr, cd)) = fold feistel (round_keys ns cd) lr"
  by (induction ns arbitrary: lr cd) (auto simp: encrypt_round_def feistel_def Let_def split: prod.splits)

lemma decrypt_keys_rev: "decrypt_keys key = rev (round_keys [0..<16] (fill_keys key))"
proof -
  have "snd (fold (\<lambda>n (cd, tmp_keys). let (cd', k) = rotate_keys n cd in (cd', k # tmp_keys)) ns (cd, ks)) = rev (round_keys ns cd) @ ks" for ns cd ks
    by (induction ns arbitrary: cd ks) (auto simp: Let_def split: prod.splits)
  then show ?thesis by (simp add: decrypt_keys_def)
qed

lemma permutate_length [simp]: "length (permutate l r k) = 32"
  by (simp add: permutate_def Let_def)

lemma permutate_twice: "length l = 32 \<Longrightarrow> permutate (permutate l r k) r k = l"
proof (rule nth_equalityI)
  fix i assume l: "length l = 32" and i: "i < length (permutate (permutate l r k) r k)"
  then have i32: "i < 32" by simp
  show "permutate (permutate l r k) r k ! i = l ! i"
    using i32 by (simp add: permutate_def Let_def xor.assoc [symmetric])
qed simp

lemma feistel_undo:
  assumes "length l = 32" "length r = 32" "fold feistel ks (l, r) = (l', r')"
  shows "fold feistel (rev ks) (r', l') = (r, l) \<and> length l' = 32 \<and> length r' = 32"
  using assms
proof (induction ks arbitrary: l r)
  case (Cons k ks)
  have "fold feistel ks (r, permutate l r k) = (l', r')" using Cons.prems(3) unfolding fold_Cons o_def by (simp add: feistel_def [of k])
  from Cons.IH [OF Cons.prems(2) _ this] have "fold feistel (rev ks) (r', l') = (permutate l r k, r) \<and> length l' = 32 \<and> length r' = 32"
    by simp
  then show ?case using Cons.prems(1) by (simp add: feistel_def [of k] permutate_twice)
qed simp

text \<open>Decryption keeps the halves in the other order.\<close>

lemma decrypt_fold: "fold (\<lambda>k (right, left). (left, permutate right left k)) ks (r, l) = fold feistel ks (r, l)"
  by (induction ks arbitrary: l r) (auto simp: feistel_def)

section \<open>The permutations\<close>

lemma bytes_to_bits_length [simp]: "length (bytes_to_bits d) = 64"
  by (simp add: bytes_to_bits_def length_concat o_def sum_list_triv)

lemma bytes_to_bits_list:
  "bytes_to_bits [b0, b1, b2, b3, b4, b5, b6, b7] =
     concat (map (\<lambda>b. map (\<lambda>k. drop_bit k b AND 0x01) [7, 6, 5, 4, 3, 2, 1, 0]) [b0, b1, b2, b3, b4, b5, b6, b7])"
  by (simp add: bytes_to_bits_def upt_rec)

definition byte_of :: "u8 list \<Rightarrow> nat \<Rightarrow> u8" where
  "byte_of xs n = push_bit 7 (xs ! n) OR push_bit 6 (xs ! (n + 1)) OR push_bit 5 (xs ! (n + 2)) OR push_bit 4 (xs ! (n + 3))
     OR push_bit 3 (xs ! (n + 4)) OR push_bit 2 (xs ! (n + 5)) OR push_bit 1 (xs ! (n + 6)) OR xs ! (n + 7)"

definition group8 :: "nat \<Rightarrow> nat list" where
  "group8 i = [8 * i + 0, 8 * i + 1, 8 * i + 2, 8 * i + 3, 8 * i + 4, 8 * i + 5, 8 * i + 6, 8 * i + 7]"

lemma upt_groups: "[0..<64] = concat (map group8 [0, 1, 2, 3, 4, 5, 6, 7])"
  by (simp add: upt_rec group8_def)

definition or_bit :: "u8 list \<Rightarrow> nat \<Rightarrow> u8 list \<Rightarrow> u8 list" where
  "or_bit xs n src = src[n div 8 := (src ! (n div 8)) OR push_bit (7 - n mod 8) (xs ! n)]"

lemma or_bit_in: "k < 8 \<Longrightarrow> or_bit xs (8 * i + k) src = src[i := (src ! i) OR push_bit (7 - k) (xs ! (8 * i + k))]"
  by (simp add: or_bit_def)

lemma or_bit_group: "i < length src \<Longrightarrow> fold (or_bit xs) (group8 i) src = src[i := (src ! i) OR byte_of xs (8 * i)]"
  by (simp add: group8_def or_bit_in byte_of_def or.assoc or_bit_in [of 0, simplified]
    del: One_nat_def add_2_eq_Suc add_2_eq_Suc' push_bit_Suc add_Suc_right)
    (simp only: One_nat_def)

lemma or_bit_groups:
  "\<forall>j \<in> set js. j < length src \<Longrightarrow>
   fold (or_bit xs) (concat (map group8 js)) src = fold (\<lambda>i src. src[i := (src ! i) OR byte_of xs (8 * i)]) js src"
  by (induction js arbitrary: src) (simp_all add: or_bit_group)

lemma bits_to_bytes_eq: "bits_to_bytes xs = map (\<lambda>i. byte_of xs (8 * i)) [0, 1, 2, 3, 4, 5, 6, 7]"
proof -
  have r: "replicate 8 (0::u8) = [0, 0, 0, 0, 0, 0, 0, 0]" by (simp add: numeral_eq_Suc)
  have "bits_to_bytes xs = fold (or_bit xs) [0..<64] (replicate 8 0)"
    by (simp only: bits_to_bytes_def or_bit_def [abs_def])
  also have "\<dots> = fold (\<lambda>i src. src[i := (src ! i) OR byte_of xs (8 * i)]) [0, 1, 2, 3, 4, 5, 6, 7] (replicate 8 0)"
    unfolding upt_groups by (rule or_bit_groups) simp
  also have "\<dots> = map (\<lambda>i. byte_of xs (8 * i)) [0, 1, 2, 3, 4, 5, 6, 7]"
    unfolding r by (simp add: list_update_code numeral_eq_Suc)
  finally show ?thesis .
qed

text \<open>A byte from its bits, and the bits of a byte.\<close>

lemma byte_of_bits:
  "push_bit 7 (drop_bit 7 b AND 1) OR push_bit 6 (drop_bit 6 b AND 1) OR push_bit 5 (drop_bit 5 b AND 1) OR push_bit 4 (drop_bit 4 b AND 1)
     OR push_bit 3 (drop_bit 3 b AND 1) OR push_bit 2 (drop_bit 2 b AND 1) OR push_bit 1 (drop_bit 1 b AND 1) OR drop_bit 0 b AND 1 = (b :: u8)"
  by (rule u8_eqI) (simp_all add: bit_simps del: push_bit_Suc)

definition is_bits :: "u8 list \<Rightarrow> bool" where
  "is_bits xs \<longleftrightarrow> (\<forall>x \<in> set xs. x = 0 \<or> x = 1)"

lemma bit_cases: "x = 0 \<or> x = 1 \<Longrightarrow> \<exists>b. x = (of_bool b :: u8)"
  by (metis of_bool_eq(1) of_bool_eq(2))

definition bits_of :: "u8 \<Rightarrow> u8 list" where
  "bits_of b = map (\<lambda>k. drop_bit k b AND 0x01) [7, 6, 5, 4, 3, 2, 1, 0]"

lemma bytes_to_bits_eq: "bytes_to_bits src = concat (map (\<lambda>i. bits_of (src ! i)) [0, 1, 2, 3, 4, 5, 6, 7])"
proof -
  have "[0..<8] = [0, 1, 2, 3, 4, 5, 6, 7::nat]" by (simp add: upt_rec)
  then show ?thesis by (simp only: bytes_to_bits_def bits_of_def)
qed

lemma bits_of_byte:
  "bits_of (push_bit 7 (of_bool b7) OR push_bit 6 (of_bool b6) OR push_bit 5 (of_bool b5) OR push_bit 4 (of_bool b4)
     OR push_bit 3 (of_bool b3) OR push_bit 2 (of_bool b2) OR push_bit 1 (of_bool b1) OR of_bool b0) =
   [of_bool b7, of_bool b6, of_bool b5, of_bool b4, of_bool b3, of_bool b2, of_bool b1, of_bool b0]"
  unfolding bits_of_def list.map list.inject
  by (intro conjI u8_eqI) (simp_all add: bit_simps del: push_bit_Suc)

lemma bits_of_byte_of:
  assumes "is_bits xs" "n + 7 < length xs"
  shows "bits_of (byte_of xs n) = map (\<lambda>k. xs ! (n + k)) [0, 1, 2, 3, 4, 5, 6, 7]"
proof -
  have "\<exists>b. xs ! (n + k) = of_bool b" if "k \<le> 7" for k
    using assms that by (intro bit_cases) (auto simp: is_bits_def)
  then obtain b where b: "\<And>k. k \<le> 7 \<Longrightarrow> xs ! (n + k) = of_bool (b k)" by metis
  have c: "xs ! n = of_bool (b 0)" "xs ! (n + 1) = of_bool (b 1)" "xs ! (n + 2) = of_bool (b 2)" "xs ! (n + 3) = of_bool (b 3)"
    "xs ! (n + 4) = of_bool (b 4)" "xs ! (n + 5) = of_bool (b 5)" "xs ! (n + 6) = of_bool (b 6)" "xs ! (n + 7) = of_bool (b 7)"
    using b [of 0] b [of 1] b [of 2] b [of 3] b [of 4] b [of 5] b [of 6] b [of 7] by simp_all
  show ?thesis unfolding byte_of_def c bits_of_byte list.map add_0_right ..
qed

lemma bytes_bits_bytes: "is_bits xs \<Longrightarrow> length xs = 64 \<Longrightarrow> bytes_to_bits (bits_to_bytes xs) = xs"
proof -
  assume b: "is_bits xs" and l: "length xs = 64"
  have "bytes_to_bits (bits_to_bytes xs) = concat (map (\<lambda>i. bits_of (byte_of xs (8 * i))) [0, 1, 2, 3, 4, 5, 6, 7])"
    by (simp add: bytes_to_bits_eq bits_to_bytes_eq)
  also have "\<dots> = concat (map (\<lambda>i. map ((!) xs) (group8 i)) [0, 1, 2, 3, 4, 5, 6, 7])"
    using b l by (simp add: bits_of_byte_of group8_def del: add_2_eq_Suc add_2_eq_Suc' One_nat_def)
  also have "\<dots> = map ((!) xs) [0..<64]" unfolding upt_groups by (simp only: map_concat map_map o_def)
  also have "\<dots> = xs" using map_nth [of xs] l by simp
  finally show ?thesis .
qed

lemma byte_of_eqI:
  "xs ! n = drop_bit 7 b AND 1 \<Longrightarrow> xs ! (n + 1) = drop_bit 6 b AND 1 \<Longrightarrow> xs ! (n + 2) = drop_bit 5 b AND 1
   \<Longrightarrow> xs ! (n + 3) = drop_bit 4 b AND 1 \<Longrightarrow> xs ! (n + 4) = drop_bit 3 b AND 1 \<Longrightarrow> xs ! (n + 5) = drop_bit 2 b AND 1
   \<Longrightarrow> xs ! (n + 6) = drop_bit 1 b AND 1 \<Longrightarrow> xs ! (n + 7) = drop_bit 0 b AND 1 \<Longrightarrow> byte_of xs n = b"
  unfolding byte_of_def by (simp only: byte_of_bits)

lemma bits_bytes_bits: "length d = 8 \<Longrightarrow> bits_to_bytes (bytes_to_bits d) = d"
proof -
  assume "length d = 8"
  then obtain a b c e f g h i where d: "d = [a, b, c, e, f, g, h, i]"
    by (auto simp: numeral_eq_Suc length_Suc_conv)
  show ?thesis unfolding d bits_to_bytes_eq list.map list.inject
    by (intro conjI byte_of_eqI; simp add: bytes_to_bits_eq bits_of_def)
qed

section \<open>Bits stay bits\<close>

lemma is_bits_nth: "is_bits xs \<Longrightarrow> i < length xs \<Longrightarrow> xs ! i = 0 \<or> xs ! i = 1"
  by (simp add: is_bits_def)

lemma and_one_bit: "x AND 1 = 0 \<or> x AND 1 = (1 :: u8)"
  by (simp add: and_one_eq mod_2_eq_odd)

lemma bytes_to_bits_is_bits [simp]: "is_bits (bytes_to_bits d)"
  using and_one_bit by (auto simp: bytes_to_bits_def is_bits_def)

lemma table_select:
  "is_bits xs \<Longrightarrow> (\<forall>i < n. g i < length xs) \<Longrightarrow> is_bits (map (\<lambda>i. xs ! g i) [0..<n])"
  by (auto simp: is_bits_def)

lemma all_less_list: "(\<forall>i < n. P (xs ! i)) \<longleftrightarrow> list_all P xs" if "length xs = n"
  using that by (auto simp: list_all_length)

lemma permutation_bound: "i < 32 \<Longrightarrow> permutation ! i - 1 < 32"
  using all_less_list [of permutation 32 "\<lambda>x. x - 1 < 32"] by (simp add: permutation_def)

lemma permutate_is_bits: "is_bits l \<Longrightarrow> length l = 32 \<Longrightarrow> is_bits (permutate l r k)"
proof -
  assume l: "is_bits l" "length l = 32"
  define tmp_key where "tmp_key = map (\<lambda>i. r ! (des_extansion ! i - 1) XOR k ! i) [0..<48]"
  define tmp where "tmp = concat (map (s_box tmp_key) [0..<8])"
  have b: "is_bits tmp" using and_one_bit by (auto simp: tmp_def is_bits_def s_box_def Let_def)
  have len: "length tmp = 32" by (simp add: tmp_def length_concat s_box_def Let_def o_def sum_list_triv)
  have "tmp ! (permutation ! i - 1) XOR l ! i = 0 \<or> tmp ! (permutation ! i - 1) XOR l ! i = 1" if "i < 32" for i
    using is_bits_nth [OF b, of "permutation ! i - 1"] permutation_bound [OF that] is_bits_nth [OF l(1), of i] l(2) that len by auto
  then show ?thesis by (auto simp: is_bits_def permutate_def tmp_def tmp_key_def Let_def)
qed

lemma feistel_is_bits:
  "is_bits l \<Longrightarrow> is_bits r \<Longrightarrow> length l = 32 \<Longrightarrow> length r = 32 \<Longrightarrow> fold feistel ks (l, r) = (l', r') \<Longrightarrow> is_bits l' \<and> is_bits r'"
proof (induction ks arbitrary: l r)
  case (Cons k ks)
  show ?case by (rule Cons.IH [of r "permutate l r k"]) (use Cons.prems in \<open>simp_all add: feistel_def [of k] permutate_is_bits\<close>)
qed simp

section \<open>The initial and the final permutation\<close>

lemma initial_bound: "i < 64 \<Longrightarrow> initial_permutation ! i - 1 < 64"
  using all_less_list [of initial_permutation 64 "\<lambda>x. x - 1 < 64"] by (simp add: initial_permutation_def)

lemma final_bound: "i < 64 \<Longrightarrow> final_permunation ! i - 1 < 64"
  using all_less_list [of final_permunation 64 "\<lambda>x. x - 1 < 64"] by (simp add: final_permunation_def)

lemma final_initial: "map (\<lambda>f. initial_permutation ! (f - 1) - 1) final_permunation = [0..<64]"
  by (simp add: final_permunation_def initial_permutation_def upt_rec)

lemma initial_final: "map (\<lambda>f. final_permunation ! (f - 1) - 1) initial_permutation = [0..<64]"
  by (simp add: final_permunation_def initial_permutation_def upt_rec)

lemma tables_length [simp]: "length initial_permutation = 64" "length final_permunation = 64"
  by (simp_all add: initial_permutation_def final_permunation_def)

lemma final_initial_nth: "i < 64 \<Longrightarrow> initial_permutation ! (final_permunation ! i - 1) - 1 = i"
  using arg_cong [OF final_initial, of "\<lambda>xs. xs ! i"] by simp

lemma initial_final_nth: "i < 64 \<Longrightarrow> final_permunation ! (initial_permutation ! i - 1) - 1 = i"
  using arg_cong [OF initial_final, of "\<lambda>xs. xs ! i"] by simp

lemma permutation_init_append:
  "permutation_init d = (l, r) \<Longrightarrow> l @ r = map (\<lambda>i. bytes_to_bits d ! (initial_permutation ! i - 1)) [0..<64] \<and> length l = 32 \<and> length r = 32"
proof -
  assume p: "permutation_init d = (l, r)"
  let ?f = "\<lambda>i. bytes_to_bits d ! (initial_permutation ! i - 1)"
  have "[0..<64] = [0..<32] @ map (\<lambda>i. i + 32) [0..<32]" by (simp add: map_add_upt upt_add_eq_append [of 0 32 32, simplified])
  then have "map ?f [0..<64] = map ?f [0..<32] @ map (\<lambda>i. ?f (i + 32)) [0..<32]" by (simp only: map_append map_map o_def)
  then show ?thesis using p by (auto simp: permutation_init_def Let_def simp del: upt_rec_numeral)
qed

lemma finit_init:
  assumes "length d = 8" "permutation_init d = (l, r)"
  shows "permutation_finit l r = d"
proof -
  have a: "l @ r = map (\<lambda>i. bytes_to_bits d ! (initial_permutation ! i - 1)) [0..<64]"
    using permutation_init_append [OF assms(2)] by blast
  have "map (\<lambda>i. (l @ r) ! (final_permunation ! i - 1)) [0..<64] = map (\<lambda>i. bytes_to_bits d ! i) [0..<64]"
    unfolding a using final_bound final_initial_nth by (intro map_cong) (auto simp del: upt_rec_numeral)
  also have "\<dots> = bytes_to_bits d" using map_nth [of "bytes_to_bits d"] by simp
  finally show ?thesis using assms(1) by (simp add: permutation_finit_def bits_bytes_bits Let_def)
qed

lemma init_finit:
  assumes "is_bits l" "is_bits r" "length l = 32" "length r = 32"
  shows "permutation_init (permutation_finit l r) = (l, r)"
proof -
  let ?x = "map (\<lambda>i. (l @ r) ! (final_permunation ! i - 1)) [0..<64]"
  have lb: "is_bits (l @ r)" "length (l @ r) = 64" using assms by (auto simp: is_bits_def)
  have x: "is_bits ?x" by (rule table_select) (use lb final_bound in auto)
  obtain l' r' where p: "permutation_init (permutation_finit l r) = (l', r')" by fastforce
  have a: "l' @ r' = map (\<lambda>i. bytes_to_bits (permutation_finit l r) ! (initial_permutation ! i - 1)) [0..<64] \<and> length l' = 32"
    using permutation_init_append [OF p] by blast
  have "bytes_to_bits (permutation_finit l r) = ?x"
    using bytes_bits_bytes [OF x] by (simp add: permutation_finit_def Let_def)
  then have "l' @ r' = map (\<lambda>i. (l @ r) ! i) [0..<64]"
    unfolding conjunct1 [OF a] using initial_bound initial_final_nth by (intro map_cong) (auto simp del: upt_rec_numeral)
  also have "\<dots> = l @ r" using map_nth [of "l @ r"] lb(2) by simp
  finally have "l' @ r' = l @ r" .
  moreover have "length l' = length l" using a assms(3) by simp
  ultimately show ?thesis using p by simp
qed

lemma init_is_bits: "permutation_init d = (l, r) \<Longrightarrow> is_bits l \<and> is_bits r"
  using initial_bound by (auto simp: permutation_init_def Let_def intro!: table_select)

text \<open>A known answer: the worked example of the standard, which exercises every table.\<close>

lemma des_known_answer:
  "des_encrypt [0x01, 0x23, 0x45, 0x67, 0x89, 0xAB, 0xCD, 0xEF] [0x13, 0x34, 0x57, 0x79, 0x9B, 0xBC, 0xDF, 0xF1] = [0x85, 0xE8, 0x13, 0x54, 0x0F, 0x0A, 0xB4, 0x05]"
  by code_simp

text \<open>C17: decrypting with \<^verbatim>\<open>des_decrypt\<close> what \<^verbatim>\<open>des_encrypt\<close> made of a block of eight bytes gives the block
  back, whatever the key. The proof needs both permutation tables to be inverse to each other, the
  key schedule of decryption to be the reverse of that of encryption, and each round to undo itself.\<close>

theorem des_roundtrip: "length d = 8 \<Longrightarrow> des_decrypt (des_encrypt d key) key = d"
proof -
  assume d: "length d = 8"
  obtain l r where i: "permutation_init d = (l, r)" by fastforce
  have len: "length l = 32" "length r = 32" using permutation_init_append [OF i] by auto
  define ks where "ks = round_keys [0..<16] (fill_keys key)"
  obtain l' r' where f: "fold feistel ks (l, r) = (l', r')" by fastforce
  have e: "des_encrypt d key = permutation_finit r' l'"
    using encrypt_fold [of "[0..<16]" "(l, r)" "fill_keys key"] f unfolding des_encrypt_def i ks_def
    by (simp add: case_prod_beta del: upt_rec_numeral)
  have u: "fold feistel (rev ks) (r', l') = (r, l) \<and> length l' = 32 \<and> length r' = 32" by (rule feistel_undo [OF len f])
  have "permutation_init (permutation_finit r' l') = (r', l')"
    using feistel_is_bits [OF _ _ len f] init_is_bits [OF i] u by (intro init_finit) auto
  then show ?thesis
    using u finit_init [OF d i] by (simp add: des_decrypt_def e decrypt_keys_rev ks_def [symmetric] decrypt_fold del: upt_rec_numeral)
qed

theorem des_roundtrip_witness:
  "length ([0x01, 0x23, 0x45, 0x67, 0x89, 0xAB, 0xCD, 0xEF] :: u8 list) = 8 \<and>
   des_encrypt [0x01, 0x23, 0x45, 0x67, 0x89, 0xAB, 0xCD, 0xEF] [0x13, 0x34, 0x57, 0x79, 0x9B, 0xBC, 0xDF, 0xF1] = [0x85, 0xE8, 0x13, 0x54, 0x0F, 0x0A, 0xB4, 0x05] \<and>
   des_decrypt [0x85, 0xE8, 0x13, 0x54, 0x0F, 0x0A, 0xB4, 0x05] [0x13, 0x34, 0x57, 0x79, 0x9B, 0xBC, 0xDF, 0xF1] = [0x01, 0x23, 0x45, 0x67, 0x89, 0xAB, 0xCD, 0xEF]"
  using des_roundtrip [of "[0x01, 0x23, 0x45, 0x67, 0x89, 0xAB, 0xCD, 0xEF]" "[0x13, 0x34, 0x57, 0x79, 0x9B, 0xBC, 0xDF, 0xF1]"] by (simp add: des_known_answer)

end
