(* ===== verification/Block_Hash.thy ===== *)
theory Block_Hash
  imports Prelude "HOL-Library.Monad_Syntax"
begin

text \<open>
  What the two digests of \<^verbatim>\<open>lib/crypt\<close> share: a message absorbed in blocks of 64 bytes, the padding of the
  standards, and the contract \<^verbatim>\<open>message_digest\<close> of a digest that takes its message in pieces.
\<close>

section \<open>Absorbing blocks\<close>

function absorb :: "('h \<Rightarrow> u8 list \<Rightarrow> 'h) \<Rightarrow> 'h \<Rightarrow> u8 list \<Rightarrow> 'h \<times> u8 list" where
  "absorb f h xs = (if length xs < 64 then (h, xs) else absorb f (f h (take 64 xs)) (drop 64 xs))"
  by pat_completeness auto
termination by (relation "measure (\<lambda>(_, _, xs). length xs)") auto

declare absorb.simps [simp del]

lemma absorb_short [simp]: "length xs < 64 \<Longrightarrow> absorb f h xs = (h, xs)"
  by (simp add: absorb.simps)

lemma absorb_block: "64 \<le> length xs \<Longrightarrow> absorb f h xs = absorb f (f h (take 64 xs)) (drop 64 xs)"
  by (simp add: absorb.simps [of f h xs])

lemma absorb_rest_less: "absorb f h xs = (h', r) \<Longrightarrow> length r < 64"
  by (induction f h xs rule: absorb.induct) (metis absorb.simps prod.inject)

lemma absorb_append: "absorb f h xs = (h', r) \<Longrightarrow> absorb f h (xs @ ys) = absorb f h' (r @ ys)"
proof (induction f h xs rule: absorb.induct)
  case (1 f h xs)
  show ?case
  proof (cases "length xs < 64")
    case False
    then have "absorb f (f h (take 64 xs)) (drop 64 xs) = (h', r)" using 1(2) by (simp add: absorb_block)
    from 1(1) [OF False this] show ?thesis using False by (simp add: absorb_block [of "xs @ ys"])
  qed (use 1(2) in simp)
qed

text \<open>Filling up a pending block.\<close>

lemma absorb_fill: "length r < 64 \<Longrightarrow> 64 \<le> length r + length xs \<Longrightarrow>
  absorb f h (r @ xs) = absorb f (f h (r @ take (64 - length r) xs)) (drop (64 - length r) xs)"
  by (simp add: absorb_block)

lemma absorb_rest_length: "absorb f h xs = (h', r) \<Longrightarrow> length r = length xs mod 64"
proof (induction f h xs rule: absorb.induct)
  case (1 f h xs)
  show ?case
  proof (cases "length xs < 64")
    case False
    then have "length r = (length xs - 64) mod 64" using 1 by (simp add: absorb_block)
    then show ?thesis using False by (simp add: le_mod_geq)
  qed (use 1(2) in simp)
qed

text \<open>\<^verbatim>\<open>memcpy\<close> into a buffer at an offset.\<close>

definition memcpy_at :: "'a list \<Rightarrow> nat \<Rightarrow> 'a list \<Rightarrow> 'a list" where
  "memcpy_at buf off xs = take off buf @ xs @ drop (off + length xs) buf"

lemma memcpy_at_length [simp]: "off + length xs \<le> length buf \<Longrightarrow> length (memcpy_at buf off xs) = length buf"
  by (simp add: memcpy_at_def)

lemma memcpy_at_take [simp]: "off \<le> length buf \<Longrightarrow> take (off + length xs) (memcpy_at buf off xs) = take off buf @ xs"
  by (simp add: memcpy_at_def)

section \<open>Padding\<close>

text \<open>A byte 0x80, zeros up to eight bytes before the end of a block, and the length in bits.\<close>

definition md_zeros :: "nat \<Rightarrow> nat" where
  "md_zeros n = (119 - n mod 64) mod 64"

definition md_pad :: "(u64 \<Rightarrow> u8 list) \<Rightarrow> u8 list \<Rightarrow> u8 list" where
  "md_pad enc m = m @ 0x80 # replicate (md_zeros (length m)) 0 @ enc (of_nat (8 * length m))"

lemma md_zeros_cases: "md_zeros n = (if n mod 64 \<le> 55 then 55 - n mod 64 else 119 - n mod 64)"
proof (cases "n mod 64 \<le> 55")
  case True
  then have "119 - n mod 64 = 64 + (55 - n mod 64)" by simp
  then show ?thesis using True unfolding md_zeros_def by (simp only: mod_add_self1) simp
qed (simp add: md_zeros_def)

lemma md_zeros_less: "md_zeros n < 64"
  by (simp add: md_zeros_def)

lemma md_zeros_mod: "(n + 1 + md_zeros n) mod 64 = 56"
proof -
  have d: "n = 64 * (n div 64) + n mod 64" by simp
  have "n mod 64 + 1 + md_zeros n = 56 \<or> n mod 64 + 1 + md_zeros n = 64 + 56"
    using mod_less_divisor [of 64 n] by (auto simp: md_zeros_cases)
  then have "(n mod 64 + 1 + md_zeros n) mod 64 = 56" by fastforce
  then show ?thesis by (metis add.assoc mod_add_left_eq)
qed

lemma md_pad_length:
  assumes "\<And>w. length (enc w) = 8"
  shows "length (md_pad enc m) mod 64 = 0"
proof -
  have "length (md_pad enc m) = length m + 1 + md_zeros (length m) + 8" by (simp add: md_pad_def assms)
  moreover have "(length m + 1 + md_zeros (length m) + 8) mod 64 = ((length m + 1 + md_zeros (length m)) mod 64 + 8) mod 64"
    by (simp only: mod_add_left_eq)
  ultimately show ?thesis by (simp only: md_zeros_mod) simp
qed

section \<open>Digests in pieces\<close>

text \<open>
  A context stands for the message it was given so far. A piece that the code can take extends the
  message; the digest of a context is the reference digest of its message.
\<close>

locale message_digest =
  fixes starts :: "'c \<Rightarrow> bool" and ctx_update :: "'c \<Rightarrow> u8 list \<Rightarrow> 'c option" and ctx_final :: "'c \<Rightarrow> u8 list option"
    and reps :: "'c \<Rightarrow> u8 list \<Rightarrow> bool" and piece_ok :: "u8 list \<Rightarrow> bool" and ref :: "u8 list \<Rightarrow> u8 list"
  assumes init_reps: "starts c \<Longrightarrow> reps c []"
    and update_reps: "reps c m \<Longrightarrow> piece_ok xs \<Longrightarrow> \<exists>c'. ctx_update c xs = Some c' \<and> reps c' (m @ xs)"
    and final_ref: "reps c m \<Longrightarrow> ctx_final c = Some (ref m)"
begin

fun updates :: "'c \<Rightarrow> u8 list list \<Rightarrow> 'c option" where
  "updates c [] = Some c"
| "updates c (xs # xss) = do { c' \<leftarrow> ctx_update c xs; updates c' xss }"

lemma updates_reps: "reps c m \<Longrightarrow> \<forall>xs \<in> set xss. piece_ok xs \<Longrightarrow> \<exists>c'. updates c xss = Some c' \<and> reps c' (m @ concat xss)"
proof (induction xss arbitrary: c m)
  case (Cons xs xss)
  obtain c' where "ctx_update c xs = Some c'" "reps c' (m @ xs)" using update_reps [OF Cons.prems(1), of xs] Cons.prems(2) by auto
  then show ?case using Cons.IH [of c' "m @ xs"] Cons.prems(2) by simp
qed simp

lemma digest_pieces: "starts c \<Longrightarrow> \<forall>xs \<in> set xss. piece_ok xs \<Longrightarrow> do { c' \<leftarrow> updates c xss; ctx_final c' } = Some (ref (concat xss))"
  using updates_reps [OF init_reps, of c xss] final_ref by auto

end

end
