(* ===== verification/Sha1.thy ===== *)
theory Sha1
  imports Block_Hash
begin

text \<open>
  The digest of \<^verbatim>\<open>lib/crypt/sha1/sha1.c\<close>. \<^verbatim>\<open>data\<close> and \<^verbatim>\<open>len\<close> are one list of bytes. \<^verbatim>\<open>sha1_final\<close> wipes the
  context; its result is the digest.
\<close>

section \<open>The block function\<close>

definition K0 :: u32 where "K0 = 0x5A827999"
definition K1 :: u32 where "K1 = 0x6ED9EBA1"
definition K2 :: u32 where "K2 = 0x8F1BBCDC"
definition K3 :: u32 where "K3 = 0xCA62C1D6"

definition ROTL :: "nat \<Rightarrow> u32 \<Rightarrow> u32" where
  "ROTL n x = push_bit n x OR drop_bit (32 - n) x"

definition F0 :: "u32 \<Rightarrow> u32 \<Rightarrow> u32 \<Rightarrow> u32" where "F0 b c d = (b AND c) OR (NOT b AND d)"
definition F1 :: "u32 \<Rightarrow> u32 \<Rightarrow> u32 \<Rightarrow> u32" where "F1 b c d = b XOR c XOR d"
definition F2 :: "u32 \<Rightarrow> u32 \<Rightarrow> u32 \<Rightarrow> u32" where "F2 b c d = (b AND c) OR (b AND d) OR (c AND d)"
definition F3 :: "u32 \<Rightarrow> u32 \<Rightarrow> u32 \<Rightarrow> u32" where "F3 b c d = b XOR c XOR d"

definition get_be32 :: "u8 list \<Rightarrow> nat \<Rightarrow> u32" where
  "get_be32 p i = push_bit 24 (ucast (p ! i)) OR push_bit 16 (ucast (p ! (i + 1))) OR push_bit 8 (ucast (p ! (i + 2))) OR ucast (p ! (i + 3))"

definition put_be32 :: "u32 \<Rightarrow> u8 list" where
  "put_be32 v = [ucast (drop_bit 24 v AND 0xff), ucast (drop_bit 16 v AND 0xff), ucast (drop_bit 8 v AND 0xff), ucast (v AND 0xff)]"

type_synonym sha1_vars = "u32 \<times> u32 \<times> u32 \<times> u32 \<times> u32"

definition sha1_schedule :: "u8 list \<Rightarrow> u32 list" where
  "sha1_schedule block =
     fold (\<lambda>i w. w @ [ROTL 1 (w ! (i - 3) XOR w ! (i - 8) XOR w ! (i - 14) XOR w ! (i - 16))]) [16..<80]
       (map (\<lambda>i. get_be32 block (i * 4)) [0..<16])"

text \<open>The body that the four loops repeat, with the function and the constant of the loop.\<close>

definition sha1_step :: "(u32 \<Rightarrow> u32 \<Rightarrow> u32 \<Rightarrow> u32) \<Rightarrow> u32 \<Rightarrow> u32 list \<Rightarrow> nat \<Rightarrow> sha1_vars \<Rightarrow> sha1_vars" where
  "sha1_step f k w i = (\<lambda>(a, b, c, d, e). (ROTL 5 a + f b c d + e + w ! i + k, a, ROTL 30 b, c, d))"

definition sha1_process_block :: "u32 list \<Rightarrow> u8 list \<Rightarrow> u32 list" where
  "sha1_process_block h block =
     (let w = sha1_schedule block;
          v = (h ! 0, h ! 1, h ! 2, h ! 3, h ! 4);
          v = fold (sha1_step F0 K0 w) [0..<20] v;
          v = fold (sha1_step F1 K1 w) [20..<40] v;
          v = fold (sha1_step F2 K2 w) [40..<60] v;
          (a, b, c, d, e) = fold (sha1_step F3 K3 w) [60..<80] v
      in [h ! 0 + a, h ! 1 + b, h ! 2 + c, h ! 3 + d, h ! 4 + e])"

section \<open>The context\<close>

definition SHA1_BLOCK_SIZE :: nat where "SHA1_BLOCK_SIZE = 64"

record sha1_state =
  sha_h :: "u32 list"
  sha_count :: u64
  sha_buf :: "u8 list"
  sha_buf_len :: nat

definition sha1_init :: "sha1_state \<Rightarrow> sha1_state" where
  "sha1_init ctx = ctx\<lparr>sha_h := [0x67452301, 0xEFCDAB89, 0x98BADCFE, 0x10325476, 0xC3D2E1F0], sha_count := 0, sha_buf_len := 0\<rparr>"

definition sha1_fill :: "sha1_state \<Rightarrow> u8 list \<Rightarrow> sha1_state \<times> u8 list" where
  "sha1_fill ctx data =
     (if sha_buf_len ctx > 0 then
        (let copy = SHA1_BLOCK_SIZE - sha_buf_len ctx;
             copy = (if copy > length data then length data else copy);
             ctx = ctx\<lparr>sha_buf := memcpy_at (sha_buf ctx) (sha_buf_len ctx) (take copy data),
                       sha_buf_len := sha_buf_len ctx + copy,
                       sha_count := sha_count ctx + of_nat (copy * 8)\<rparr>;
             data = drop copy data
         in if sha_buf_len ctx = SHA1_BLOCK_SIZE
            then (ctx\<lparr>sha_h := sha1_process_block (sha_h ctx) (sha_buf ctx), sha_buf_len := 0\<rparr>, data)
            else (ctx, data))
      else (ctx, data))"

function sha1_blocks :: "sha1_state \<Rightarrow> u8 list \<Rightarrow> sha1_state \<times> u8 list" where
  "sha1_blocks ctx data =
     (if length data \<ge> SHA1_BLOCK_SIZE
      then sha1_blocks (ctx\<lparr>sha_h := sha1_process_block (sha_h ctx) (take SHA1_BLOCK_SIZE data),
                            sha_count := sha_count ctx + of_nat (SHA1_BLOCK_SIZE * 8)\<rparr>) (drop SHA1_BLOCK_SIZE data)
      else (ctx, data))"
  by pat_completeness auto
termination by (relation "measure (\<lambda>(_, data). length data)") (auto simp: SHA1_BLOCK_SIZE_def)

declare sha1_blocks.simps [simp del]

definition sha1_tail :: "sha1_state \<Rightarrow> u8 list \<Rightarrow> sha1_state" where
  "sha1_tail ctx data =
     (let (ctx, data) = sha1_blocks ctx data
      in if length data > 0
         then ctx\<lparr>sha_buf := memcpy_at (sha_buf ctx) 0 data, sha_buf_len := length data, sha_count := sha_count ctx + of_nat (length data * 8)\<rparr>
         else ctx)"

definition sha1_update :: "sha1_state \<Rightarrow> u8 list \<Rightarrow> sha1_state" where
  "sha1_update ctx data =
     (if length data = 0 then ctx
      else let (ctx, data) = sha1_fill ctx data in sha1_tail ctx data)"

text \<open>The loop that stores the bit count, last byte first.\<close>

definition sha1_bit_count :: "u64 \<Rightarrow> u8 list" where
  "sha1_bit_count bit_count = fst (fold (\<lambda>i (pad, bit_count). (ucast (bit_count AND 0xff) # pad, drop_bit 8 bit_count)) [0..<8] ([], bit_count))"

definition sha1_final :: "sha1_state \<Rightarrow> u8 list" where
  "sha1_final ctx =
     (let bit_count = sha_count ctx;
          zeros = (56 + 64 - (sha_buf_len ctx + 1) mod 64) mod 64;
          ctx = sha1_update ctx (0x80 # replicate zeros 0);
          ctx = sha1_update ctx (sha1_bit_count bit_count)
      in concat (map (\<lambda>i. put_be32 (sha_h ctx ! i)) [0..<5]))"

definition sha1_count :: "sha1_state \<Rightarrow> u8 list \<Rightarrow> u8 list" where
  "sha1_count ctx data = sha1_final (sha1_update (sha1_init ctx) data)"

section \<open>The standard\<close>

text \<open>The block function as FIPS 180-4 states it: the recurrence of the schedule, and one loop of 80 steps.\<close>

function sha1_W :: "u8 list \<Rightarrow> nat \<Rightarrow> u32" where
  "sha1_W block t = (if t < 16 then get_be32 block (4 * t)
     else ROTL 1 (sha1_W block (t - 3) XOR sha1_W block (t - 8) XOR sha1_W block (t - 14) XOR sha1_W block (t - 16)))"
  by pat_completeness auto
termination by (relation "measure snd") auto

declare sha1_W.simps [simp del]

definition sha1_ft :: "nat \<Rightarrow> u32 \<Rightarrow> u32 \<Rightarrow> u32 \<Rightarrow> u32" where
  "sha1_ft t x y z =
     (if t < 20 then (x AND y) XOR (NOT x AND z)
      else if 40 \<le> t \<and> t < 60 then (x AND y) XOR (x AND z) XOR (y AND z)
      else x XOR y XOR z)"

definition sha1_Kt :: "nat \<Rightarrow> u32" where
  "sha1_Kt t = (if t < 20 then 0x5A827999 else if t < 40 then 0x6ED9EBA1 else if t < 60 then 0x8F1BBCDC else 0xCA62C1D6)"

definition sha1_ref_block :: "u32 list \<Rightarrow> u8 list \<Rightarrow> u32 list" where
  "sha1_ref_block h block =
     (let (a, b, c, d, e) =
        fold (\<lambda>t (a, b, c, d, e). (ROTL 5 a + sha1_ft t b c d + e + sha1_Kt t + sha1_W block t, a, ROTL 30 b, c, d))
          [0..<80] (h ! 0, h ! 1, h ! 2, h ! 3, h ! 4)
      in [a + h ! 0, b + h ! 1, c + h ! 2, d + h ! 3, e + h ! 4])"

lemma choose_xor: "(x AND y) XOR (NOT x AND z) = (x AND y) OR (NOT x AND (z :: u32))"
  by (rule bit_word_eqI) (auto simp: bit_simps)

lemma majority_xor: "(x AND y) XOR (x AND z) XOR (y AND z) = (x AND y) OR (x AND z) OR (y AND (z :: u32))"
  by (rule bit_word_eqI) (auto simp: bit_simps)

lemma schedule_fold:
  "fold (\<lambda>i w. w @ [ROTL 1 (w ! (i - 3) XOR w ! (i - 8) XOR w ! (i - 14) XOR w ! (i - 16))]) [16..<16 + n]
     (map (sha1_W block) [0..<16]) = map (sha1_W block) [0..<16 + n]"
proof (induction n)
  case (Suc n)
  have "sha1_W block (16 + n) = ROTL 1 (sha1_W block (16 + n - 3) XOR sha1_W block (16 + n - 8) XOR sha1_W block (16 + n - 14) XOR sha1_W block (16 + n - 16))"
    by (simp add: sha1_W.simps [of block "16 + n"])
  moreover have "[16..<16 + Suc n] = [16..<16 + n] @ [16 + n]" "[0..<16 + Suc n] = [0..<16 + n] @ [16 + n]"
    using upt_Suc_append [of 16 "16 + n"] upt_Suc_append [of 0 "16 + n"] by (simp_all only: add_Suc_right le_add1 le0)
  ultimately show ?case using Suc by (simp del: upt_Suc add_Suc_right upt_rec_numeral)
qed simp

lemma schedule_eq: "sha1_schedule block = map (sha1_W block) [0..<80]"
proof -
  have "map (\<lambda>i. get_be32 block (i * 4)) [0..<16] = map (sha1_W block) [0..<16]"
    by (rule map_cong) (auto simp: sha1_W.simps mult.commute)
  moreover have "(16 :: nat) + 64 = 80" by simp
  ultimately show ?thesis unfolding sha1_schedule_def using schedule_fold [of 64 block] by (simp only:)
qed

lemma upt_80: "[0..<80] = [0..<20] @ [20..<40] @ [40..<60] @ [60..<80::nat]"
proof -
  have "(0 :: nat) + 20 = 20" "(20 :: nat) + 60 = 80" "(20 :: nat) + 20 = 40" "(40 :: nat) + 40 = 80" "(40 :: nat) + 20 = 60" "(60 :: nat) + 20 = 80" by simp_all
  then show ?thesis
    using upt_add_eq_append [of 0 20 60] upt_add_eq_append [of 20 40 40] upt_add_eq_append [of 40 60 20] by (simp only: zero_le_numeral)
qed

lemma sha1_block_eq: "sha1_process_block h block = sha1_ref_block h block"
proof -
  define w where "w = sha1_schedule block"
  define step where "step = (\<lambda>t (a, b, c, d, e). (ROTL 5 a + sha1_ft t b c d + e + sha1_Kt t + sha1_W block t, a, ROTL 30 b, c, d))"
  have w: "w ! i = sha1_W block i" if "i < 80" for i using that by (simp add: w_def schedule_eq del: upt_rec_numeral)
  have 1: "sha1_step F0 K0 w i = step i" if "i \<in> set [0..<20]" for i
    using that [unfolded set_upt atLeastLessThan_iff] w [of i] by (auto simp: fun_eq_iff sha1_step_def step_def sha1_ft_def sha1_Kt_def F0_def K0_def choose_xor add_ac)
  have 2: "sha1_step F1 K1 w i = step i" if "i \<in> set [20..<40]" for i
    using that [unfolded set_upt atLeastLessThan_iff] w [of i] by (auto simp: fun_eq_iff sha1_step_def step_def sha1_ft_def sha1_Kt_def F1_def K1_def add_ac)
  have 3: "sha1_step F2 K2 w i = step i" if "i \<in> set [40..<60]" for i
    using that [unfolded set_upt atLeastLessThan_iff] w [of i] by (auto simp: fun_eq_iff sha1_step_def step_def sha1_ft_def sha1_Kt_def F2_def K2_def majority_xor add_ac)
  have 4: "sha1_step F3 K3 w i = step i" if "i \<in> set [60..<80]" for i
    using that [unfolded set_upt atLeastLessThan_iff] w [of i] by (auto simp: fun_eq_iff sha1_step_def step_def sha1_ft_def sha1_Kt_def F3_def K3_def add_ac)
  have f: "fold step [0..<80] v = fold (sha1_step F3 K3 w) [60..<80] (fold (sha1_step F2 K2 w) [40..<60] (fold (sha1_step F1 K1 w) [20..<40] (fold (sha1_step F0 K0 w) [0..<20] v)))" for v
    unfolding upt_80 fold_append o_def
    by (simp only: fold_cong [OF refl refl 1, of "[0..<20]" "\<lambda>i. i"] fold_cong [OF refl refl 2, of "[20..<40]" "\<lambda>i. i"]
      fold_cong [OF refl refl 3, of "[40..<60]" "\<lambda>i. i"] fold_cong [OF refl refl 4, of "[60..<80]" "\<lambda>i. i"])
  show ?thesis
    unfolding sha1_process_block_def sha1_ref_block_def step_def [symmetric] f w_def [symmetric] Let_def
    by (simp add: case_prod_beta add.commute del: upt_rec_numeral)
qed

definition sha1_IV :: "u32 list" where
  "sha1_IV = [0x67452301, 0xEFCDAB89, 0x98BADCFE, 0x10325476, 0xC3D2E1F0]"

definition be64 :: "u64 \<Rightarrow> u8 list" where
  "be64 n = map (\<lambda>i. ucast (drop_bit (8 * (7 - i)) n)) [0..<8]"

definition sha1_spec :: "u8 list \<Rightarrow> u8 list" where
  "sha1_spec m = concat (map put_be32 (fst (absorb sha1_ref_block sha1_IV (md_pad be64 m))))"

section \<open>A context stands for its message\<close>

lemma count_add: "(w :: u64) + of_nat (a * 8) + of_nat (8 * b) = w + of_nat (8 * (a + b))"
  by (simp add: algebra_simps)

lemma sha1_blocks_absorb:
  "sha1_blocks ctx data = (ctx', r) \<Longrightarrow>
   absorb sha1_process_block (sha_h ctx) data = (sha_h ctx', r) \<and> sha_buf ctx' = sha_buf ctx \<and> sha_buf_len ctx' = sha_buf_len ctx
   \<and> sha_count ctx' + of_nat (8 * length r) = sha_count ctx + of_nat (8 * length data)"
proof (induction ctx data rule: sha1_blocks.induct)
  case (1 ctx data)
  show ?case
  proof (cases "64 \<le> length data")
    case True
    define ctx1 where "ctx1 = ctx\<lparr>sha_h := sha1_process_block (sha_h ctx) (take 64 data), sha_count := sha_count ctx + of_nat (64 * 8)\<rparr>"
    have "sha1_blocks ctx1 (drop 64 data) = (ctx', r)"
      using 1(2) True by (simp add: sha1_blocks.simps [of ctx data] SHA1_BLOCK_SIZE_def ctx1_def)
    then have ih: "absorb sha1_process_block (sha_h ctx1) (drop 64 data) = (sha_h ctx', r) \<and> sha_buf ctx' = sha_buf ctx1 \<and> sha_buf_len ctx' = sha_buf_len ctx1
      \<and> sha_count ctx' + of_nat (8 * length r) = sha_count ctx1 + of_nat (8 * length (drop 64 data))"
      using 1(1) True by (simp only: SHA1_BLOCK_SIZE_def ctx1_def)
    moreover have "sha_count ctx1 + of_nat (8 * length (drop 64 data)) = sha_count ctx + of_nat (8 * length data)"
      using True count_add [of "sha_count ctx" 64 "length data - 64"] by (simp add: ctx1_def)
    ultimately show ?thesis using True by (simp add: absorb_block ctx1_def)
  next
    case False
    then show ?thesis using 1(2) by (simp add: sha1_blocks.simps [of ctx data] SHA1_BLOCK_SIZE_def)
  qed
qed

definition sha1_ok :: "sha1_state \<Rightarrow> bool" where
  "sha1_ok c \<longleftrightarrow> length (sha_buf c) = 64 \<and> sha_buf_len c < 64"

definition pending :: "sha1_state \<Rightarrow> u8 list" where
  "pending c = take (sha_buf_len c) (sha_buf c)"

lemma sha1_tail_absorb:
  assumes "length (sha_buf ctx) = 64" "sha_buf_len ctx = 0"
  shows "absorb sha1_process_block (sha_h ctx) data = (sha_h (sha1_tail ctx data), pending (sha1_tail ctx data))
    \<and> sha1_ok (sha1_tail ctx data) \<and> sha_count (sha1_tail ctx data) = sha_count ctx + of_nat (8 * length data)"
proof -
  obtain c r where b: "sha1_blocks ctx data = (c, r)" by fastforce
  note s = sha1_blocks_absorb [OF b]
  have r: "length r < 64" using s absorb_rest_less [of sha1_process_block "sha_h ctx" data "sha_h c" r] by blast
  have c: "sha_count c + of_nat (length r * 8) = sha_count ctx + of_nat (8 * length data)" using s by (simp add: mult.commute)
  show ?thesis
  proof (cases "r = []")
    case True
    then show ?thesis using s assms c by (simp add: sha1_tail_def b pending_def sha1_ok_def)
  next
    case False
    then show ?thesis using s assms c r memcpy_at_take [of 0 "sha_buf ctx" r] by (simp add: sha1_tail_def b pending_def sha1_ok_def)
  qed
qed

lemma sha1_update_absorb:
  assumes "sha1_ok ctx"
  shows "absorb sha1_process_block (sha_h ctx) (pending ctx @ data) = (sha_h (sha1_update ctx data), pending (sha1_update ctx data))
    \<and> sha1_ok (sha1_update ctx data) \<and> sha_count (sha1_update ctx data) = sha_count ctx + of_nat (8 * length data)"
proof -
  let ?n = "sha_buf_len ctx"
  have len: "length (sha_buf ctx) = 64" and n: "?n < 64" using assms by (simp_all add: sha1_ok_def)
  have pl: "length (pending ctx) = ?n" using len n by (simp add: pending_def)
  consider "data = []" | "data \<noteq> []" "?n = 0" | "data \<noteq> []" "?n > 0" "length data < 64 - ?n" | "data \<noteq> []" "?n > 0" "64 - ?n \<le> length data"
    by fastforce
  then show ?thesis
  proof cases
    case 1
    then show ?thesis using assms pl n by (simp add: sha1_update_def)
  next
    case 2
    then have "sha1_update ctx data = sha1_tail ctx data" by (simp add: sha1_update_def sha1_fill_def)
    then show ?thesis using sha1_tail_absorb [OF len 2(2), of data] 2(2) by (simp add: pending_def)
  next
    case 3
    then have "sha1_update ctx data = ctx\<lparr>sha_buf := memcpy_at (sha_buf ctx) ?n data, sha_buf_len := ?n + length data, sha_count := sha_count ctx + of_nat (length data * 8)\<rparr>"
      by (simp add: sha1_update_def sha1_fill_def SHA1_BLOCK_SIZE_def sha1_tail_def sha1_blocks.simps Let_def)
    then show ?thesis using 3 len n pl by (simp add: sha1_ok_def pending_def mult.commute)
  next
    case 4
    define c where "c = ctx\<lparr>sha_buf := memcpy_at (sha_buf ctx) ?n (take (64 - ?n) data), sha_count := sha_count ctx + of_nat ((64 - ?n) * 8),
      sha_h := sha1_process_block (sha_h ctx) (pending ctx @ take (64 - ?n) data), sha_buf_len := 0\<rparr>"
    have "memcpy_at (sha_buf ctx) ?n (take (64 - ?n) data) = pending ctx @ take (64 - ?n) data"
      using 4 len n by (simp add: memcpy_at_def pending_def)
    then have u: "sha1_update ctx data = sha1_tail c (drop (64 - ?n) data)"
      using 4 n by (simp add: sha1_update_def sha1_fill_def SHA1_BLOCK_SIZE_def Let_def c_def)
    have "length (sha_buf c) = 64" using 4 len n by (simp add: c_def)
    moreover have "sha_buf_len c = 0" by (simp add: c_def)
    moreover have "sha_count c + of_nat (8 * length (drop (64 - ?n) data)) = sha_count ctx + of_nat (8 * length data)"
      using 4 count_add [of "sha_count ctx" "64 - ?n" "length data - (64 - ?n)"] by (simp add: c_def)
    moreover have "absorb sha1_process_block (sha_h ctx) (pending ctx @ data) = absorb sha1_process_block (sha_h c) (drop (64 - ?n) data)"
      using absorb_fill [of "pending ctx" data sha1_process_block "sha_h ctx"] 4 n pl by (simp add: c_def)
    ultimately show ?thesis using sha1_tail_absorb [of c "drop (64 - ?n) data"] u by simp
  qed
qed

definition sha1_reps :: "sha1_state \<Rightarrow> u8 list \<Rightarrow> bool" where
  "sha1_reps c m \<longleftrightarrow> sha1_ok c \<and> absorb sha1_process_block sha1_IV m = (sha_h c, pending c) \<and> sha_count c = of_nat (8 * length m)"

lemma sha1_init_reps: "length (sha_buf ctx) = 64 \<Longrightarrow> sha1_reps (sha1_init ctx) []"
  by (simp add: sha1_reps_def sha1_init_def sha1_ok_def pending_def sha1_IV_def)

lemma sha1_update_reps: "sha1_reps c m \<Longrightarrow> sha1_reps (sha1_update c xs) (m @ xs)"
  using sha1_update_absorb [of c xs] absorb_append [of sha1_process_block sha1_IV m "sha_h c" "pending c" xs]
  by (simp add: sha1_reps_def distrib_left)

lemma ucast_low_byte: "ucast (x AND 0xff) = (ucast (x :: u64) :: u8)"
proof -
  have m: "(0xff :: u64) = mask 8" by (simp add: mask_eq_exp_minus_1)
  show ?thesis unfolding m by (intro bit_word_eqI) (auto simp: bit_simps)
qed

lemma sha1_bit_count_be64: "sha1_bit_count n = be64 n"
proof -
  have "[0..<8] = [0, 1, 2, 3, 4, 5, 6, 7::nat]" by (simp add: upt_rec)
  then show ?thesis by (simp add: sha1_bit_count_def be64_def ucast_low_byte drop_bit_drop_bit del: upt_rec_numeral)
qed

lemma be64_length [simp]: "length (be64 n) = 8"
  by (simp add: be64_def)

lemma absorb_ref: "absorb sha1_process_block h m = absorb sha1_ref_block h m"
proof -
  have "sha1_process_block = sha1_ref_block" by (intro ext) (rule sha1_block_eq)
  then show ?thesis by simp
qed

lemma absorb_length5: "length h = 5 \<Longrightarrow> length (fst (absorb sha1_process_block h m)) = 5"
proof (induction "length m" arbitrary: h m rule: less_induct)
  case less
  show ?case
  proof (cases "length m < 64")
    case False
    have "length (sha1_process_block h (take 64 m)) = 5" by (simp add: sha1_process_block_def Let_def case_prod_beta)
    then show ?thesis using less.hyps [of "drop 64 m"] False by (simp add: absorb_block)
  qed (use less.prems in simp)
qed

lemma sha1_final_spec:
  assumes "sha1_reps c m"
  shows "sha1_final c = sha1_spec m"
proof -
  have bl: "sha_buf_len c = length m mod 64"
    using assms absorb_rest_length [of sha1_process_block sha1_IV m "sha_h c" "pending c"] by (simp add: sha1_reps_def sha1_ok_def pending_def)
  have z: "(56 + 64 - (sha_buf_len c + 1) mod 64) mod 64 = md_zeros (length m)"
  proof (cases "length m mod 64 = 63")
    case False
    then have "length m mod 64 + 1 < 64" using mod_less_divisor [of 64 "length m"] by linarith
    then show ?thesis by (simp add: bl md_zeros_def)
  qed (simp add: bl md_zeros_def)
  define c' where "c' = sha1_update (sha1_update c (0x80 # replicate (md_zeros (length m)) 0)) (be64 (of_nat (8 * length m)))"
  have r: "sha1_reps c' (md_pad be64 m)"
    using sha1_update_reps [OF sha1_update_reps [OF assms]] unfolding c'_def md_pad_def by (metis append.assoc append_Cons)
  have "length (sha_h c') = 5" using absorb_length5 [of sha1_IV "md_pad be64 m"] r by (simp add: sha1_reps_def sha1_IV_def)
  then have h: "map (\<lambda>i. put_be32 (sha_h c' ! i)) [0..<5] = map put_be32 (sha_h c')"
    by (intro nth_equalityI) (auto simp del: upt_rec_numeral)
  have cnt: "sha_count c = of_nat (8 * length m)" using assms by (simp add: sha1_reps_def)
  have "sha1_final c = concat (map (\<lambda>i. put_be32 (sha_h c' ! i)) [0..<5])"
    unfolding sha1_final_def Let_def z sha1_bit_count_be64 cnt c'_def ..
  also have "\<dots> = sha1_spec m" using r unfolding h by (simp add: sha1_spec_def sha1_reps_def absorb_ref [symmetric])
  finally show ?thesis .
qed

interpretation sha: message_digest "\<lambda>c. \<exists>ctx. length (sha_buf ctx) = 64 \<and> c = sha1_init ctx" "\<lambda>c xs. Some (sha1_update c xs)" "\<lambda>c. Some (sha1_final c)"
  sha1_reps "\<lambda>_. True" sha1_spec
  by unfold_locales (auto simp: sha1_init_reps sha1_update_reps sha1_final_spec)

lemma sha_updates: "sha.updates c xss = Some (fold (\<lambda>xs c. sha1_update c xs) xss c)"
  by (induction xss arbitrary: c) simp_all

text \<open>C15: the context of SHA-1 is a streaming implementation of the standard. However a message is cut into pieces, and
  whatever the uninitialised context held, initialising, updating with the pieces and finishing gives the
  digest FIPS 180-4 defines of the whole message: its padding, its schedule recurrence and its
  eighty steps with the exclusive-or forms of the round functions. In particular the one-shot \<^verbatim>\<open>sha1_count\<close> does.\<close>

theorem sha1_streams_standard:
  "length (sha_buf ctx) = 64 \<Longrightarrow>
   sha1_final (fold (\<lambda>xs c. sha1_update c xs) pieces (sha1_init ctx)) = sha1_spec (concat pieces) \<and>
   sha1_count ctx data = sha1_spec data"
proof -
  assume len: "length (sha_buf ctx) = 64"
  have "sha1_final (fold (\<lambda>xs c. sha1_update c xs) ps (sha1_init ctx)) = sha1_spec (concat ps)" for ps
    using sha.digest_pieces [of "sha1_init ctx" ps] len by (auto simp: sha_updates)
  from this [of pieces] this [of "[data]"] show ?thesis by (simp add: sha1_count_def)
qed

text \<open>A known answer of the standard: the digest of \<^verbatim>\<open>abc\<close>.\<close>

definition sha1_blank :: sha1_state where
  "sha1_blank = \<lparr>sha_h = [], sha_count = 0, sha_buf = replicate 64 0xA5, sha_buf_len = 7\<rparr>"

theorem sha1_streams_standard_witness:
  "length (sha_buf sha1_blank) = 64 \<and>
   sha1_final (fold (\<lambda>xs c. sha1_update c xs) [[0x61], [], [0x62, 0x63]] (sha1_init sha1_blank)) = sha1_spec [0x61, 0x62, 0x63] \<and>
   sha1_count sha1_blank [0x61, 0x62, 0x63] = sha1_spec [0x61, 0x62, 0x63]"
proof -
  have len: "length (sha_buf sha1_blank) = 64" by (simp add: sha1_blank_def)
  show ?thesis using sha1_streams_standard [OF len, of "[[0x61], [], [0x62, 0x63]]" "[0x61, 0x62, 0x63]"] len by simp
qed

end
