(* ===== verification/Md5.thy ===== *)
theory Md5
  imports Block_Hash
begin

text \<open>
  The digest of \<^verbatim>\<open>lib/crypt/md5/md5.c\<close>, on a little-endian machine. The length of \<^verbatim>\<open>md5_append\<close> is an
  \<^verbatim>\<open>int\<close> that is shifted left by three before anything else: the result is \<^const>\<open>None\<close> when that shift is undefined
  (the length is negative, or the length in bits is not an \<^verbatim>\<open>int\<close>).
\<close>

section \<open>The block function\<close>

definition T_MASK :: u32 where "T_MASK = NOT 0"

text \<open>\<^verbatim>\<open>T1\<close> to \<^verbatim>\<open>T64\<close>.\<close>

definition md5_T :: "u32 list" where
  "md5_T = [
     T_MASK XOR 0x28955b87, T_MASK XOR 0x173848a9, 0x242070db, T_MASK XOR 0x3e423111,
     T_MASK XOR 0x0a83f050, 0x4787c62a, T_MASK XOR 0x57cfb9ec, T_MASK XOR 0x02b96afe,
     0x698098d8, T_MASK XOR 0x74bb0850, T_MASK XOR 0x0000a44e, T_MASK XOR 0x76a32841,
     0x6b901122, T_MASK XOR 0x02678e6c, T_MASK XOR 0x5986bc71, 0x49b40821,
     T_MASK XOR 0x09e1da9d, T_MASK XOR 0x3fbf4cbf, 0x265e5a51, T_MASK XOR 0x16493855,
     T_MASK XOR 0x29d0efa2, 0x02441453, T_MASK XOR 0x275e197e, T_MASK XOR 0x182c0437,
     0x21e1cde6, T_MASK XOR 0x3cc8f829, T_MASK XOR 0x0b2af278, 0x455a14ed,
     T_MASK XOR 0x561c16fa, T_MASK XOR 0x03105c07, 0x676f02d9, T_MASK XOR 0x72d5b375,
     T_MASK XOR 0x0005c6bd, T_MASK XOR 0x788e097e, 0x6d9d6122, T_MASK XOR 0x021ac7f3,
     T_MASK XOR 0x5b4115bb, 0x4bdecfa9, T_MASK XOR 0x0944b49f, T_MASK XOR 0x4140438f,
     0x289b7ec6, T_MASK XOR 0x155ed805, T_MASK XOR 0x2b10cf7a, 0x04881d05,
     T_MASK XOR 0x262b2fc6, T_MASK XOR 0x1924661a, 0x1fa27cf8, T_MASK XOR 0x3b53a99a,
     T_MASK XOR 0x0bd6ddbb, 0x432aff97, T_MASK XOR 0x546bdc58, T_MASK XOR 0x036c5fc6,
     0x655b59c3, T_MASK XOR 0x70f3336d, T_MASK XOR 0x00100b82, T_MASK XOR 0x7a7ba22e,
     0x6fa87e4f, T_MASK XOR 0x01d3191f, T_MASK XOR 0x5cfebceb, 0x4e0811a1,
     T_MASK XOR 0x08ac817d, T_MASK XOR 0x42c50dca, 0x2ad7d2bb, T_MASK XOR 0x14792c6e]"

definition TT :: "nat \<Rightarrow> u32" where
  "TT i = md5_T ! (i - 1)"

definition ROTATE_LEFT :: "u32 \<Rightarrow> nat \<Rightarrow> u32" where
  "ROTATE_LEFT x n = push_bit n x OR drop_bit (32 - n) x"

definition FF :: "u32 \<Rightarrow> u32 \<Rightarrow> u32 \<Rightarrow> u32" where "FF x y z = (x AND y) OR (NOT x AND z)"
definition GG :: "u32 \<Rightarrow> u32 \<Rightarrow> u32 \<Rightarrow> u32" where "GG x y z = (x AND z) OR (y AND NOT z)"
definition HH :: "u32 \<Rightarrow> u32 \<Rightarrow> u32 \<Rightarrow> u32" where "HH x y z = x XOR y XOR z"
definition II :: "u32 \<Rightarrow> u32 \<Rightarrow> u32 \<Rightarrow> u32" where "II x y z = y XOR (x OR NOT z)"

text \<open>The words of a block, and the new value of the first variable of a \<^verbatim>\<open>SET\<close>.\<close>

definition md5_X :: "u8 list \<Rightarrow> u32 list" where
  "md5_X xp = map (\<lambda>i. ucast (xp ! (4 * i)) + push_bit 8 (ucast (xp ! (4 * i + 1))) + push_bit 16 (ucast (xp ! (4 * i + 2))) + push_bit 24 (ucast (xp ! (4 * i + 3)))) [0..<16]"

definition SET :: "(u32 \<Rightarrow> u32 \<Rightarrow> u32 \<Rightarrow> u32) \<Rightarrow> u32 list \<Rightarrow> u32 \<Rightarrow> u32 \<Rightarrow> u32 \<Rightarrow> u32 \<Rightarrow> nat \<Rightarrow> nat \<Rightarrow> u32 \<Rightarrow> u32" where
  "SET f X a b c d k s Ti = (let t = a + f b c d + X ! k + Ti in ROTATE_LEFT t s + b)"

type_synonym md5_vars = "u32 \<times> u32 \<times> u32 \<times> u32"

definition md5_round1 :: "u32 list \<Rightarrow> md5_vars \<Rightarrow> md5_vars" where
  "md5_round1 X = (\<lambda>(a, b, c, d).
     let a = SET FF X a b c d 0 7 (TT 1);
         d = SET FF X d a b c 1 12 (TT 2);
         c = SET FF X c d a b 2 17 (TT 3);
         b = SET FF X b c d a 3 22 (TT 4);
         a = SET FF X a b c d 4 7 (TT 5);
         d = SET FF X d a b c 5 12 (TT 6);
         c = SET FF X c d a b 6 17 (TT 7);
         b = SET FF X b c d a 7 22 (TT 8);
         a = SET FF X a b c d 8 7 (TT 9);
         d = SET FF X d a b c 9 12 (TT 10);
         c = SET FF X c d a b 10 17 (TT 11);
         b = SET FF X b c d a 11 22 (TT 12);
         a = SET FF X a b c d 12 7 (TT 13);
         d = SET FF X d a b c 13 12 (TT 14);
         c = SET FF X c d a b 14 17 (TT 15);
         b = SET FF X b c d a 15 22 (TT 16)
     in (a, b, c, d))"

definition md5_round2 :: "u32 list \<Rightarrow> md5_vars \<Rightarrow> md5_vars" where
  "md5_round2 X = (\<lambda>(a, b, c, d).
     let a = SET GG X a b c d 1 5 (TT 17);
         d = SET GG X d a b c 6 9 (TT 18);
         c = SET GG X c d a b 11 14 (TT 19);
         b = SET GG X b c d a 0 20 (TT 20);
         a = SET GG X a b c d 5 5 (TT 21);
         d = SET GG X d a b c 10 9 (TT 22);
         c = SET GG X c d a b 15 14 (TT 23);
         b = SET GG X b c d a 4 20 (TT 24);
         a = SET GG X a b c d 9 5 (TT 25);
         d = SET GG X d a b c 14 9 (TT 26);
         c = SET GG X c d a b 3 14 (TT 27);
         b = SET GG X b c d a 8 20 (TT 28);
         a = SET GG X a b c d 13 5 (TT 29);
         d = SET GG X d a b c 2 9 (TT 30);
         c = SET GG X c d a b 7 14 (TT 31);
         b = SET GG X b c d a 12 20 (TT 32)
     in (a, b, c, d))"

definition md5_round3 :: "u32 list \<Rightarrow> md5_vars \<Rightarrow> md5_vars" where
  "md5_round3 X = (\<lambda>(a, b, c, d).
     let a = SET HH X a b c d 5 4 (TT 33);
         d = SET HH X d a b c 8 11 (TT 34);
         c = SET HH X c d a b 11 16 (TT 35);
         b = SET HH X b c d a 14 23 (TT 36);
         a = SET HH X a b c d 1 4 (TT 37);
         d = SET HH X d a b c 4 11 (TT 38);
         c = SET HH X c d a b 7 16 (TT 39);
         b = SET HH X b c d a 10 23 (TT 40);
         a = SET HH X a b c d 13 4 (TT 41);
         d = SET HH X d a b c 0 11 (TT 42);
         c = SET HH X c d a b 3 16 (TT 43);
         b = SET HH X b c d a 6 23 (TT 44);
         a = SET HH X a b c d 9 4 (TT 45);
         d = SET HH X d a b c 12 11 (TT 46);
         c = SET HH X c d a b 15 16 (TT 47);
         b = SET HH X b c d a 2 23 (TT 48)
     in (a, b, c, d))"

definition md5_round4 :: "u32 list \<Rightarrow> md5_vars \<Rightarrow> md5_vars" where
  "md5_round4 X = (\<lambda>(a, b, c, d).
     let a = SET II X a b c d 0 6 (TT 49);
         d = SET II X d a b c 7 10 (TT 50);
         c = SET II X c d a b 14 15 (TT 51);
         b = SET II X b c d a 5 21 (TT 52);
         a = SET II X a b c d 12 6 (TT 53);
         d = SET II X d a b c 3 10 (TT 54);
         c = SET II X c d a b 10 15 (TT 55);
         b = SET II X b c d a 1 21 (TT 56);
         a = SET II X a b c d 8 6 (TT 57);
         d = SET II X d a b c 15 10 (TT 58);
         c = SET II X c d a b 6 15 (TT 59);
         b = SET II X b c d a 13 21 (TT 60);
         a = SET II X a b c d 4 6 (TT 61);
         d = SET II X d a b c 11 10 (TT 62);
         c = SET II X c d a b 2 15 (TT 63);
         b = SET II X b c d a 9 21 (TT 64)
     in (a, b, c, d))"

definition md5_process :: "u32 list \<Rightarrow> u8 list \<Rightarrow> u32 list" where
  "md5_process abcd data =
     (let X = md5_X data;
          (a, b, c, d) = md5_round4 X (md5_round3 X (md5_round2 X (md5_round1 X (abcd ! 0, abcd ! 1, abcd ! 2, abcd ! 3))))
      in [abcd ! 0 + a, abcd ! 1 + b, abcd ! 2 + c, abcd ! 3 + d])"

section \<open>The context\<close>

record md5_state =
  md_count0 :: u32
  md_count1 :: u32
  md_abcd :: "u32 list"
  md_buf :: "u8 list"

definition md5_init :: "md5_state \<Rightarrow> md5_state" where
  "md5_init pms = pms\<lparr>md_count0 := 0, md_count1 := 0, md_abcd := [0x67452301, T_MASK XOR 0x10325476, T_MASK XOR 0x67452301, 0x10325476]\<rparr>"

function md5_full :: "md5_state \<Rightarrow> u8 list \<Rightarrow> md5_state" where
  "md5_full pms p =
     (if length p \<ge> 64 then md5_full (pms\<lparr>md_abcd := md5_process (md_abcd pms) p\<rparr>) (drop 64 p)
      else if length p > 0 then pms\<lparr>md_buf := memcpy_at (md_buf pms) 0 p\<rparr>
      else pms)"
  by pat_completeness auto
termination by (relation "measure (\<lambda>(_, p). length p)") auto

declare md5_full.simps [simp del]

definition md5_lengthen :: "md5_state \<Rightarrow> nat \<Rightarrow> md5_state" where
  "md5_lengthen pms nbytes =
     (let nbits = of_nat (nbytes * 8) :: u32;
          count0 = md_count0 pms + nbits;
          count1 = md_count1 pms + of_nat (nbytes div 2 ^ 29)
      in pms\<lparr>md_count0 := count0, md_count1 := (if count0 < nbits then count1 + 1 else count1)\<rparr>)"

definition md5_append :: "md5_state \<Rightarrow> u8 list \<Rightarrow> int \<Rightarrow> md5_state option" where
  "md5_append pms data nbytes =
     (let p = take (nat nbytes) data;
          offset = unat (drop_bit 3 (md_count0 pms) AND 63)
      in if nbytes < 0 \<or> nbytes * 8 \<ge> 2 ^ 31 then None
         else if nbytes \<le> 0 then Some pms
         else let pms = md5_lengthen pms (nat nbytes)
              in if offset \<noteq> 0 then
                   (let copy = (if offset + nat nbytes > 64 then 64 - offset else nat nbytes);
                        pms = pms\<lparr>md_buf := memcpy_at (md_buf pms) offset (take copy p)\<rparr>
                    in if offset + copy < 64 then Some pms
                       else Some (md5_full (pms\<lparr>md_abcd := md5_process (md_abcd pms) (md_buf pms)\<rparr>) (drop copy p)))
                 else Some (md5_full pms p))"

definition md5_padding :: "u8 list" where
  "md5_padding = 0x80 # replicate 63 0"

definition md5_length_bytes :: "md5_state \<Rightarrow> u8 list" where
  "md5_length_bytes pms = map (\<lambda>i. ucast (drop_bit (i mod 4 * 8) (if i div 4 = 0 then md_count0 pms else md_count1 pms))) [0..<8]"

definition md5_finish :: "md5_state \<Rightarrow> u8 list option" where
  "md5_finish pms =
     (let data = md5_length_bytes pms
      in do {
        pms \<leftarrow> md5_append pms md5_padding (uint ((55 - drop_bit 3 (md_count0 pms)) AND 63) + 1);
        pms \<leftarrow> md5_append pms data 8;
        Some (map (\<lambda>i. ucast (drop_bit (i mod 4 * 8) (md_abcd pms ! (i div 4)))) [0..<16])
      })"

text \<open>\<^verbatim>\<open>md5_count\<close> passes its \<^verbatim>\<open>size_t\<close> as an \<^verbatim>\<open>int\<close>.\<close>

definition md5_count :: "md5_state \<Rightarrow> u8 list \<Rightarrow> u8 list option" where
  "md5_count state ptr = do {
     state \<leftarrow> md5_append (md5_init state) ptr (sint (of_nat (length ptr) :: u32));
     md5_finish state
   }"

section \<open>The standard\<close>

text \<open>The block function of RFC 1321 as one loop of 64 steps: the constants of the RFC, the rotation amounts by round and
  position, and the order of the words as an affine function of the step.\<close>

definition md5_K :: "u32 list" where
  "md5_K = [
     0xd76aa478, 0xe8c7b756, 0x242070db, 0xc1bdceee,
     0xf57c0faf, 0x4787c62a, 0xa8304613, 0xfd469501,
     0x698098d8, 0x8b44f7af, 0xffff5bb1, 0x895cd7be,
     0x6b901122, 0xfd987193, 0xa679438e, 0x49b40821,
     0xf61e2562, 0xc040b340, 0x265e5a51, 0xe9b6c7aa,
     0xd62f105d, 0x02441453, 0xd8a1e681, 0xe7d3fbc8,
     0x21e1cde6, 0xc33707d6, 0xf4d50d87, 0x455a14ed,
     0xa9e3e905, 0xfcefa3f8, 0x676f02d9, 0x8d2a4c8a,
     0xfffa3942, 0x8771f681, 0x6d9d6122, 0xfde5380c,
     0xa4beea44, 0x4bdecfa9, 0xf6bb4b60, 0xbebfbc70,
     0x289b7ec6, 0xeaa127fa, 0xd4ef3085, 0x04881d05,
     0xd9d4d039, 0xe6db99e5, 0x1fa27cf8, 0xc4ac5665,
     0xf4292244, 0x432aff97, 0xab9423a7, 0xfc93a039,
     0x655b59c3, 0x8f0ccc92, 0xffeff47d, 0x85845dd1,
     0x6fa87e4f, 0xfe2ce6e0, 0xa3014314, 0x4e0811a1,
     0xf7537e82, 0xbd3af235, 0x2ad7d2bb, 0xeb86d391]"

definition md5_s :: "nat \<Rightarrow> nat" where
  "md5_s i = [7, 12, 17, 22, 5, 9, 14, 20, 4, 11, 16, 23, 6, 10, 15, 21] ! (4 * (i div 16) + i mod 4)"

definition md5_g :: "nat \<Rightarrow> nat" where
  "md5_g i = (if i < 16 then i else if i < 32 then (5 * i + 1) mod 16 else if i < 48 then (3 * i + 5) mod 16 else (7 * i) mod 16)"

definition md5_f :: "nat \<Rightarrow> u32 \<Rightarrow> u32 \<Rightarrow> u32 \<Rightarrow> u32" where
  "md5_f i x y z =
     (if i < 16 then (x AND y) OR (NOT x AND z) else if i < 32 then (x AND z) OR (y AND NOT z)
      else if i < 48 then x XOR y XOR z else y XOR (x OR NOT z))"

definition md5_step :: "u32 list \<Rightarrow> nat \<Rightarrow> md5_vars \<Rightarrow> md5_vars" where
  "md5_step X i = (\<lambda>(a, b, c, d). (d, b + ROTATE_LEFT (a + md5_f i b c d + X ! md5_g i + md5_K ! i) (md5_s i), b, c))"

definition md5_ref_block :: "u32 list \<Rightarrow> u8 list \<Rightarrow> u32 list" where
  "md5_ref_block h block =
     (let (a, b, c, d) = fold (md5_step (md5_X block)) [0..<64] (h ! 0, h ! 1, h ! 2, h ! 3)
      in [h ! 0 + a, h ! 1 + b, h ! 2 + c, h ! 3 + d])"

lemma md5_T_K: "md5_T = md5_K"
  by (simp add: md5_T_def md5_K_def T_MASK_def)

text \<open>Four consecutive \<^verbatim>\<open>SET\<close>s bring the variables back to their places.\<close>

definition quad :: "(u32 \<Rightarrow> u32 \<Rightarrow> u32 \<Rightarrow> u32) \<Rightarrow> u32 list \<Rightarrow> nat \<times> nat \<times> nat \<times> nat \<Rightarrow> nat \<times> nat \<times> nat \<times> nat \<Rightarrow> nat \<times> nat \<times> nat \<times> nat \<Rightarrow> md5_vars \<Rightarrow> md5_vars" where
  "quad f X = (\<lambda>(k1, k2, k3, k4) (s1, s2, s3, s4) (t1, t2, t3, t4) (a, b, c, d).
     let a = SET f X a b c d k1 s1 (TT t1);
         d = SET f X d a b c k2 s2 (TT t2);
         c = SET f X c d a b k3 s3 (TT t3);
         b = SET f X b c d a k4 s4 (TT t4)
     in (a, b, c, d))"

lemma case_let: "case_prod g (Let e h) = Let e (\<lambda>x. case_prod g (h x))"
  by (simp add: Let_def)

lemma md5_round1_quads: "md5_round1 X v =
  quad FF X (12, 13, 14, 15) (7, 12, 17, 22) (13, 14, 15, 16) (quad FF X (8, 9, 10, 11) (7, 12, 17, 22) (9, 10, 11, 12) (quad FF X (4, 5, 6, 7) (7, 12, 17, 22) (5, 6, 7, 8) (quad FF X (0, 1, 2, 3) (7, 12, 17, 22) (1, 2, 3, 4) v)))"
  by (cases v) (simp only: md5_round1_def quad_def prod.case case_let)

lemma md5_round2_quads: "md5_round2 X v =
  quad GG X (13, 2, 7, 12) (5, 9, 14, 20) (29, 30, 31, 32) (quad GG X (9, 14, 3, 8) (5, 9, 14, 20) (25, 26, 27, 28) (quad GG X (5, 10, 15, 4) (5, 9, 14, 20) (21, 22, 23, 24) (quad GG X (1, 6, 11, 0) (5, 9, 14, 20) (17, 18, 19, 20) v)))"
  by (cases v) (simp only: md5_round2_def quad_def prod.case case_let)

lemma md5_round3_quads: "md5_round3 X v =
  quad HH X (9, 12, 15, 2) (4, 11, 16, 23) (45, 46, 47, 48) (quad HH X (13, 0, 3, 6) (4, 11, 16, 23) (41, 42, 43, 44) (quad HH X (1, 4, 7, 10) (4, 11, 16, 23) (37, 38, 39, 40) (quad HH X (5, 8, 11, 14) (4, 11, 16, 23) (33, 34, 35, 36) v)))"
  by (cases v) (simp only: md5_round3_def quad_def prod.case case_let)

lemma md5_round4_quads: "md5_round4 X v =
  quad II X (4, 11, 2, 9) (6, 10, 15, 21) (61, 62, 63, 64) (quad II X (8, 15, 6, 13) (6, 10, 15, 21) (57, 58, 59, 60) (quad II X (12, 3, 10, 1) (6, 10, 15, 21) (53, 54, 55, 56) (quad II X (0, 7, 14, 5) (6, 10, 15, 21) (49, 50, 51, 52) v)))"
  by (cases v) (simp only: md5_round4_def quad_def prod.case case_let)

lemma TT_K: "TT (Suc i) = md5_K ! i"
  by (simp add: TT_def md5_T_K)

lemma step_SET: "md5_f i = f \<Longrightarrow> md5_step X i (a, b, c, d) = (d, SET f X a b c d (md5_g i) (md5_s i) (TT (Suc i)), b, c)"
  by (simp add: md5_step_def SET_def TT_K add.commute)

lemma step_quad:
  "md5_f i = f \<Longrightarrow> md5_f (Suc i) = f \<Longrightarrow> md5_f (Suc (Suc i)) = f \<Longrightarrow> md5_f (Suc (Suc (Suc i))) = f \<Longrightarrow>
   fold (md5_step X) [i, Suc i, Suc (Suc i), Suc (Suc (Suc i))] v =
   quad f X (md5_g i, md5_g (Suc i), md5_g (Suc (Suc i)), md5_g (Suc (Suc (Suc i))))
     (md5_s i, md5_s (Suc i), md5_s (Suc (Suc i)), md5_s (Suc (Suc (Suc i))))
     (Suc i, Suc (Suc i), Suc (Suc (Suc i)), Suc (Suc (Suc (Suc i)))) v"
  by (cases v) (simp add: step_SET quad_def Let_def)

lemma upt_quads: "[i..<i + 4] = [i, Suc i, Suc (Suc i), Suc (Suc (Suc i))]"
  by (simp add: upt_rec)

lemma md5_f_rounds: "i < 16 \<Longrightarrow> md5_f i = FF" "16 \<le> i \<Longrightarrow> i < 32 \<Longrightarrow> md5_f i = GG" "32 \<le> i \<Longrightarrow> i < 48 \<Longrightarrow> md5_f i = HH" "48 \<le> i \<Longrightarrow> md5_f i = II"
  by (auto simp: md5_f_def FF_def GG_def HH_def II_def fun_eq_iff)

lemma md5_round1_fold: "fold (md5_step X) ([0, 1, 2, 3] @ [4, 5, 6, 7] @ [8, 9, 10, 11] @ [12, 13, 14, 15]) v = md5_round1 X v"
proof -
  have "fold (md5_step X) [0+n, 0+n+1, 0+n+2, 0+n+3] v =
    quad FF X (md5_g (0+n), md5_g (0+n+1), md5_g (0+n+2), md5_g (0+n+3)) (md5_s (0+n), md5_s (0+n+1), md5_s (0+n+2), md5_s (0+n+3)) (0+n+1, 0+n+2, 0+n+3, 0+n+4) v"
    if "n \<le> 12" for n v
    using step_quad [of "0 + n" FF X v] that by (simp add: md5_f_rounds numeral_eq_Suc)
  from this [of 0] this [of 4] this [of 8] this [of 12] show ?thesis
    unfolding fold_append o_def md5_round1_quads
    by (simp add: md5_g_def md5_s_def numeral_2_eq_2 del: fold_simps)
qed

lemma md5_round2_fold: "fold (md5_step X) ([16, 17, 18, 19] @ [20, 21, 22, 23] @ [24, 25, 26, 27] @ [28, 29, 30, 31]) v = md5_round2 X v"
proof -
  have "fold (md5_step X) [16+n, 16+n+1, 16+n+2, 16+n+3] v =
    quad GG X (md5_g (16+n), md5_g (16+n+1), md5_g (16+n+2), md5_g (16+n+3)) (md5_s (16+n), md5_s (16+n+1), md5_s (16+n+2), md5_s (16+n+3)) (16+n+1, 16+n+2, 16+n+3, 16+n+4) v"
    if "n \<le> 12" for n v
    using step_quad [of "16 + n" GG X v] that by (simp add: md5_f_rounds numeral_eq_Suc)
  from this [of 0] this [of 4] this [of 8] this [of 12] show ?thesis
    unfolding fold_append o_def md5_round2_quads
    by (simp add: md5_g_def md5_s_def del: fold_simps)
qed

lemma md5_round3_fold: "fold (md5_step X) ([32, 33, 34, 35] @ [36, 37, 38, 39] @ [40, 41, 42, 43] @ [44, 45, 46, 47]) v = md5_round3 X v"
proof -
  have "fold (md5_step X) [32+n, 32+n+1, 32+n+2, 32+n+3] v =
    quad HH X (md5_g (32+n), md5_g (32+n+1), md5_g (32+n+2), md5_g (32+n+3)) (md5_s (32+n), md5_s (32+n+1), md5_s (32+n+2), md5_s (32+n+3)) (32+n+1, 32+n+2, 32+n+3, 32+n+4) v"
    if "n \<le> 12" for n v
    using step_quad [of "32 + n" HH X v] that by (simp add: md5_f_rounds numeral_eq_Suc)
  from this [of 0] this [of 4] this [of 8] this [of 12] show ?thesis
    unfolding fold_append o_def md5_round3_quads
    by (simp add: md5_g_def md5_s_def del: fold_simps)
qed

lemma md5_round4_fold: "fold (md5_step X) ([48, 49, 50, 51] @ [52, 53, 54, 55] @ [56, 57, 58, 59] @ [60, 61, 62, 63]) v = md5_round4 X v"
proof -
  have "fold (md5_step X) [48+n, 48+n+1, 48+n+2, 48+n+3] v =
    quad II X (md5_g (48+n), md5_g (48+n+1), md5_g (48+n+2), md5_g (48+n+3)) (md5_s (48+n), md5_s (48+n+1), md5_s (48+n+2), md5_s (48+n+3)) (48+n+1, 48+n+2, 48+n+3, 48+n+4) v"
    if "n \<le> 12" for n v
    using step_quad [of "48 + n" II X v] that by (simp add: md5_f_rounds numeral_eq_Suc)
  from this [of 0] this [of 4] this [of 8] this [of 12] show ?thesis
    unfolding fold_append o_def md5_round4_quads
    by (simp add: md5_g_def md5_s_def del: fold_simps)
qed

lemma upt_64_rounds:
  "[0..<64] = ([0, 1, 2, 3] @ [4, 5, 6, 7] @ [8, 9, 10, 11] @ [12, 13, 14, 15]) @ ([16, 17, 18, 19] @ [20, 21, 22, 23] @ [24, 25, 26, 27] @ [28, 29, 30, 31])
     @ ([32, 33, 34, 35] @ [36, 37, 38, 39] @ [40, 41, 42, 43] @ [44, 45, 46, 47]) @ ([48, 49, 50, 51] @ [52, 53, 54, 55] @ [56, 57, 58, 59] @ [60, 61, 62, 63::nat])"
  by (simp add: upt_rec)

lemma md5_block_eq: "md5_process h block = md5_ref_block h block"
proof -
  have f: "fold (md5_step X) [0..<64] v = md5_round4 X (md5_round3 X (md5_round2 X (md5_round1 X v)))" for X v
    unfolding upt_64_rounds by (subst fold_append, subst fold_append, subst fold_append)
      (simp only: o_def md5_round1_fold md5_round2_fold md5_round3_fold md5_round4_fold)
  show ?thesis unfolding md5_process_def md5_ref_block_def f Let_def ..
qed

definition md5_IV :: "u32 list" where
  "md5_IV = [0x67452301, 0xEFCDAB89, 0x98BADCFE, 0x10325476]"

definition le64 :: "u64 \<Rightarrow> u8 list" where
  "le64 n = map (\<lambda>i. ucast (drop_bit (8 * i) n)) [0..<8]"

definition put_le32 :: "u32 \<Rightarrow> u8 list" where
  "put_le32 w = map (\<lambda>i. ucast (drop_bit (8 * i) w)) [0..<4]"

definition md5_spec :: "u8 list \<Rightarrow> u8 list" where
  "md5_spec m = concat (map put_le32 (fst (absorb md5_ref_block md5_IV (md_pad le64 m))))"

section \<open>A context stands for its message\<close>

lemma md5_X_take: "md5_X (take 64 p) = md5_X p"
  unfolding md5_X_def by (rule map_cong) (auto simp del: upt_rec_numeral)

lemma md5_process_take: "md5_process h (take 64 p) = md5_process h p"
  by (simp add: md5_process_def md5_X_take)

lemma md5_full_absorb:
  "length (md_buf c) = 64 \<Longrightarrow> absorb md5_process (md_abcd c) p = (h, r) \<Longrightarrow>
   md_abcd (md5_full c p) = h \<and> md_count0 (md5_full c p) = md_count0 c \<and> md_count1 (md5_full c p) = md_count1 c
   \<and> length (md_buf (md5_full c p)) = 64 \<and> take (length r) (md_buf (md5_full c p)) = r"
proof (induction c p rule: md5_full.induct)
  case (1 c p)
  show ?case
  proof (cases "64 \<le> length p")
    case True
    then show ?thesis using 1 by (simp add: md5_full.simps [of c p] absorb_block md5_process_take)
  next
    case False
    then have "h = md_abcd c" "r = p" using 1(3) by auto
    moreover have "md5_full c p = (if length p > 0 then c\<lparr>md_buf := memcpy_at (md_buf c) 0 p\<rparr> else c)" using False by (simp add: md5_full.simps [of c p])
    ultimately show ?thesis using False 1(2) memcpy_at_take [of 0 "md_buf c" p] by simp
  qed
qed

definition md5_reps :: "md5_state \<Rightarrow> u8 list \<Rightarrow> bool" where
  "md5_reps c m \<longleftrightarrow> length (md_buf c) = 64 \<and> absorb md5_process md5_IV m = (md_abcd c, take (length m mod 64) (md_buf c))
     \<and> md_count0 c = of_nat (8 * length m) \<and> md_count1 c = of_nat (8 * length m div 2 ^ 32)"

lemma md5_init_reps: "length (md_buf c) = 64 \<Longrightarrow> md5_reps (md5_init c) []"
  by (simp add: md5_reps_def md5_init_def md5_IV_def T_MASK_def)

lemma count_bytes: "unat (drop_bit 3 (of_nat (8 * n) :: u32)) = n mod 2 ^ 29"
proof -
  have "8 * n mod 4294967296 div 8 = n mod 536870912"
    using mult_mod_right [of 8 n 536870912] by simp
  moreover have "unat (drop_bit 3 (of_nat (8 * n) :: u32)) = unat (of_nat (8 * n) :: u32) div 8"
    using unat_drop_bit_eq [of 3 "of_nat (8 * n) :: u32"] by (simp only: drop_bit_eq_div) simp
  moreover have "unat (of_nat (8 * n) :: u32) = 8 * n mod 4294967296" unfolding unat_of_nat by simp
  ultimately show ?thesis by simp
qed

lemma and_63: "unat (w AND 63) = unat (w :: u32) mod 64"
proof -
  have m: "(63 :: u32) = mask 6" by (simp add: mask_eq_exp_minus_1)
  have "unat (take_bit 6 w) = take_bit 6 (unat w)" by (rule unsigned_take_bit_eq)
  then show ?thesis unfolding m take_bit_eq_mask [symmetric] by (simp only: take_bit_nat_def) simp
qed

lemma md5_offset: "md5_reps c m \<Longrightarrow> unat (drop_bit 3 (md_count0 c) AND 63) = length m mod 64"
proof -
  assume "md5_reps c m"
  then have "md_count0 c = of_nat (8 * length m)" unfolding md5_reps_def by blast
  then have "unat (drop_bit 3 (md_count0 c)) = length m mod 2 ^ 29" by (simp only: count_bytes)
  then show ?thesis by (simp add: and_63 mod_mod_cancel)
qed

lemma carry_split: "(a + b) div (2 ^ 32 :: nat) = a div 2 ^ 32 + (if 2 ^ 32 \<le> a mod 2 ^ 32 + b then 1 else 0)" if "b < 2 ^ 32"
proof -
  have "(a + b) div 2 ^ 32 = a div 2 ^ 32 + (a mod 2 ^ 32 + b) div 2 ^ 32" 
  proof -
    have "a + b = (a mod 2 ^ 32 + b) + 2 ^ 32 * (a div 2 ^ 32)" by simp
    then show ?thesis by (metis add.commute div_mult_self2 power_not_zero zero_neq_numeral)
  qed
  moreover have "(a mod 2 ^ 32 + b) div 2 ^ 32 = (if 2 ^ 32 \<le> a mod 2 ^ 32 + b then 1 else 0)"
    using that mod_less_divisor [of "2 ^ 32" a] by (auto simp: div_nat_eqI)
  ultimately show ?thesis by simp
qed

lemma wrap_less_iff:
  fixes a b M :: nat
  assumes "a < M" "b < M"
  shows "(a + b) mod M < b \<longleftrightarrow> M \<le> a + b"
proof (cases "M \<le> a + b")
  case True
  then have "(a + b) mod M = a + b - M" using assms by (simp add: le_mod_geq)
  then show ?thesis using True assms by simp
qed simp

lemma md5_lengthen_counts:
  assumes "md_count0 c = of_nat (8 * k)" "md_count1 c = of_nat (8 * k div 2 ^ 32)" "n < 2 ^ 28"
  shows "md_count0 (md5_lengthen c n) = of_nat (8 * (k + n)) \<and> md_count1 (md5_lengthen c n) = of_nat (8 * (k + n) div 2 ^ 32)"
proof -
  have n8: "8 * n < 2 ^ 32" using assms(3) by simp
  have b: "unat (of_nat (n * 8) :: u32) = 8 * n" unfolding unat_of_nat using assms(3) by simp
  have "unat (md_count0 c + of_nat (n * 8)) = (8 * k mod 2 ^ 32 + 8 * n) mod 2 ^ 32"
    unfolding assms(1) unat_word_ariths b unfolding unat_of_nat by simp
  then have "(md_count0 c + of_nat (n * 8) < (of_nat (n * 8) :: u32)) \<longleftrightarrow> 2 ^ 32 \<le> 8 * k mod 2 ^ 32 + 8 * n"
    unfolding word_less_nat_alt b using n8 wrap_less_iff [of "8 * k mod 2 ^ 32" "2 ^ 32" "8 * n"] by simp
  moreover have "n div 2 ^ 29 = 0" using assms(3) by simp
  ultimately show ?thesis using carry_split [OF n8, of "8 * k"] by (simp add: md5_lengthen_def Let_def assms(1,2) algebra_simps)
qed

lemma md5_lengthen_keeps [simp]: "md_buf (md5_lengthen c n) = md_buf c" "md_abcd (md5_lengthen c n) = md_abcd c"
  by (simp_all add: md5_lengthen_def Let_def)

text \<open>Absorbing the rest of a piece from a context with an empty buffer.\<close>

lemma md5_full_reps:
  assumes "length (md_buf c) = 64" "absorb md5_process md5_IV m = absorb md5_process (md_abcd c) p"
    "md_count0 c = of_nat (8 * length m)" "md_count1 c = of_nat (8 * length m div 2 ^ 32)"
  shows "md5_reps (md5_full c p) m"
proof -
  obtain h r where a: "absorb md5_process (md_abcd c) p = (h, r)" by fastforce
  note f = md5_full_absorb [OF assms(1) a]
  have "length r = length m mod 64" using absorb_rest_length [of md5_process md5_IV m h r] assms(2) a by simp
  then show ?thesis using f assms a unfolding md5_reps_def by simp
qed

lemma md5_append_reps:
  assumes r: "md5_reps c m" and n: "length xs < 2 ^ 28"
  shows "\<exists>c'. md5_append c xs (int (length xs)) = Some c' \<and> md5_reps c' (m @ xs)"
proof -
  let ?o = "length m mod 64" and ?n = "length xs"
  have o: "unat (drop_bit 3 (md_count0 c) AND 63) = ?o" by (rule md5_offset [OF r])
  have ok: "\<not> (int ?n < 0 \<or> int ?n * 8 \<ge> 2 ^ 31)" using n by simp
  define l where "l = md5_lengthen c ?n"
  have cnt: "md_count0 l = of_nat (8 * length (m @ xs))" "md_count1 l = of_nat (8 * length (m @ xs) div 2 ^ 32)"
    using md5_lengthen_counts [of c "length m" ?n] r n by (simp_all only: md5_reps_def l_def length_append)
  have buf: "length (md_buf c) = 64" and ab: "absorb md5_process md5_IV m = (md_abcd c, take ?o (md_buf c))" using r by (auto simp: md5_reps_def)
  have app: "absorb md5_process md5_IV (m @ xs) = absorb md5_process (md_abcd c) (take ?o (md_buf c) @ xs)" by (rule absorb_append [OF ab])
  have pl: "length (take ?o (md_buf c)) = ?o" using buf by simp
  consider "xs = []" | "xs \<noteq> []" "?o = 0" | "xs \<noteq> []" "?o > 0" "?o + ?n < 64" | "xs \<noteq> []" "?o > 0" "64 \<le> ?o + ?n" by fastforce
  then show ?thesis
  proof cases
    case 1
    then show ?thesis using r by (simp add: md5_append_def Let_def)
  next
    case 2
    then have "md5_append c xs (int ?n) = Some (md5_full l xs)" using ok unfolding md5_append_def Let_def o l_def by simp
    moreover have "md5_reps (md5_full l xs) (m @ xs)" by (rule md5_full_reps) (use 2 app buf cnt in \<open>simp_all add: l_def\<close>)
    ultimately show ?thesis by blast
  next
    case 3
    then have "md5_append c xs (int ?n) = Some (l\<lparr>md_buf := memcpy_at (md_buf l) ?o xs\<rparr>)" using ok unfolding md5_append_def Let_def o l_def by simp
    moreover have "md5_reps (l\<lparr>md_buf := memcpy_at (md_buf l) ?o xs\<rparr>) (m @ xs)"
    proof -
      have "(length m + ?n) mod 64 = ?o + ?n" using 3(3) mod_add_left_eq [of "length m" 64 ?n] by simp
      then show ?thesis unfolding md5_reps_def using 3 app buf cnt pl by (simp add: l_def)
    qed
    ultimately show ?thesis by blast
  next
    case 4
    define c' where "c' = l\<lparr>md_buf := memcpy_at (md_buf l) ?o (take (64 - ?o) xs), md_abcd := md5_process (md_abcd l) (memcpy_at (md_buf l) ?o (take (64 - ?o) xs))\<rparr>"
    have "md5_append c xs (int ?n) = Some (md5_full c' (drop (64 - ?o) xs))"
      using 4 ok unfolding md5_append_def Let_def o c'_def l_def by auto
    moreover have "memcpy_at (md_buf l) ?o (take (64 - ?o) xs) = take ?o (md_buf c) @ take (64 - ?o) xs"
      using 4 buf by (simp add: memcpy_at_def l_def)
    then have "md5_reps (md5_full c' (drop (64 - ?o) xs)) (m @ xs)"
      using 4 app buf cnt pl absorb_fill [of "take ?o (md_buf c)" xs md5_process "md_abcd c"]
      by (intro md5_full_reps) (simp_all add: c'_def l_def)
    ultimately show ?thesis by blast
  qed
qed

section \<open>Padding and digest\<close>

lemma le64_length [simp]: "length (le64 n) = 8"
  by (simp add: le64_def)

lemma md5_length_le64: "md5_reps c m \<Longrightarrow> md5_length_bytes c = le64 (of_nat (8 * length m))"
proof -
  assume r: "md5_reps c m"
  define N where "N = 8 * length m"
  have c: "md_count0 c = of_nat N" "md_count1 c = of_nat (drop_bit 32 N)" using r unfolding md5_reps_def N_def drop_bit_eq_div by blast+
  have 0: "ucast (drop_bit k (of_nat N :: u32)) = (ucast (drop_bit k (of_nat N :: u64)) :: u8)" if "k \<le> 24" for k
    using that by (intro bit_word_eqI) (auto simp: bit_simps)
  have 1: "ucast (drop_bit k (of_nat (drop_bit 32 N) :: u32)) = (ucast (drop_bit (k + 32) (of_nat N :: u64)) :: u8)" if "k \<le> 24" for k
    using that by (intro bit_word_eqI) (auto simp: bit_simps ac_simps)
  have u: "[0..<8] = [0, 1, 2, 3, 4, 5, 6, 7::nat]" by (simp add: upt_rec)
  show ?thesis unfolding md5_length_bytes_def le64_def c N_def [symmetric] u using 0 [of 0] 1 [of 0] by (simp add: 0 1 del: of_nat_mult)
qed

lemma md5_pad_count:
  assumes "md5_reps c m"
  shows "uint ((55 - drop_bit 3 (md_count0 c)) AND 63) = int (md_zeros (length m))"
proof -
  define w where "w = drop_bit 3 (md_count0 c)"
  have w: "unat w = length m mod 2 ^ 29"
  proof -
    have "md_count0 c = of_nat (8 * length m)" using assms unfolding md5_reps_def by blast
    then show ?thesis unfolding w_def by (simp only: count_bytes)
  qed
  have "uint ((55 - w) AND 63) = uint (55 - w) mod 64"
    unfolding uint_nat and_63 by (simp add: zmod_int)
  also have "\<dots> = (55 - uint w) mod 64" by (simp add: uint_word_ariths mod_mod_cancel)
  also have "\<dots> = (55 - int (length m)) mod 64"
  proof -
    have "uint w = int (length m mod 2 ^ 29)" using w by (simp add: uint_nat)
    then have "uint w mod 64 = int (length m) mod 64" by (simp add: zmod_int mod_mod_cancel)
    then show ?thesis by (metis mod_diff_right_eq)
  qed
  also have "\<dots> = int (md_zeros (length m))"
  proof -
    have "int (md_zeros (length m)) = int (119 - length m mod 64) mod 64" by (simp add: md_zeros_def zmod_int)
    also have "int (119 - length m mod 64) = 119 - int (length m) mod 64"
      using mod_less_divisor [of 64 "length m"] by (simp add: of_nat_diff zmod_int)
    also have "(119 - int (length m) mod 64) mod 64 = (119 - int (length m)) mod 64" by (simp add: mod_diff_right_eq)
    also have "\<dots> = (55 - int (length m) + 64) mod 64" by simp
    also have "\<dots> = (55 - int (length m)) mod 64" by (rule mod_add_self2)
    finally show ?thesis by simp
  qed
  finally show ?thesis by (simp add: w_def)
qed

lemma md5_append_take: "length xs \<le> length ys \<Longrightarrow> take (length xs) ys = xs \<Longrightarrow> md5_append c ys (int (length xs)) = md5_append c xs (int (length xs))"
  by (simp add: md5_append_def)

lemma absorb_length4: "length h = 4 \<Longrightarrow> length (fst (absorb md5_process h m)) = 4"
proof (induction "length m" arbitrary: h m rule: less_induct)
  case less
  show ?case
  proof (cases "length m < 64")
    case False
    have "length (md5_process h (take 64 m)) = 4" by (simp add: md5_process_def Let_def case_prod_beta)
    then show ?thesis using less.hyps [of "drop 64 m"] False by (simp add: absorb_block)
  qed (use less.prems in simp)
qed

lemma digest_bytes: "length h = 4 \<Longrightarrow> map (\<lambda>i. ucast (drop_bit (i mod 4 * 8) (h ! (i div 4)))) [0..<16] = concat (map put_le32 h)"
proof -
  assume "length h = 4"
  then obtain a b c d where h: "h = [a, b, c, d]" by (auto simp: numeral_eq_Suc length_Suc_conv)
  show ?thesis unfolding h by (simp add: put_le32_def upt_rec)
qed

lemma md5_finish_spec:
  assumes "md5_reps c m"
  shows "md5_finish c = Some (md5_spec m)"
proof -
  let ?pad = "0x80 # replicate (md_zeros (length m)) (0 :: u8)"
  have pl: "length ?pad < 2 ^ 28" "length ?pad \<le> length md5_padding" "take (length ?pad) md5_padding = ?pad"
    using md_zeros_less [of "length m"] by (simp_all add: md5_padding_def)
  obtain c1 where c1: "md5_append c ?pad (int (length ?pad)) = Some c1" "md5_reps c1 (m @ ?pad)" using md5_append_reps [OF assms pl(1)] by blast
  have a1: "md5_append c md5_padding (uint ((55 - drop_bit 3 (md_count0 c)) AND 63) + 1) = Some c1"
    using md5_append_take [OF pl(2,3), of c] c1(1) by (simp add: md5_pad_count [OF assms] add.commute)
  let ?len = "le64 (of_nat (8 * length m))"
  obtain c2 where c2: "md5_append c1 ?len 8 = Some c2" "md5_reps c2 ((m @ ?pad) @ ?len)" using md5_append_reps [OF c1(2), of ?len] by auto
  have r: "md5_reps c2 (md_pad le64 m)" using c2(2) by (simp add: md_pad_def)
  then have ab: "md_abcd c2 = fst (absorb md5_process md5_IV (md_pad le64 m))" by (simp add: md5_reps_def)
  have "md5_process = md5_ref_block" by (intro ext) (rule md5_block_eq)
  then have "md5_spec m = concat (map put_le32 (md_abcd c2))" by (simp add: md5_spec_def ab)
  moreover have "length (md_abcd c2) = 4" unfolding ab by (rule absorb_length4) (simp add: md5_IV_def)
  ultimately show ?thesis
    unfolding md5_finish_def Let_def a1 md5_length_le64 [OF assms] bind.bind_lunit c2(1) by (simp only: digest_bytes)
qed

interpretation md: message_digest "\<lambda>c. \<exists>pms. length (md_buf pms) = 64 \<and> c = md5_init pms" "\<lambda>c xs. md5_append c xs (int (length xs))" md5_finish
  md5_reps "\<lambda>xs. length xs < 2 ^ 28" md5_spec
  by unfold_locales (auto simp: md5_init_reps md5_finish_spec intro: md5_append_reps)

lemma md_updates: "md.updates c xss = fold (\<lambda>xs c. c \<bind> (\<lambda>c. md5_append c xs (int (length xs)))) xss (Some c)"
proof -
  have n: "fold (\<lambda>xs c. c \<bind> (\<lambda>c. md5_append c xs (int (length xs)))) yss None = None" for yss by (induction yss) simp_all
  show ?thesis
  proof (induction xss arbitrary: c)
    case (Cons xs xss)
    then show ?case by (cases "md5_append c xs (int (length xs))") (simp_all add: n)
  qed simp
qed

lemma md5_count_reduces:
  "md5_count pms data = do { c \<leftarrow> md5_append (md5_init pms) data (sint (of_nat (length data) :: u32)); md5_finish c }"
  by (simp add: md5_count_def)

lemma sint_small: "n < 2 ^ 31 \<Longrightarrow> sint (of_nat n :: u32) = int n"
  by (simp add: sint_uint uint_nat unat_of_nat signed_take_bit_int_eq_self)

text \<open>C20: the context of MD5 is a streaming implementation of RFC 1321 for pieces below 256 MiB, the lengths for which
  the shift in \<^verbatim>\<open>md5_append\<close> is defined. However the message is cut into such pieces, appending them and
  finishing succeeds and gives the digest of the whole message: the unrolled block function is the loop of 64 steps of the
  RFC, the two words of the count hold the length in bits, and the padding is the one of the RFC.\<close>

theorem md5_streams_standard:
  "length (md_buf pms) = 64 \<Longrightarrow> \<forall>xs \<in> set pieces. length xs < 2 ^ 28 \<Longrightarrow> length data < 2 ^ 28 \<Longrightarrow>
   fold (\<lambda>xs c. c \<bind> (\<lambda>c. md5_append c xs (int (length xs)))) pieces (Some (md5_init pms)) \<bind> md5_finish = Some (md5_spec (concat pieces)) \<and>
   md5_count pms data = Some (md5_spec data)"
proof -
  assume len: "length (md_buf pms) = 64" and p: "\<forall>xs \<in> set pieces. length xs < 2 ^ 28" and d: "length data < 2 ^ 28"
  have a: "fold (\<lambda>xs c. c \<bind> (\<lambda>c. md5_append c xs (int (length xs)))) ps (Some (md5_init pms)) \<bind> md5_finish = Some (md5_spec (concat ps))"
    if "\<forall>xs \<in> set ps. length xs < 2 ^ 28" for ps
    using md.digest_pieces [of "md5_init pms" ps] len that by (auto simp: md_updates)
  from a [OF p] a [of "[data]"] d show ?thesis by (simp add: md5_count_reduces sint_small)
qed

definition md5_blank :: md5_state where
  "md5_blank = \<lparr>md_count0 = 5, md_count1 = 7, md_abcd = [], md_buf = replicate 64 0xA5\<rparr>"

lemma md5_blank_buf: "length (md_buf md5_blank) = 64"
  by (simp add: md5_blank_def)

theorem md5_streams_standard_witness:
  "length (md_buf md5_blank) = 64 \<and> list_all (\<lambda>xs. length xs < 2 ^ 28) [[0x61], [], [0x62, 0x63 :: u8]] \<and>
   fold (\<lambda>xs c. c \<bind> (\<lambda>c. md5_append c xs (int (length xs)))) [[0x61], [], [0x62, 0x63]] (Some (md5_init md5_blank)) \<bind> md5_finish
     = Some (md5_spec [0x61, 0x62, 0x63]) \<and>
   md5_count md5_blank [0x61, 0x62, 0x63] = Some (md5_spec [0x61, 0x62, 0x63])"
  using md5_streams_standard [OF md5_blank_buf, of "[[0x61], [], [0x62, 0x63]]" "[0x61, 0x62, 0x63]"] md5_blank_buf by simp

text \<open>C38: \<^verbatim>\<open>md5_count\<close> takes a \<^verbatim>\<open>size_t\<close> but passes it as an \<^verbatim>\<open>int\<close>. The digest of exactly 4 GiB is that of the empty
  message, whatever the bytes, and from 256 MiB to 4 GiB the shift that computes the length in bits is undefined.\<close>

theorem md5_count_truncates:
  "length (md_buf pms) = 64 \<Longrightarrow> length four_gib = 2 ^ 32 \<Longrightarrow> 2 ^ 28 \<le> length large \<Longrightarrow> length large < 2 ^ 32 \<Longrightarrow>
   md5_count pms four_gib = Some (md5_spec []) \<and> md5_count pms large = None"
proof -
  assume len: "length (md_buf pms) = 64" and f: "length four_gib = 2 ^ 32" and l: "2 ^ 28 \<le> length large" "length large < 2 ^ 32"
  have "(of_nat (2 ^ 32) :: u32) = 0" by simp
  then have 1: "md5_count pms four_gib = Some (md5_spec [])"
    using md5_finish_spec [OF md5_init_reps [OF len]] f by (simp only: md5_count_reduces) (simp add: md5_append_def)
  have "md5_count pms large = None"
  proof (cases "length large < 2 ^ 31")
    case True
    then show ?thesis using l by (simp add: md5_count_reduces sint_small md5_append_def)
  next
    case False
    then have "length large div 2 ^ 31 = 1" using l by (intro div_nat_eqI) simp_all
    then have "bit (length large) 31" by (simp add: bit_iff_odd)
    then have "bit (of_nat (length large) :: u32) 31" by (simp add: bit_simps)
    then have "sint (of_nat (length large) :: u32) < 0" using bit_last_iff [of "of_nat (length large) :: u32"] by simp
    then show ?thesis by (simp add: md5_count_reduces md5_append_def)
  qed
  with 1 show ?thesis ..
qed

theorem md5_count_truncates_witness:
  "length (md_buf md5_blank) = 64 \<and> length (replicate (2 ^ 32) (0x58 :: u8)) = 2 ^ 32 \<and> md5_count md5_blank (replicate (2 ^ 32) 0x58) = Some (md5_spec []) \<and>
   md5_count md5_blank (replicate (2 ^ 28) 0x58) = None"
  using md5_count_truncates [OF md5_blank_buf, of "replicate (2 ^ 32) 0x58" "replicate (2 ^ 28) 0x58"] md5_blank_buf by simp

end
