(* ===== verification/Xdr.thy ===== *)
theory Xdr
  imports Prelude "HOL-Library.Monad_Syntax"
begin

text \<open>
  The filters of \<^verbatim>\<open>net/lib/rpc/xdr.c\<close>: one routine per type that encodes, decodes or frees it, depending on the
  operation of the stream. The stream is a table of operations, so the filters are polymorphic in the
  private state of the stream, and what they need of the operations is the contract \<^verbatim>\<open>xdr_stream\<close>.

  A filter takes the stream and the object its pointer designates and returns whether it succeeded, the object and the stream.
  \<^const>\<open>None\<close> stands for a failed assertion or an access outside an object. A \<^verbatim>\<open>char *\<close> that may be \<^verbatim>\<open>NULL\<close> is an
  optional list, of the length of the memory it points to; \<^verbatim>\<open>malloc\<close> is a parameter that says
  which sizes it can serve.
\<close>

section \<open>Streams\<close>

datatype xdr_op = XDR_ENCODE | XDR_DECODE | XDR_FREE

record 's xdr_ops =
  op_getunit :: "'s \<Rightarrow> (u32 option \<times> 's) option"
  op_putunit :: "'s \<Rightarrow> u32 \<Rightarrow> (bool \<times> 's) option"
  op_getbytes :: "'s \<Rightarrow> nat \<Rightarrow> (u8 list option \<times> 's) option"
  op_putbytes :: "'s \<Rightarrow> u8 list \<Rightarrow> (bool \<times> 's) option"
  op_getpos :: "'s \<Rightarrow> nat"
  op_setpos :: "'s \<Rightarrow> nat \<Rightarrow> bool \<times> 's"
  op_destroy :: "'s \<Rightarrow> 's"

text \<open>\<^verbatim>\<open>ops\<close> is \<^const>\<open>None\<close> in a stream whose table was never set.\<close>

record 's xdr =
  oper :: xdr_op
  ops :: "'s xdr_ops option"
  extra :: "'s"

type_synonym ('s, 'v) xdrproc_t = "'s xdr \<Rightarrow> 'v \<Rightarrow> (bool \<times> 'v \<times> 's xdr) option"

definition BYTES_PER_XDR_UNIT :: nat where "BYTES_PER_XDR_UNIT = 4"
definition XDR_LAST_UINT32 :: u32 where "XDR_LAST_UINT32 = - 1"

definition xdr_getunit :: "('s, u32) xdrproc_t" where
  "xdr_getunit xs to = do {
     o' \<leftarrow> ops xs;
     (r, s) \<leftarrow> op_getunit o' (extra xs);
     Some (case r of None \<Rightarrow> (False, to, xs\<lparr>extra := s\<rparr>) | Some u \<Rightarrow> (True, u, xs\<lparr>extra := s\<rparr>))
   }"

definition xdr_putunit :: "('s, u32) xdrproc_t" where
  "xdr_putunit xs from = do {
     o' \<leftarrow> ops xs;
     (r, s) \<leftarrow> op_putunit o' (extra xs) from;
     Some (r, from, xs\<lparr>extra := s\<rparr>)
   }"

text \<open>The destination holds at least \<^verbatim>\<open>size\<close> bytes; only the first of them change.\<close>

definition xdr_getbytes :: "nat \<Rightarrow> ('s, u8 list) xdrproc_t" where
  "xdr_getbytes sz xs to = do {
     o' \<leftarrow> ops xs;
     (r, s) \<leftarrow> op_getbytes o' (extra xs) sz;
     case r of
       None \<Rightarrow> Some (False, to, xs\<lparr>extra := s\<rparr>)
     | Some bs \<Rightarrow> if length to < sz then None else Some (True, bs @ drop sz to, xs\<lparr>extra := s\<rparr>)
   }"

definition xdr_putbytes :: "nat \<Rightarrow> ('s, u8 list) xdrproc_t" where
  "xdr_putbytes sz xs from = do {
     o' \<leftarrow> ops xs;
     if length from < sz then None
     else do {
       (r, s) \<leftarrow> op_putbytes o' (extra xs) (take sz from);
       Some (r, from, xs\<lparr>extra := s\<rparr>)
     }
   }"

definition xdr_getpos :: "'s xdr \<Rightarrow> nat option" where
  "xdr_getpos xs = do { o' \<leftarrow> ops xs; Some (op_getpos o' (extra xs)) }"

definition xdr_setpos :: "'s xdr \<Rightarrow> nat \<Rightarrow> (bool \<times> 's xdr) option" where
  "xdr_setpos xs pos = do {
     o' \<leftarrow> ops xs;
     let (r, s) = op_setpos o' (extra xs) pos;
     Some (r, xs\<lparr>extra := s\<rparr>)
   }"

definition xdr_destroy :: "'s xdr \<Rightarrow> 's xdr option" where
  "xdr_destroy xs = do { o' \<leftarrow> ops xs; Some (xs\<lparr>extra := op_destroy o' (extra xs)\<rparr>) }"

text \<open>\<^verbatim>\<open>XDR_RESTORE\<close> and the return of a failure.\<close>

definition XDR_RESTORE :: "nat \<Rightarrow> ('s, 'v) xdrproc_t" where
  "XDR_RESTORE s xs v = do { (_, xs') \<leftarrow> xdr_setpos xs s; Some (False, v, xs') }"

definition xdr_align :: "nat \<Rightarrow> 's xdr \<Rightarrow> (bool \<times> 's xdr) option" where
  "xdr_align sz xs = (
     let round_up = (BYTES_PER_XDR_UNIT - sz mod BYTES_PER_XDR_UNIT) mod BYTES_PER_XDR_UNIT
     in case oper xs of
          XDR_DECODE \<Rightarrow> do { (ok, _, xs') \<leftarrow> xdr_getbytes round_up xs (replicate BYTES_PER_XDR_UNIT 0); Some (ok, xs') }
        | XDR_ENCODE \<Rightarrow> do { (ok, _, xs') \<leftarrow> xdr_putbytes round_up xs (replicate round_up 0); Some (ok, xs') }
        | XDR_FREE \<Rightarrow> None)"

section \<open>Filters of numbers\<close>

definition xdr_int :: "('s, u32) xdrproc_t" where
  "xdr_int xs ps32 = (case oper xs of
       XDR_DECODE \<Rightarrow> xdr_getunit xs ps32
     | XDR_ENCODE \<Rightarrow> xdr_putunit xs ps32
     | XDR_FREE \<Rightarrow> Some (True, ps32, xs))"

definition xdr_u_int :: "('s, u32) xdrproc_t" where
  "xdr_u_int xs pu32 = (case oper xs of
       XDR_DECODE \<Rightarrow> xdr_getunit xs pu32
     | XDR_ENCODE \<Rightarrow> xdr_putunit xs pu32
     | XDR_FREE \<Rightarrow> Some (True, pu32, xs))"

text \<open>A signed short is widened with its sign.\<close>

definition xdr_short :: "('s, u16) xdrproc_t" where
  "xdr_short xs ps16 = do {
     (ok, s32, xs') \<leftarrow> xdr_int xs (scast ps16);
     Some (if ok then (True, ucast s32, xs') else (False, ps16, xs'))
   }"

definition xdr_u_short :: "('s, u16) xdrproc_t" where
  "xdr_u_short xs pu16 = do {
     (ok, u32, xs') \<leftarrow> xdr_u_int xs (ucast pu16);
     Some (if ok then (True, ucast u32, xs') else (False, pu16, xs'))
   }"

definition xdr_u_hyper :: "('s, u64) xdrproc_t" where
  "xdr_u_hyper xs pu64 = do {
     s \<leftarrow> xdr_getpos xs;
     case oper xs of
       XDR_DECODE \<Rightarrow> do {
         (ok1, unit1, xs) \<leftarrow> xdr_getunit xs 0;
         if ok1 then do {
           (ok2, unit2, xs) \<leftarrow> xdr_getunit xs 0;
           if ok2 then Some (True, push_bit 32 (ucast unit1) OR ucast unit2, xs) else XDR_RESTORE s xs pu64
         }
         else XDR_RESTORE s xs pu64
       }
     | XDR_ENCODE \<Rightarrow> do {
         (ok1, _, xs) \<leftarrow> xdr_putunit xs (ucast (drop_bit 32 pu64));
         if ok1 then do {
           (ok2, _, xs) \<leftarrow> xdr_putunit xs (ucast pu64);
           if ok2 then Some (True, pu64, xs) else XDR_RESTORE s xs pu64
         }
         else XDR_RESTORE s xs pu64
       }
     | XDR_FREE \<Rightarrow> Some (True, pu64, xs)
   }"

definition xdr_hyper :: "('s, u64) xdrproc_t" where
  "xdr_hyper xs ps64 = xdr_u_hyper xs ps64"

definition xdr_enum :: "('s, u32) xdrproc_t" where
  "xdr_enum xs pe = xdr_int xs pe"

definition xdr_bool :: "('s, u32) xdrproc_t" where
  "xdr_bool xs pb = xdr_enum xs pb"

section \<open>Filters of arrays and strings\<close>

text \<open>\<^verbatim>\<open>xdr_array\<close>: the decoding loop calls the filter of the elements before it compares the index with the size.
  \<^verbatim>\<open>fresh\<close> is the content of memory from \<^verbatim>\<open>malloc\<close>, whose argument is computed in 32 bits.\<close>

function array_decode_loop :: "('s, 'e) xdrproc_t \<Rightarrow> nat \<Rightarrow> nat \<Rightarrow> 's xdr \<Rightarrow> 'e list \<Rightarrow> (bool \<times> 'e list \<times> 's xdr) option" where
  "array_decode_loop elem_proc sz i xs arr =
     (if i < length arr then do {
        (ok, e, xs) \<leftarrow> elem_proc xs (arr ! i);
        let arr = arr[i := e];
        if \<not> ok then Some (False, arr, xs)
        else if i = sz then Some (True, arr, xs)
        else array_decode_loop elem_proc sz (i + 1) xs arr
      }
      else None)"
  by pat_completeness auto
termination by (relation "measure (\<lambda>(_, _, i, _, arr). length arr - i)") auto

function array_encode_loop :: "('s, 'e) xdrproc_t \<Rightarrow> nat \<Rightarrow> nat \<Rightarrow> 's xdr \<Rightarrow> 'e list \<Rightarrow> (nat \<times> 'e list \<times> 's xdr) option" where
  "array_encode_loop elem_proc sz i xs arr =
     (if i < sz then
        (if i < length arr then do {
           (ok, e, xs) \<leftarrow> elem_proc xs (arr ! i);
           let arr = arr[i := e];
           if ok then array_encode_loop elem_proc sz (i + 1) xs arr else Some (i, arr, xs)
         }
         else None)
      else Some (i, arr, xs))"
  by pat_completeness auto
termination by (relation "measure (\<lambda>(_, sz, i, _). sz - i)") auto

declare array_decode_loop.simps [simp del] array_encode_loop.simps [simp del]

definition xdr_array :: "(nat \<Rightarrow> bool) \<Rightarrow> 'e \<Rightarrow> u32 \<Rightarrow> u32 \<Rightarrow> ('s, 'e) xdrproc_t \<Rightarrow> ('s, 'e list option \<times> u32) xdrproc_t" where
  "xdr_array malloc fresh maxsize elem_size elem_proc xs = (\<lambda>(parr, psize). if elem_size = 0 then None else do {
     s \<leftarrow> xdr_getpos xs;
     case oper xs of
       XDR_DECODE \<Rightarrow> do {
         (ok, sz, xs) \<leftarrow> xdr_u_int xs 0;
         if \<not> ok \<or> sz > maxsize then XDR_RESTORE s xs (parr, psize)
         else if sz = 0 then Some (True, (parr, psize), xs)
         else case parr of
           None \<Rightarrow>
             if \<not> malloc (unat (sz * elem_size)) then XDR_RESTORE s xs (parr, psize)
             else do {
               (ok, arr, xs) \<leftarrow> array_decode_loop elem_proc (unat sz) 0 xs (replicate (unat (sz * elem_size) div unat elem_size) fresh);
               if ok then Some (True, (Some arr, sz), xs) else XDR_RESTORE s xs (None, psize)
             }
         | Some arr \<Rightarrow> do {
             (ok, arr, xs) \<leftarrow> array_decode_loop elem_proc (unat sz) 0 xs arr;
             if ok then Some (True, (Some arr, sz), xs) else XDR_RESTORE s xs (Some arr, psize)
           }
       }
     | XDR_ENCODE \<Rightarrow>
         if psize \<le> maxsize then do {
           (ok, _, xs) \<leftarrow> xdr_u_int xs psize;
           if ok then do {
             (i, arr, xs) \<leftarrow> array_encode_loop elem_proc (unat psize) 0 xs (case parr of None \<Rightarrow> [] | Some arr \<Rightarrow> arr);
             if i = unat psize then Some (True, (map_option (\<lambda>_. arr) parr, psize), xs)
             else XDR_RESTORE s xs (map_option (\<lambda>_. arr) parr, psize)
           }
           else XDR_RESTORE s xs (parr, psize)
         }
         else XDR_RESTORE s xs (parr, psize)
     | XDR_FREE \<Rightarrow> Some (True, (None, psize), xs)
   })"

text \<open>Bytes and padding of \<^verbatim>\<open>xdr_bytes\<close>, \<^verbatim>\<open>xdr_opaque\<close> and \<^verbatim>\<open>xdr_string\<close>, in the order of the two calls.\<close>

definition get_aligned :: "nat \<Rightarrow> ('s, u8 list) xdrproc_t" where
  "get_aligned sz xs pc = do {
     (ok, pc, xs) \<leftarrow> xdr_getbytes sz xs pc;
     if ok then do { (ok, xs) \<leftarrow> xdr_align sz xs; Some (ok, pc, xs) } else Some (False, pc, xs)
   }"

definition put_aligned :: "nat \<Rightarrow> ('s, u8 list) xdrproc_t" where
  "put_aligned sz xs pc = do {
     (ok, pc, xs) \<leftarrow> xdr_putbytes sz xs pc;
     if ok then do { (ok, xs) \<leftarrow> xdr_align sz xs; Some (ok, pc, xs) } else Some (False, pc, xs)
   }"

definition xdr_bytes :: "(nat \<Rightarrow> bool) \<Rightarrow> u32 \<Rightarrow> ('s, u8 list option \<times> u32) xdrproc_t" where
  "xdr_bytes malloc maxsize xs = (\<lambda>(ppc, psize). do {
     s \<leftarrow> xdr_getpos xs;
     case oper xs of
       XDR_DECODE \<Rightarrow> do {
         (ok, sz, xs) \<leftarrow> xdr_u_int xs 0;
         if \<not> ok \<or> sz > maxsize then XDR_RESTORE s xs (ppc, psize)
         else if sz = 0 then Some (True, (ppc, psize), xs)
         else case ppc of
           None \<Rightarrow>
             if \<not> malloc (unat sz) then XDR_RESTORE s xs (ppc, psize)
             else do {
               (ok, pc, xs) \<leftarrow> get_aligned (unat sz) xs (replicate (unat sz) 0);
               if ok then Some (True, (Some pc, sz), xs) else XDR_RESTORE s xs (None, psize)
             }
         | Some pc \<Rightarrow> do {
             (ok, pc, xs) \<leftarrow> get_aligned (unat sz) xs pc;
             if ok then Some (True, (Some pc, sz), xs) else XDR_RESTORE s xs (Some pc, psize)
           }
       }
     | XDR_ENCODE \<Rightarrow>
         if psize > maxsize then XDR_RESTORE s xs (ppc, psize)
         else do {
           (ok, _, xs) \<leftarrow> xdr_u_int xs psize;
           if ok then do {
             (ok, _, xs) \<leftarrow> put_aligned (unat psize) xs (case ppc of None \<Rightarrow> [] | Some pc \<Rightarrow> pc);
             if ok then Some (True, (ppc, psize), xs) else XDR_RESTORE s xs (ppc, psize)
           }
           else XDR_RESTORE s xs (ppc, psize)
         }
     | XDR_FREE \<Rightarrow> Some (True, (None, psize), xs)
   })"

definition xdr_opaque :: "nat \<Rightarrow> ('s, u8 list) xdrproc_t" where
  "xdr_opaque sz xs pc = do {
     s \<leftarrow> xdr_getpos xs;
     case oper xs of
       XDR_DECODE \<Rightarrow> do { (ok, pc, xs) \<leftarrow> get_aligned sz xs pc; if ok then Some (True, pc, xs) else XDR_RESTORE s xs pc }
     | XDR_ENCODE \<Rightarrow> do { (ok, pc, xs) \<leftarrow> put_aligned sz xs pc; if ok then Some (True, pc, xs) else XDR_RESTORE s xs pc }
     | XDR_FREE \<Rightarrow> Some (True, pc, xs)
   }"

text \<open>\<^verbatim>\<open>*pstr[size] = 0\<close> indexes the pointer \<^verbatim>\<open>pstr\<close> and not the string: it is the store at the start of the string for
  size 0 and an access outside the pointer object for every other size. A string is the list of its bytes
  with the terminator; \<^verbatim>\<open>strlen\<close> is undefined without one.\<close>

definition xdr_strlen :: "u8 list \<Rightarrow> nat option" where
  "xdr_strlen str = (if 0 \<in> set str then Some (length (takeWhile (\<lambda>c. c \<noteq> 0) str)) else None)"

definition xdr_terminate :: "nat \<Rightarrow> u8 list \<Rightarrow> u8 list option" where
  "xdr_terminate sz str = (if sz = 0 \<and> str \<noteq> [] then Some (str[0 := 0]) else None)"

definition xdr_string :: "(nat \<Rightarrow> bool) \<Rightarrow> u32 \<Rightarrow> ('s, u8 list option) xdrproc_t" where
  "xdr_string malloc maxsize xs pstr = do {
     s \<leftarrow> xdr_getpos xs;
     case oper xs of
       XDR_DECODE \<Rightarrow> do {
         (ok, sz, xs) \<leftarrow> xdr_u_int xs 0;
         if \<not> ok \<or> sz > maxsize then XDR_RESTORE s xs pstr
         else case pstr of
           None \<Rightarrow>
             if \<not> malloc (unat (sz + 1)) then XDR_RESTORE s xs pstr
             else do {
               str \<leftarrow> xdr_terminate (unat sz) (replicate (unat (sz + 1)) 0);
               (ok, str, xs) \<leftarrow> get_aligned (unat sz) xs str;
               if ok then Some (True, Some str, xs) else XDR_RESTORE s xs None
             }
         | Some str \<Rightarrow> do {
             str \<leftarrow> xdr_terminate (unat sz) str;
             (ok, str, xs) \<leftarrow> get_aligned (unat sz) xs str;
             if ok then Some (True, Some str, xs) else XDR_RESTORE s xs (Some str)
           }
       }
     | XDR_ENCODE \<Rightarrow> (case pstr of
           None \<Rightarrow> XDR_RESTORE s xs pstr
         | Some str \<Rightarrow> do {
             n \<leftarrow> xdr_strlen str;
             let sz = (of_nat n :: u32);
             if sz > maxsize then XDR_RESTORE s xs pstr
             else do {
               (ok, _, xs) \<leftarrow> xdr_u_int xs sz;
               if ok then do {
                 (ok, _, xs) \<leftarrow> put_aligned (unat sz) xs str;
                 if ok then Some (True, pstr, xs) else XDR_RESTORE s xs pstr
               }
               else XDR_RESTORE s xs pstr
             }
           })
     | XDR_FREE \<Rightarrow> Some (True, None, xs)
   }"

definition xdr_wrapstring :: "(nat \<Rightarrow> bool) \<Rightarrow> ('s, u8 list option) xdrproc_t" where
  "xdr_wrapstring malloc xs pstr = xdr_string malloc XDR_LAST_UINT32 xs pstr"

section \<open>Unions\<close>

text \<open>The table of choices ends before its null entry. The default is tried when the discriminant is unknown, but also when
  it could not be read and when the chosen arm failed.\<close>

fun union_choice :: "(u32 \<times> ('s, 'v) xdrproc_t) list \<Rightarrow> u32 \<Rightarrow> ('s, 'v) xdrproc_t option" where
  "union_choice [] d = None"
| "union_choice ((v, proc) # choices) d = (if v = d then Some proc else union_choice choices d)"

definition union_default :: "nat \<Rightarrow> ('s, 'v) xdrproc_t option \<Rightarrow> 's xdr \<Rightarrow> u32 \<Rightarrow> 'v \<Rightarrow> (bool \<times> (u32 \<times> 'v) \<times> 's xdr) option" where
  "union_default s dfault xs d u = (case dfault of
       None \<Rightarrow> XDR_RESTORE s xs (d, u)
     | Some proc \<Rightarrow> do {
         (ok, u, xs) \<leftarrow> proc xs u;
         if ok then Some (True, (d, u), xs) else XDR_RESTORE s xs (d, u)
       })"

definition xdr_union :: "(u32 \<times> ('s, 'v) xdrproc_t) list \<Rightarrow> ('s, 'v) xdrproc_t option \<Rightarrow> ('s, u32 \<times> 'v) xdrproc_t" where
  "xdr_union choices dfault xs = (\<lambda>(pdscm, pun). do {
     s \<leftarrow> xdr_getpos xs;
     (ok, d, xs) \<leftarrow> xdr_enum xs pdscm;
     if ok then (case union_choice choices d of
         Some proc \<Rightarrow> do {
           (ok, u, xs) \<leftarrow> proc xs pun;
           if ok then Some (True, (d, u), xs) else union_default s dfault xs d u
         }
       | None \<Rightarrow> union_default s dfault xs d pun)
     else union_default s dfault xs d pun
   })"

text \<open>\<^verbatim>\<open>xdr_free\<close> runs a filter on a stream of which only the operation is set.\<close>

definition xdr_free :: "'s \<Rightarrow> ('s, 'v) xdrproc_t \<Rightarrow> 'v \<Rightarrow> 'v option" where
  "xdr_free garbage proc obj = do {
     (_, obj, _) \<leftarrow> proc \<lparr>oper = XDR_FREE, ops = None, extra = garbage\<rparr> obj;
     Some obj
   }"

definition xdr_void :: bool where "xdr_void = True"

end
