(* ===== verification/Xdr_Stream.thy ===== *)
theory Xdr_Stream
  imports Xdr
begin

text \<open>
  What the filters promise on any stream: the wire format of each type, and two contracts of the operations of a stream
  under which the filters are right. Under \<^verbatim>\<open>xdr_stream\<close> a filter encodes to the wire format
  and decodes it back; under \<^verbatim>\<open>xdr_seekable\<close> a filter that fails leaves the position where it was.
\<close>

section \<open>Wire formats\<close>

definition be32 :: "u32 \<Rightarrow> u8 list" where
  "be32 w = [ucast (drop_bit 24 w), ucast (drop_bit 16 w), ucast (drop_bit 8 w), ucast w]"

definition xdr_pad :: "nat \<Rightarrow> u8 list" where
  "xdr_pad n = replicate ((4 - n mod 4) mod 4) 0"

definition wire_hyper :: "u64 \<Rightarrow> u8 list" where
  "wire_hyper w = be32 (ucast (drop_bit 32 w)) @ be32 (ucast w)"

definition wire_opaque :: "u8 list \<Rightarrow> u8 list" where
  "wire_opaque bs = bs @ xdr_pad (length bs)"

definition wire_bytes :: "u8 list \<Rightarrow> u8 list" where
  "wire_bytes bs = be32 (of_nat (length bs)) @ wire_opaque bs"

lemma be32_length [simp]: "length (be32 w) = 4"
  by (simp add: be32_def)

lemma wire_aligned: "length (wire_opaque bs) mod 4 = 0 \<and> length (wire_bytes bs) mod 4 = 0"
proof -
  have "(n + (4 - n mod 4) mod 4) mod 4 = (0::nat)" for n
  proof -
    have "(n mod 4 + (4 - n mod 4) mod 4) mod 4 = 0" by (cases "n mod 4 = 0") simp_all
    then show ?thesis by (metis mod_add_left_eq)
  qed
  then show ?thesis by (simp add: wire_bytes_def wire_opaque_def xdr_pad_def)
qed

lemma hyper_halves: "push_bit 32 (ucast (ucast (drop_bit 32 w) :: u32)) OR ucast (ucast w :: u32) = (w :: u64)"
  by (rule bit_word_eqI) (auto simp: bit_simps)

lemma short_roundtrip: "ucast (scast (v :: u16) :: u32) = v"
  by (rule bit_word_eqI) (simp add: bit_simps)

lemma ushort_roundtrip: "ucast (ucast (v :: u16) :: u32) = v"
  by (rule bit_word_eqI) (simp add: bit_simps)

lemma xdr_enum_eq: "xdr_enum = xdr_int" and xdr_bool_eq: "xdr_bool = xdr_enum" and xdr_hyper_eq: "xdr_hyper = xdr_u_hyper"
  by (intro ext, simp add: xdr_enum_def xdr_bool_def xdr_hyper_def)+

section \<open>Streams that carry bytes\<close>

locale xdr_stream =
  fixes sops :: "'s xdr_ops" and good :: "'s \<Rightarrow> bool" and out :: "'s \<Rightarrow> u8 list" and inp :: "'s \<Rightarrow> u8 list" and room :: "'s \<Rightarrow> nat"
  assumes getunit_law: "good s \<Longrightarrow> inp s = be32 w @ r \<Longrightarrow> \<exists>s'. op_getunit sops s = Some (Some w, s') \<and> good s' \<and> inp s' = r"
    and getbytes_law: "good s \<Longrightarrow> inp s = bs @ r \<Longrightarrow> \<exists>s'. op_getbytes sops s (length bs) = Some (Some bs, s') \<and> good s' \<and> inp s' = r"
    and putunit_law: "good s \<Longrightarrow> 4 \<le> room s \<Longrightarrow>
      \<exists>s'. op_putunit sops s w = Some (True, s') \<and> good s' \<and> out s' = out s @ be32 w \<and> room s' = room s - 4"
    and putbytes_law: "good s \<Longrightarrow> length bs \<le> room s \<Longrightarrow>
      \<exists>s'. op_putbytes sops s bs = Some (True, s') \<and> good s' \<and> out s' = out s @ bs \<and> room s' = room s - length bs"
begin

definition enc :: "'s xdr \<Rightarrow> bool" where
  "enc xs \<longleftrightarrow> oper xs = XDR_ENCODE \<and> ops xs = Some sops \<and> good (extra xs)"

definition dec :: "'s xdr \<Rightarrow> bool" where
  "dec xs \<longleftrightarrow> oper xs = XDR_DECODE \<and> ops xs = Some sops \<and> good (extra xs)"

definition encodes :: "('s, 'v) xdrproc_t \<Rightarrow> 'v \<Rightarrow> u8 list \<Rightarrow> bool" where
  "encodes f v bs \<longleftrightarrow> (\<forall>xs. enc xs \<longrightarrow> length bs \<le> room (extra xs) \<longrightarrow>
     (\<exists>xs'. f xs v = Some (True, v, xs') \<and> enc xs' \<and> out (extra xs') = out (extra xs) @ bs \<and> room (extra xs') = room (extra xs) - length bs))"

definition decodes :: "('s, 'v) xdrproc_t \<Rightarrow> 'v \<Rightarrow> 'v \<Rightarrow> u8 list \<Rightarrow> bool" where
  "decodes f v0 v bs \<longleftrightarrow> (\<forall>xs r. dec xs \<longrightarrow> inp (extra xs) = bs @ r \<longrightarrow>
     (\<exists>xs'. f xs v0 = Some (True, v, xs') \<and> dec xs' \<and> inp (extra xs') = r))"

lemma encodesI:
  "(\<And>xs. enc xs \<Longrightarrow> length bs \<le> room (extra xs) \<Longrightarrow>
     \<exists>xs'. f xs v = Some (True, v, xs') \<and> enc xs' \<and> out (extra xs') = out (extra xs) @ bs \<and> room (extra xs') = room (extra xs) - length bs)
   \<Longrightarrow> encodes f v bs"
  unfolding encodes_def by blast

lemma encodesE:
  assumes "encodes f v bs" "enc xs" "length bs \<le> room (extra xs)"
  obtains xs' where "f xs v = Some (True, v, xs')" "enc xs'" "out (extra xs') = out (extra xs) @ bs" "room (extra xs') = room (extra xs) - length bs"
  using assms unfolding encodes_def by blast

lemma decodesI:
  "(\<And>xs r. dec xs \<Longrightarrow> inp (extra xs) = bs @ r \<Longrightarrow> \<exists>xs'. f xs v0 = Some (True, v, xs') \<and> dec xs' \<and> inp (extra xs') = r) \<Longrightarrow> decodes f v0 v bs"
  unfolding decodes_def by blast

lemma decodesE:
  assumes "decodes f v0 v bs" "dec xs" "inp (extra xs) = bs @ r"
  obtains xs' where "f xs v0 = Some (True, v, xs')" "dec xs'" "inp (extra xs') = r"
  using assms unfolding decodes_def by blast

lemma encD: "enc xs \<Longrightarrow> oper xs = XDR_ENCODE" "enc xs \<Longrightarrow> ops xs = Some sops"
  by (simp_all add: enc_def)

lemma decD: "dec xs \<Longrightarrow> oper xs = XDR_DECODE" "dec xs \<Longrightarrow> ops xs = Some sops"
  by (simp_all add: dec_def)

subsection \<open>The operations\<close>

lemma encodes_unit: "encodes xdr_putunit w (be32 w)"
proof (rule encodesI)
  fix xs assume e: "enc xs" and r: "length (be32 w) \<le> room (extra xs)"
  then obtain s' where "op_putunit sops (extra xs) w = Some (True, s')" "good s'" "out s' = out (extra xs) @ be32 w" "room s' = room (extra xs) - 4"
    using putunit_law [of "extra xs" w] by (auto simp: enc_def)
  then show "\<exists>xs'. xdr_putunit xs w = Some (True, w, xs') \<and> enc xs' \<and> out (extra xs') = out (extra xs) @ be32 w \<and> room (extra xs') = room (extra xs) - length (be32 w)"
    using e by (simp add: xdr_putunit_def enc_def)
qed

lemma decodes_unit: "decodes xdr_getunit w0 w (be32 w)"
proof (rule decodesI)
  fix xs r assume d: "dec xs" and i: "inp (extra xs) = be32 w @ r"
  then obtain s' where "op_getunit sops (extra xs) = Some (Some w, s')" "good s'" "inp s' = r"
    using getunit_law [of "extra xs" w r] by (auto simp: dec_def)
  then show "\<exists>xs'. xdr_getunit xs w0 = Some (True, w, xs') \<and> dec xs' \<and> inp (extra xs') = r"
    using d by (simp add: xdr_getunit_def dec_def)
qed

lemma encodes_bytes: "n \<le> length from \<Longrightarrow> bs = take n from \<Longrightarrow> encodes (xdr_putbytes n) from bs"
proof (rule encodesI)
  fix xs assume n: "n \<le> length from" "bs = take n from" and e: "enc xs" and r: "length bs \<le> room (extra xs)"
  then obtain s' where "op_putbytes sops (extra xs) bs = Some (True, s')" "good s'" "out s' = out (extra xs) @ bs" "room s' = room (extra xs) - length bs"
    using putbytes_law [of "extra xs" bs] by (auto simp: enc_def)
  then show "\<exists>xs'. xdr_putbytes n xs from = Some (True, from, xs') \<and> enc xs' \<and> out (extra xs') = out (extra xs) @ bs \<and> room (extra xs') = room (extra xs) - length bs"
    using e n by (simp add: xdr_putbytes_def enc_def)
qed

lemma decodes_bytes: "n = length bs \<Longrightarrow> n \<le> length to \<Longrightarrow> decodes (xdr_getbytes n) to (bs @ drop n to) bs"
proof (rule decodesI)
  fix xs r assume n: "n = length bs" "n \<le> length to" and d: "dec xs" and i: "inp (extra xs) = bs @ r"
  then obtain s' where "op_getbytes sops (extra xs) n = Some (Some bs, s')" "good s'" "inp s' = r"
    using getbytes_law [of "extra xs" bs r] by (auto simp: dec_def)
  then show "\<exists>xs'. xdr_getbytes n xs to = Some (True, bs @ drop n to, xs') \<and> dec xs' \<and> inp (extra xs') = r"
    using d n by (simp add: xdr_getbytes_def dec_def)
qed

lemma align_encodes:
  assumes "enc xs" "length (xdr_pad n) \<le> room (extra xs)"
  shows "\<exists>xs'. xdr_align n xs = Some (True, xs') \<and> enc xs' \<and> out (extra xs') = out (extra xs) @ xdr_pad n \<and> room (extra xs') = room (extra xs) - length (xdr_pad n)"
proof -
  have b: "encodes (xdr_putbytes (length (xdr_pad n))) (xdr_pad n) (xdr_pad n)" by (rule encodes_bytes) simp_all
  obtain xs' where "xdr_putbytes (length (xdr_pad n)) xs (xdr_pad n) = Some (True, xdr_pad n, xs')" "enc xs'"
    "out (extra xs') = out (extra xs) @ xdr_pad n" "room (extra xs') = room (extra xs) - length (xdr_pad n)"
    by (rule encodesE [OF b assms])
  then show ?thesis using encD(1) [OF assms(1)] by (simp add: xdr_align_def BYTES_PER_XDR_UNIT_def xdr_pad_def Let_def)
qed

lemma align_decodes:
  assumes "dec xs" "inp (extra xs) = xdr_pad n @ r"
  shows "\<exists>xs'. xdr_align n xs = Some (True, xs') \<and> dec xs' \<and> inp (extra xs') = r"
proof -
  have "length (xdr_pad n) \<le> length (replicate 4 (0 :: u8))" by (simp add: xdr_pad_def)
  from decodesE [OF decodes_bytes [OF refl this] assms]
  obtain xs' where "xdr_getbytes (length (xdr_pad n)) xs (replicate 4 0) = Some (True, xdr_pad n @ drop (length (xdr_pad n)) (replicate 4 0), xs')" "dec xs'" "inp (extra xs') = r"
    by blast
  then show ?thesis using decD(1) [OF assms(1)] by (simp add: xdr_align_def BYTES_PER_XDR_UNIT_def xdr_pad_def Let_def)
qed

lemma encodes_aligned: "n \<le> length from \<Longrightarrow> bs = take n from \<Longrightarrow> encodes (put_aligned n) from (wire_opaque bs)"
proof (rule encodesI)
  fix xs assume n: "n \<le> length from" "bs = take n from" and e: "enc xs" and r: "length (wire_opaque bs) \<le> room (extra xs)"
  then have "length bs \<le> room (extra xs)" by (simp add: wire_opaque_def)
  then obtain xs1 where 1: "xdr_putbytes n xs from = Some (True, from, xs1)" "enc xs1" "out (extra xs1) = out (extra xs) @ bs" "room (extra xs1) = room (extra xs) - length bs"
    by (rule encodesE [OF encodes_bytes [OF n] e])
  have l: "length bs = n" using n by simp
  then have "length (xdr_pad n) \<le> room (extra xs1)" using r 1(4) by (simp add: wire_opaque_def)
  from align_encodes [OF 1(2) this] 1
  show "\<exists>xs'. put_aligned n xs from = Some (True, from, xs') \<and> enc xs' \<and> out (extra xs') = out (extra xs) @ wire_opaque bs \<and> room (extra xs') = room (extra xs) - length (wire_opaque bs)"
    using l by (auto simp: put_aligned_def wire_opaque_def)
qed

lemma decodes_aligned: "n = length bs \<Longrightarrow> n \<le> length to \<Longrightarrow> decodes (get_aligned n) to (bs @ drop n to) (wire_opaque bs)"
proof (rule decodesI)
  fix xs r assume n: "n = length bs" "n \<le> length to" and d: "dec xs" and i: "inp (extra xs) = wire_opaque bs @ r"
  then have "inp (extra xs) = bs @ xdr_pad n @ r" by (simp add: wire_opaque_def)
  then obtain xs1 where 1: "xdr_getbytes n xs to = Some (True, bs @ drop n to, xs1)" "dec xs1" "inp (extra xs1) = xdr_pad n @ r"
    by (rule decodesE [OF decodes_bytes [OF n] d])
  from align_decodes [OF 1(2,3)] 1 show "\<exists>xs'. get_aligned n xs to = Some (True, bs @ drop n to, xs') \<and> dec xs' \<and> inp (extra xs') = r"
    by (auto simp: get_aligned_def)
qed

subsection \<open>The filters\<close>

lemma encodes_cong: "encodes f v bs \<Longrightarrow> (\<And>xs. enc xs \<Longrightarrow> g xs v = f xs v) \<Longrightarrow> encodes g v bs"
  unfolding encodes_def by simp

lemma decodes_cong: "decodes f v0 v bs \<Longrightarrow> (\<And>xs. dec xs \<Longrightarrow> g xs v0 = f xs v0) \<Longrightarrow> decodes g v0 v bs"
  unfolding decodes_def by simp

lemma u_int_codec: "encodes xdr_u_int w (be32 w)" "decodes xdr_u_int w0 w (be32 w)"
  by (rule encodes_cong [OF encodes_unit], simp add: xdr_u_int_def encD)
    (rule decodes_cong [OF decodes_unit], simp add: xdr_u_int_def decD)

lemma int_codec: "encodes xdr_int w (be32 w)" "decodes xdr_int w0 w (be32 w)"
  by (rule encodes_cong [OF encodes_unit], simp add: xdr_int_def encD)
    (rule decodes_cong [OF decodes_unit], simp add: xdr_int_def decD)

lemma enum_codec: "encodes xdr_enum w (be32 w)" "decodes xdr_enum w0 w (be32 w)"
  by (simp_all add: xdr_enum_eq int_codec)

lemma bool_codec: "encodes xdr_bool w (be32 w)" "decodes xdr_bool w0 w (be32 w)"
  by (simp_all add: xdr_bool_eq enum_codec)

lemma short_codec: "encodes xdr_short v (be32 (scast v))" "decodes xdr_short v0 v (be32 (scast v))"
proof -
  show "encodes xdr_short v (be32 (scast v))"
    using int_codec(1) [of "scast v"] unfolding encodes_def xdr_short_def by (fastforce simp: short_roundtrip)
  show "decodes xdr_short v0 v (be32 (scast v))"
    using int_codec(2) [of "scast v0" "scast v"] unfolding decodes_def xdr_short_def by (fastforce simp: short_roundtrip)
qed

lemma u_short_codec: "encodes xdr_u_short v (be32 (ucast v))" "decodes xdr_u_short v0 v (be32 (ucast v))"
proof -
  show "encodes xdr_u_short v (be32 (ucast v))"
    using u_int_codec(1) [of "ucast v"] unfolding encodes_def xdr_u_short_def by (fastforce simp: ushort_roundtrip)
  show "decodes xdr_u_short v0 v (be32 (ucast v))"
    using u_int_codec(2) [of "ucast v0" "ucast v"] unfolding decodes_def xdr_u_short_def by (fastforce simp: ushort_roundtrip)
qed

lemma encodes_hyper: "encodes xdr_u_hyper v (wire_hyper v)"
proof (rule encodesI)
  fix xs assume e: "enc xs" and r: "length (wire_hyper v) \<le> room (extra xs)"
  let ?h = "ucast (drop_bit 32 v) :: u32" and ?l = "ucast v :: u32"
  have "length (be32 ?h) \<le> room (extra xs)" using r by (simp add: wire_hyper_def)
  then obtain xs1 where 1: "xdr_putunit xs ?h = Some (True, ?h, xs1)" "enc xs1" "out (extra xs1) = out (extra xs) @ be32 ?h" "room (extra xs1) = room (extra xs) - length (be32 ?h)"
    by (rule encodesE [OF encodes_unit e])
  then have "length (be32 ?l) \<le> room (extra xs1)" using r by (simp add: wire_hyper_def)
  then obtain xs2 where 2: "xdr_putunit xs1 ?l = Some (True, ?l, xs2)" "enc xs2" "out (extra xs2) = out (extra xs1) @ be32 ?l" "room (extra xs2) = room (extra xs1) - length (be32 ?l)"
    by (rule encodesE [OF encodes_unit 1(2)])
  show "\<exists>xs'. xdr_u_hyper xs v = Some (True, v, xs') \<and> enc xs' \<and> out (extra xs') = out (extra xs) @ wire_hyper v \<and> room (extra xs') = room (extra xs) - length (wire_hyper v)"
    using 1 2 encD [OF e] by (simp add: xdr_u_hyper_def xdr_getpos_def wire_hyper_def)
qed

lemma decodes_hyper: "decodes xdr_u_hyper v0 v (wire_hyper v)"
proof (rule decodesI)
  fix xs r assume d: "dec xs" and i: "inp (extra xs) = wire_hyper v @ r"
  let ?h = "ucast (drop_bit 32 v) :: u32" and ?l = "ucast v :: u32"
  have "inp (extra xs) = be32 ?h @ be32 ?l @ r" using i by (simp add: wire_hyper_def)
  then obtain xs1 where 1: "xdr_getunit xs 0 = Some (True, ?h, xs1)" "dec xs1" "inp (extra xs1) = be32 ?l @ r"
    by (rule decodesE [OF decodes_unit d])
  obtain xs2 where 2: "xdr_getunit xs1 0 = Some (True, ?l, xs2)" "dec xs2" "inp (extra xs2) = r"
    by (rule decodesE [OF decodes_unit 1(2,3)])
  show "\<exists>xs'. xdr_u_hyper xs v0 = Some (True, v, xs') \<and> dec xs' \<and> inp (extra xs') = r"
    using 1 2 decD [OF d] by (simp add: xdr_u_hyper_def xdr_getpos_def hyper_halves)
qed

lemma hyper_codec: "encodes xdr_hyper v (wire_hyper v)" "decodes xdr_hyper v0 v (wire_hyper v)"
  by (simp_all add: xdr_hyper_eq encodes_hyper decodes_hyper)

lemma encodes_opaque: "n = length bs \<Longrightarrow> encodes (xdr_opaque n) bs (wire_opaque bs)"
proof (rule encodesI)
  fix xs assume n: "n = length bs" and e: "enc xs" and r: "length (wire_opaque bs) \<le> room (extra xs)"
  have b: "encodes (put_aligned n) bs (wire_opaque bs)" by (rule encodes_aligned) (simp_all add: n)
  obtain xs' where "put_aligned n xs bs = Some (True, bs, xs')" "enc xs'" "out (extra xs') = out (extra xs) @ wire_opaque bs"
    "room (extra xs') = room (extra xs) - length (wire_opaque bs)"
    by (rule encodesE [OF b e r])
  then show "\<exists>xs'. xdr_opaque n xs bs = Some (True, bs, xs') \<and> enc xs' \<and> out (extra xs') = out (extra xs) @ wire_opaque bs \<and> room (extra xs') = room (extra xs) - length (wire_opaque bs)"
    using encD [OF e] by (simp add: xdr_opaque_def xdr_getpos_def)
qed

lemma decodes_opaque: "n = length bs \<Longrightarrow> length to = n \<Longrightarrow> decodes (xdr_opaque n) to bs (wire_opaque bs)"
proof (rule decodesI)
  fix xs r assume n: "n = length bs" "length to = n" and d: "dec xs" and i: "inp (extra xs) = wire_opaque bs @ r"
  have b: "decodes (get_aligned n) to (bs @ drop n to) (wire_opaque bs)" by (rule decodes_aligned) (simp_all add: n)
  obtain xs' where "get_aligned n xs to = Some (True, bs @ drop n to, xs')" "dec xs'" "inp (extra xs') = r"
    by (rule decodesE [OF b d i])
  then show "\<exists>xs'. xdr_opaque n xs to = Some (True, bs, xs') \<and> dec xs' \<and> inp (extra xs') = r"
    using decD [OF d] n by (simp add: xdr_opaque_def xdr_getpos_def)
qed

text \<open>A length, then what it governs.\<close>

lemma encodes_u_int_then:
  assumes "enc xs" "length (be32 w @ bs) \<le> room (extra xs)" "encodes g v bs"
  obtains xs1 xs2 where "xdr_u_int xs w = Some (True, w, xs1)" "g xs1 v = Some (True, v, xs2)" "enc xs2"
    "out (extra xs2) = out (extra xs) @ be32 w @ bs" "room (extra xs2) = room (extra xs) - length (be32 w @ bs)"
proof -
  have "length (be32 w) \<le> room (extra xs)" using assms(2) by simp
  then obtain xs1 where 1: "xdr_u_int xs w = Some (True, w, xs1)" "enc xs1" "out (extra xs1) = out (extra xs) @ be32 w" "room (extra xs1) = room (extra xs) - length (be32 w)"
    by (rule encodesE [OF u_int_codec(1) assms(1)])
  then have "length bs \<le> room (extra xs1)" using assms(2) by simp
  then obtain xs2 where "g xs1 v = Some (True, v, xs2)" "enc xs2" "out (extra xs2) = out (extra xs1) @ bs" "room (extra xs2) = room (extra xs1) - length bs"
    by (rule encodesE [OF assms(3) 1(2)])
  then show thesis using that 1 by simp
qed

lemma decodes_u_int_then:
  assumes "dec xs" "inp (extra xs) = (be32 w @ bs) @ r" "decodes g v0 v bs"
  obtains xs1 xs2 where "xdr_u_int xs w0 = Some (True, w, xs1)" "g xs1 v0 = Some (True, v, xs2)" "dec xs2" "inp (extra xs2) = r"
proof -
  have "inp (extra xs) = be32 w @ bs @ r" using assms(2) by simp
  then obtain xs1 where 1: "xdr_u_int xs w0 = Some (True, w, xs1)" "dec xs1" "inp (extra xs1) = bs @ r"
    by (rule decodesE [OF u_int_codec(2) assms(1)])
  obtain xs2 where "g xs1 v0 = Some (True, v, xs2)" "dec xs2" "inp (extra xs2) = r" by (rule decodesE [OF assms(3) 1(2,3)])
  then show thesis using that 1 by blast
qed

lemma encodes_xdr_bytes:
  assumes n: "unat n = length bs" "n \<le> maxsize" and p: "ppc = Some bs \<or> ppc = None \<and> bs = []"
  shows "encodes (xdr_bytes malloc maxsize) (ppc, n) (wire_bytes bs)"
proof (rule encodesI)
  fix xs assume e: "enc xs" and r: "length (wire_bytes bs) \<le> room (extra xs)"
  have w: "wire_bytes bs = be32 n @ wire_opaque bs" by (simp add: wire_bytes_def n(1) [symmetric])
  have b: "encodes (put_aligned (unat n)) bs (wire_opaque bs)" by (rule encodes_aligned) (simp_all add: n)
  obtain xs1 xs2 where s: "xdr_u_int xs n = Some (True, n, xs1)" "put_aligned (unat n) xs1 bs = Some (True, bs, xs2)" "enc xs2"
    "out (extra xs2) = out (extra xs) @ be32 n @ wire_opaque bs" "room (extra xs2) = room (extra xs) - length (be32 n @ wire_opaque bs)"
    by (rule encodes_u_int_then [OF e r [unfolded w] b])
  have "xdr_bytes malloc maxsize xs (ppc, n) = Some (True, (ppc, n), xs2)"
    using s(1,2) encD [OF e] n p by (auto simp: xdr_bytes_def xdr_getpos_def)
  then show "\<exists>xs'. xdr_bytes malloc maxsize xs (ppc, n) = Some (True, (ppc, n), xs') \<and> enc xs' \<and> out (extra xs') = out (extra xs) @ wire_bytes bs \<and> room (extra xs') = room (extra xs) - length (wire_bytes bs)"
    using s by (simp add: w)
qed

text \<open>A non-empty byte string is decoded into fresh memory; an empty one leaves pointer and size as they were.\<close>

lemma decodes_xdr_bytes:
  assumes n: "unat n = length bs" "n \<le> maxsize" "bs \<noteq> []" "malloc (unat n)"
  shows "decodes (xdr_bytes malloc maxsize) (None, n0) (Some bs, n) (wire_bytes bs)"
proof (rule decodesI)
  fix xs r assume d: "dec xs" and i: "inp (extra xs) = wire_bytes bs @ r"
  have w: "wire_bytes bs = be32 n @ wire_opaque bs" by (simp add: wire_bytes_def n(1) [symmetric])
  have "decodes (get_aligned (unat n)) (replicate (unat n) 0) bs (wire_opaque bs)"
    using decodes_aligned [OF n(1), of "replicate (unat n) 0"] by simp
  then obtain xs1 xs2 where s: "xdr_u_int xs 0 = Some (True, n, xs1)" "get_aligned (unat n) xs1 (replicate (unat n) 0) = Some (True, bs, xs2)" "dec xs2" "inp (extra xs2) = r"
    by (rule decodes_u_int_then [OF d i [unfolded w]])
  have "n \<noteq> 0" using n by auto
  then have "xdr_bytes malloc maxsize xs (None, n0) = Some (True, (Some bs, n), xs2)"
    using s(1,2) decD [OF d] n by (auto simp: xdr_bytes_def xdr_getpos_def)
  then show "\<exists>xs'. xdr_bytes malloc maxsize xs (None, n0) = Some (True, (Some bs, n), xs') \<and> dec xs' \<and> inp (extra xs') = r"
    using s by blast
qed

lemma decodes_xdr_bytes_empty: "decodes (xdr_bytes malloc maxsize) (ppc, n0) (ppc, n0) (wire_bytes [])"
proof (rule decodesI)
  fix xs r assume d: "dec xs" and i: "inp (extra xs) = wire_bytes [] @ r"
  have "inp (extra xs) = be32 0 @ r" using i by (simp add: wire_bytes_def wire_opaque_def xdr_pad_def)
  then obtain xs1 where "xdr_u_int xs 0 = Some (True, 0, xs1)" "dec xs1" "inp (extra xs1) = r" by (rule decodesE [OF u_int_codec(2) d])
  then show "\<exists>xs'. xdr_bytes malloc maxsize xs (ppc, n0) = Some (True, (ppc, n0), xs') \<and> dec xs' \<and> inp (extra xs') = r"
    using decD [OF d] by (simp add: xdr_bytes_def xdr_getpos_def)
qed

lemma encodes_xdr_string:
  assumes "str = bs @ 0 # junk" "0 \<notin> set bs" "length bs < 2 ^ 32" "of_nat (length bs) \<le> maxsize"
  shows "encodes (xdr_string malloc maxsize) (Some str) (wire_bytes bs)"
proof (rule encodesI)
  fix xs assume e: "enc xs" and r: "length (wire_bytes bs) \<le> room (extra xs)"
  let ?n = "of_nat (length bs) :: u32"
  have u: "unat ?n = length bs" using assms(3) by (simp add: unat_of_nat)
  have sl: "xdr_strlen str = Some (length bs)"
    using assms(1,2) by (simp add: xdr_strlen_def) (metis (mono_tags, lifting) takeWhile_append2 takeWhile.simps(2) append_Nil2)
  have "encodes (put_aligned (unat ?n)) str (wire_opaque bs)"
    using assms(1) u by (intro encodes_aligned) simp_all
  then obtain xs1 xs2 where s: "xdr_u_int xs ?n = Some (True, ?n, xs1)" "put_aligned (unat ?n) xs1 str = Some (True, str, xs2)" "enc xs2"
    "out (extra xs2) = out (extra xs) @ be32 ?n @ wire_opaque bs" "room (extra xs2) = room (extra xs) - length (be32 ?n @ wire_opaque bs)"
    by (rule encodes_u_int_then [OF e r [unfolded wire_bytes_def]])
  have "xdr_string malloc maxsize xs (Some str) = Some (True, Some str, xs2)"
    using s(1,2) encD [OF e] assms(4) sl u by (auto simp: xdr_string_def xdr_getpos_def Let_def)
  then show "\<exists>xs'. xdr_string malloc maxsize xs (Some str) = Some (True, Some str, xs') \<and> enc xs' \<and> out (extra xs') = out (extra xs) @ wire_bytes bs \<and> room (extra xs') = room (extra xs) - length (wire_bytes bs)"
    using s by (simp add: wire_bytes_def)
qed

lemma union_codec:
  assumes "union_choice choices d = Some proc"
  shows "encodes proc u bs \<Longrightarrow> encodes (xdr_union choices dfault) (d, u) (be32 d @ bs)"
    "decodes proc u0 u bs \<Longrightarrow> decodes (xdr_union choices dfault) (d0, u0) (d, u) (be32 d @ bs)"
proof -
  assume p: "encodes proc u bs"
  show "encodes (xdr_union choices dfault) (d, u) (be32 d @ bs)"
  proof (rule encodesI)
    fix xs assume e: "enc xs" and r: "length (be32 d @ bs) \<le> room (extra xs)"
    obtain xs1 xs2 where s: "xdr_u_int xs d = Some (True, d, xs1)" "proc xs1 u = Some (True, u, xs2)" "enc xs2"
      "out (extra xs2) = out (extra xs) @ be32 d @ bs" "room (extra xs2) = room (extra xs) - length (be32 d @ bs)"
      by (rule encodes_u_int_then [OF e r p])
    then show "\<exists>xs'. xdr_union choices dfault xs (d, u) = Some (True, (d, u), xs') \<and> enc xs' \<and> out (extra xs') = out (extra xs) @ be32 d @ bs \<and> room (extra xs') = room (extra xs) - length (be32 d @ bs)"
      using assms encD [OF e] by (simp add: xdr_union_def xdr_getpos_def xdr_enum_def xdr_int_def xdr_u_int_def)
  qed
next
  assume p: "decodes proc u0 u bs"
  show "decodes (xdr_union choices dfault) (d0, u0) (d, u) (be32 d @ bs)"
  proof (rule decodesI)
    fix xs r assume e: "dec xs" and i: "inp (extra xs) = (be32 d @ bs) @ r"
    obtain xs1 xs2 where s: "xdr_u_int xs d0 = Some (True, d, xs1)" "proc xs1 u0 = Some (True, u, xs2)" "dec xs2" "inp (extra xs2) = r"
      by (rule decodes_u_int_then [OF e i p])
    then show "\<exists>xs'. xdr_union choices dfault xs (d0, u0) = Some (True, (d, u), xs') \<and> dec xs' \<and> inp (extra xs') = r"
      using assms decD [OF e] by (simp add: xdr_union_def xdr_getpos_def xdr_enum_def xdr_int_def xdr_u_int_def)
  qed
qed

end

section \<open>Streams that can go back\<close>

text \<open>\<^verbatim>\<open>later s t\<close>: the stream \<^verbatim>\<open>t\<close> comes from \<^verbatim>\<open>s\<close> by moving forward.\<close>

locale xdr_seekable =
  fixes sops :: "'s xdr_ops" and wf :: "'s \<Rightarrow> bool" and later :: "'s \<Rightarrow> 's \<Rightarrow> bool"
  assumes later_refl: "wf s \<Longrightarrow> later s s"
    and later_trans: "later s t \<Longrightarrow> later t u \<Longrightarrow> later s u"
    and later_wf: "later s t \<Longrightarrow> wf t"
    and getunit_later: "wf s \<Longrightarrow> op_getunit sops s = Some (r, t) \<Longrightarrow> later s t \<and> (r = None \<longrightarrow> t = s)"
    and putunit_later: "wf s \<Longrightarrow> op_putunit sops s w = Some (ok, t) \<Longrightarrow> later s t \<and> (\<not> ok \<longrightarrow> t = s)"
    and getbytes_later: "wf s \<Longrightarrow> op_getbytes sops s n = Some (q, t) \<Longrightarrow> later s t \<and> (q = None \<longrightarrow> t = s)"
    and putbytes_later: "wf s \<Longrightarrow> op_putbytes sops s bs = Some (ok, t) \<Longrightarrow> later s t \<and> (\<not> ok \<longrightarrow> t = s)"
    and restore_law: "later s t \<Longrightarrow> \<exists>u. op_setpos sops t (op_getpos sops s) = (True, u) \<and> later s u \<and> op_getpos sops u = op_getpos sops s"
begin

definition on :: "'s xdr \<Rightarrow> bool" where
  "on xs \<longleftrightarrow> ops xs = Some sops \<and> wf (extra xs)"

definition step :: "'s xdr \<Rightarrow> 's xdr \<Rightarrow> bool" where
  "step xs xs' \<longleftrightarrow> on xs \<and> ops xs' = Some sops \<and> oper xs' = oper xs \<and> later (extra xs) (extra xs')"

text \<open>A filter that only moves forward, and one that also goes back when it fails.\<close>

definition moves :: "('s, 'v) xdrproc_t \<Rightarrow> bool" where
  "moves f \<longleftrightarrow> (\<forall>xs v ok v' xs'. on xs \<longrightarrow> f xs v = Some (ok, v', xs') \<longrightarrow> step xs xs')"

definition tidy :: "('s, 'v) xdrproc_t \<Rightarrow> bool" where
  "tidy f \<longleftrightarrow> (\<forall>xs v ok v' xs'. on xs \<longrightarrow> f xs v = Some (ok, v', xs') \<longrightarrow>
     step xs xs' \<and> (\<not> ok \<longrightarrow> op_getpos sops (extra xs') = op_getpos sops (extra xs)))"

lemma tidy_moves: "tidy f \<Longrightarrow> moves f"
  unfolding tidy_def moves_def by blast

lemma step_refl: "on xs \<Longrightarrow> step xs xs"
  by (simp add: step_def on_def later_refl)

lemma step_on: "step xs xs' \<Longrightarrow> on xs'"
  using later_wf by (auto simp: step_def on_def)

lemma step_trans: "step xs ys \<Longrightarrow> step ys zs \<Longrightarrow> step xs zs"
  using later_trans by (auto simp: step_def)

text \<open>The result of a filter that was entered with the stream \<^verbatim>\<open>xs\<close>.\<close>

definition leaves :: "'s xdr \<Rightarrow> (bool \<times> 'v \<times> 's xdr) option \<Rightarrow> bool" where
  "leaves xs res \<longleftrightarrow> (\<forall>ok v xs'. res = Some (ok, v, xs') \<longrightarrow> step xs xs' \<and> (\<not> ok \<longrightarrow> op_getpos sops (extra xs') = op_getpos sops (extra xs)))"

lemma tidyI: "(\<And>xs v. on xs \<Longrightarrow> leaves xs (f xs v)) \<Longrightarrow> tidy f"
  unfolding tidy_def leaves_def by blast

lemma leaves_None [simp]: "leaves xs None"
  by (simp add: leaves_def)

lemma leaves_ok: "step xs xs' \<Longrightarrow> leaves xs (Some (True, v, xs'))"
  by (simp add: leaves_def)

lemma leaves_restore: "step xs xs' \<Longrightarrow> leaves xs (XDR_RESTORE (op_getpos sops (extra xs)) xs' v)"
  using restore_law [of "extra xs" "extra xs'"] by (auto simp: leaves_def XDR_RESTORE_def xdr_setpos_def step_def)

lemma leaves_bind:
  assumes "moves f" "step xs ys" "\<And>ok w zs. step xs zs \<Longrightarrow> leaves xs (k (ok, w, zs))"
  shows "leaves xs (f ys v \<bind> k)"
proof (cases "f ys v")
  case (Some r)
  obtain ok w zs where r: "r = (ok, w, zs)" by (cases r)
  have "step ys zs" using assms(1) step_on [OF assms(2)] Some r unfolding moves_def by blast
  then show ?thesis using assms(3) step_trans [OF assms(2)] Some r by simp
qed simp

lemma getpos_on: "on xs \<Longrightarrow> xdr_getpos xs = Some (op_getpos sops (extra xs))"
  by (simp add: xdr_getpos_def on_def)

subsection \<open>Every filter goes back when it fails\<close>

lemma tidy_getunit: "tidy xdr_getunit"
  unfolding tidy_def using getunit_later by (fastforce simp: xdr_getunit_def on_def step_def bind_eq_Some_conv split: option.splits)

lemma tidy_putunit: "tidy xdr_putunit"
  unfolding tidy_def using putunit_later by (fastforce simp: xdr_putunit_def on_def step_def bind_eq_Some_conv)

lemma tidy_getbytes: "tidy (xdr_getbytes n)"
  unfolding tidy_def using getbytes_later
  by (fastforce simp: xdr_getbytes_def on_def step_def bind_eq_Some_conv split: option.splits if_splits)

lemma tidy_putbytes: "tidy (xdr_putbytes n)"
  unfolding tidy_def using putbytes_later by (fastforce simp: xdr_putbytes_def on_def step_def bind_eq_Some_conv split: if_splits)

lemmas op_moves = tidy_moves [OF tidy_getunit] tidy_moves [OF tidy_putunit] tidy_moves [OF tidy_getbytes] tidy_moves [OF tidy_putbytes]

lemma tidy_int: "tidy xdr_int" "tidy xdr_u_int"
  using tidy_getunit tidy_putunit step_refl unfolding tidy_def xdr_int_def xdr_u_int_def by (fastforce split: xdr_op.splits)+

lemma tidy_enum: "tidy xdr_enum" "tidy xdr_bool"
  by (simp_all add: xdr_enum_eq xdr_bool_eq tidy_int)

lemma tidy_short: "tidy xdr_short" "tidy xdr_u_short"
  using tidy_int unfolding tidy_def xdr_short_def xdr_u_short_def by (fastforce simp: bind_eq_Some_conv split: if_splits)+

lemma align_step: "on xs \<Longrightarrow> xdr_align n xs = Some (ok, xs') \<Longrightarrow> step xs xs'"
  using op_moves(3,4) unfolding moves_def xdr_align_def by (fastforce simp: Let_def bind_eq_Some_conv split: xdr_op.splits)

lemma moves_aligned: "moves (get_aligned n)" "moves (put_aligned n)"
proof -
  have 1: "step xs xs'" if a: "on xs" "get_aligned n xs v = Some (ok, v', xs')" for xs v ok v' xs'
  proof -
    obtain ok1 v1 xs1 where g: "xdr_getbytes n xs v = Some (ok1, v1, xs1)" using a(2) by (auto simp: get_aligned_def bind_eq_Some_conv)
    then have s: "step xs xs1" using op_moves(3) a(1) unfolding moves_def by blast
    then show ?thesis using a(2) g align_step [OF step_on [OF s]] step_trans [OF s] by (auto simp: get_aligned_def bind_eq_Some_conv split: if_splits)
  qed
  have 2: "step xs xs'" if a: "on xs" "put_aligned n xs v = Some (ok, v', xs')" for xs v ok v' xs'
  proof -
    obtain ok1 v1 xs1 where g: "xdr_putbytes n xs v = Some (ok1, v1, xs1)" using a(2) by (auto simp: put_aligned_def bind_eq_Some_conv)
    then have s: "step xs xs1" using op_moves(4) a(1) unfolding moves_def by blast
    then show ?thesis using a(2) g align_step [OF step_on [OF s]] step_trans [OF s] by (auto simp: put_aligned_def bind_eq_Some_conv split: if_splits)
  qed
  show "moves (get_aligned n)" "moves (put_aligned n)" using 1 2 unfolding moves_def by blast+
qed

lemmas leaves_intros = leaves_bind [OF op_moves(1)] leaves_bind [OF op_moves(2)] leaves_bind [OF tidy_moves [OF tidy_int(2)]]
  leaves_bind [OF tidy_moves [OF tidy_enum(1)]] leaves_bind [OF moves_aligned(1)] leaves_bind [OF moves_aligned(2)] leaves_ok leaves_restore

lemma tidy_hyper: "tidy xdr_u_hyper" "tidy xdr_hyper"
proof -
  show t: "tidy xdr_u_hyper"
    unfolding xdr_u_hyper_def by (rule tidyI) (auto simp: getpos_on split: xdr_op.split intro!: leaves_intros step_refl)
  show "tidy xdr_hyper" unfolding xdr_hyper_eq by (rule t)
qed

lemma tidy_opaque: "tidy (xdr_opaque n)"
  unfolding xdr_opaque_def by (rule tidyI) (auto simp: getpos_on split: xdr_op.split intro!: leaves_intros step_refl)

lemma tidy_bytes: "tidy (xdr_bytes malloc maxsize)"
  unfolding xdr_bytes_def
  by (rule tidyI) (auto simp: getpos_on split: xdr_op.split option.split intro!: leaves_intros step_refl)

lemma tidy_string: "tidy (xdr_string malloc maxsize)"
proof (rule tidyI)
  fix xs v assume o: "on xs"
  show "leaves xs (xdr_string malloc maxsize xs v)"
  proof (cases v)
    case None
    then show ?thesis using o unfolding xdr_string_def
      by (auto simp: getpos_on xdr_terminate_def split: xdr_op.split intro!: leaves_intros step_refl)
  next
    case (Some str)
    then show ?thesis using o unfolding xdr_string_def
      by (cases "xdr_strlen str") (auto simp: getpos_on xdr_terminate_def Let_def split: xdr_op.split intro!: leaves_intros step_refl)
  qed
qed

lemma leaves_default: "(\<And>proc. dfault = Some proc \<Longrightarrow> moves proc) \<Longrightarrow> step xs ys \<Longrightarrow> leaves xs (union_default (op_getpos sops (extra xs)) dfault ys d u)"
  unfolding union_default_def by (auto split: option.split intro!: leaves_intros leaves_bind)

lemma tidy_union:
  fixes choices :: "(u32 \<times> ('s, 'v) xdrproc_t) list"
  assumes "\<And>v proc. (v, proc) \<in> set choices \<Longrightarrow> moves proc" "\<And>proc. dfault = Some proc \<Longrightarrow> moves proc"
  shows "tidy (xdr_union choices dfault)"
proof (rule tidyI)
  fix xs and v :: "u32 \<times> 'v" assume o: "on xs"
  obtain d0 u0 where v: "v = (d0, u0)" by (cases v)
  have c: "moves proc" if "union_choice choices d = Some proc" for d proc
    using that assms(1) by (induction choices d rule: union_choice.induct) (auto split: if_splits)
  have k: "leaves xs (case union_choice choices d of Some proc \<Rightarrow> proc ys u0 \<bind> (\<lambda>(ok, u, zs). if ok then Some (True, (d, u), zs) else union_default (op_getpos sops (extra xs)) dfault zs d u)
      | None \<Rightarrow> union_default (op_getpos sops (extra xs)) dfault ys d u0)" if "step xs ys" for d ys
  proof (cases "union_choice choices d")
    case (Some proc)
    then show ?thesis using that by (auto intro!: leaves_bind [OF c [OF Some]] leaves_ok leaves_default assms(2))
  qed (use that in \<open>auto intro!: leaves_default assms(2)\<close>)
  show "leaves xs (xdr_union choices dfault xs v)"
    unfolding xdr_union_def v using o k
    by (auto simp: getpos_on intro!: leaves_bind [OF tidy_moves [OF tidy_enum(1)]] leaves_default assms(2) step_refl)
qed

lemma array_decode_step:
  "moves f \<Longrightarrow> on xs \<Longrightarrow> array_decode_loop f n i xs arr = Some (ok, arr', xs') \<Longrightarrow> step xs xs'"
proof (induction f n i xs arr rule: array_decode_loop.induct)
  case (1 f n i xs arr)
  obtain ok1 e xs1 where f: "i < length arr" "f xs (arr ! i) = Some (ok1, e, xs1)"
    using 1(4) by (auto simp: array_decode_loop.simps [of f n i] bind_eq_Some_conv split: if_splits)
  then have s: "step xs xs1" using 1(2,3) unfolding moves_def by blast
  have "ok1 \<and> i \<noteq> n \<longrightarrow> array_decode_loop f n (i + 1) xs1 (arr[i := e]) = Some (ok, arr', xs')" "\<not> ok1 \<or> i = n \<longrightarrow> xs' = xs1"
    using 1(4) f by (auto simp: array_decode_loop.simps [of f n i] Let_def split: if_splits)
  then show ?case using 1(1) [OF f(1,2) refl refl] 1(2) s step_on [OF s] step_trans [OF s] by (cases "ok1 \<and> i \<noteq> n") auto
qed

lemma array_encode_step:
  "moves f \<Longrightarrow> on xs \<Longrightarrow> array_encode_loop f n i xs arr = Some (j, arr', xs') \<Longrightarrow> step xs xs'"
proof (induction f n i xs arr rule: array_encode_loop.induct)
  case (1 f n i xs arr)
  show ?case
  proof (cases "i < n")
    case True
    obtain ok1 e xs1 where f: "i < length arr" "f xs (arr ! i) = Some (ok1, e, xs1)"
      using 1(4) True by (auto simp: array_encode_loop.simps [of f n i] bind_eq_Some_conv split: if_splits)
    then have s: "step xs xs1" using 1(2,3) unfolding moves_def by blast
    have "ok1 \<longrightarrow> array_encode_loop f n (i + 1) xs1 (arr[i := e]) = Some (j, arr', xs')" "\<not> ok1 \<longrightarrow> xs' = xs1"
      using 1(4) f True by (auto simp: array_encode_loop.simps [of f n i] Let_def split: if_splits)
    then show ?thesis using 1(1) [OF True f(1,2) refl refl] 1(2) s step_on [OF s] step_trans [OF s] by (cases ok1) auto
  qed (use 1(3,4) in \<open>simp add: array_encode_loop.simps [of f n i] step_refl\<close>)
qed

lemma tidy_array:
  fixes f :: "('s, 'e) xdrproc_t"
  assumes "moves f"
  shows "tidy (xdr_array malloc fresh maxsize elem_size f)"
proof (rule tidyI)
  fix xs and v :: "'e list option \<times> u32" assume o: "on xs"
  obtain parr psize where v: "v = (parr, psize)" by (cases v)
  have d1: "leaves xs (array_decode_loop f n 0 ys arr \<bind> (\<lambda>(ok, arr, zs). if ok then Some (True, (Some arr, w), zs) else XDR_RESTORE (op_getpos sops (extra xs)) zs (None, psize)))"
    if "step xs ys" for n ys arr w
    using array_decode_step [OF assms step_on [OF that]] step_trans [OF that]
    by (cases "array_decode_loop f n 0 ys arr") (auto intro!: leaves_ok leaves_restore)
  have d2: "leaves xs (array_decode_loop f n 0 ys arr \<bind> (\<lambda>(ok, arr, zs). if ok then Some (True, (Some arr, w), zs) else XDR_RESTORE (op_getpos sops (extra xs)) zs (Some arr, psize)))"
    if "step xs ys" for n ys arr w
    using array_decode_step [OF assms step_on [OF that]] step_trans [OF that]
    by (cases "array_decode_loop f n 0 ys arr") (auto intro!: leaves_ok leaves_restore)
  have e: "leaves xs (array_encode_loop f n 0 ys arr \<bind> (\<lambda>(i, arr, zs). if i = n then Some (True, (map_option (\<lambda>_. arr) p, psize), zs)
      else XDR_RESTORE (op_getpos sops (extra xs)) zs (map_option (\<lambda>_. arr) p, psize)))" if "step xs ys" for n ys arr and p :: "'e list option"
    using array_encode_step [OF assms step_on [OF that]] step_trans [OF that]
    by (cases "array_encode_loop f n 0 ys arr") (auto intro!: leaves_ok leaves_restore)
  show "leaves xs (xdr_array malloc fresh maxsize elem_size f xs v)"
    unfolding xdr_array_def v using o
    by (auto simp: getpos_on split: xdr_op.split option.split intro!: leaves_intros d1 d2 e step_refl)
qed

end

end
