(* ===== verification/Xdr_Mem.thy ===== *)
theory Xdr_Mem
  imports Xdr_Stream
begin

text \<open>
  The memory stream of \<^verbatim>\<open>net/lib/rpc/xdr_mem.c\<close>. The buffer is the list of its bytes, \<^verbatim>\<open>curr\<close> an offset into it. A unit is
  stored in network byte order, which is what \<^verbatim>\<open>htonl\<close> and the store of the machine give together.
\<close>

section \<open>Operations\<close>

record xdrmem =
  mem_buff :: "u8 list"
  mem_curr :: nat
  mem_left :: nat

definition encode_unit :: "u32 \<Rightarrow> u8 list" where
  "encode_unit u = be32 u"

definition decode_unit :: "u8 list \<Rightarrow> nat \<Rightarrow> u32" where
  "decode_unit buff i = push_bit 24 (ucast (buff ! i)) OR push_bit 16 (ucast (buff ! (i + 1))) OR push_bit 8 (ucast (buff ! (i + 2))) OR ucast (buff ! (i + 3))"

definition xdrmem_getunit :: "xdrmem \<Rightarrow> (u32 option \<times> xdrmem) option" where
  "xdrmem_getunit m =
     (if mem_left m < BYTES_PER_XDR_UNIT then Some (None, m)
      else Some (Some (decode_unit (mem_buff m) (mem_curr m)), m\<lparr>mem_left := mem_left m - BYTES_PER_XDR_UNIT, mem_curr := mem_curr m + BYTES_PER_XDR_UNIT\<rparr>))"

definition mem_store :: "u8 list \<Rightarrow> nat \<Rightarrow> u8 list \<Rightarrow> u8 list" where
  "mem_store buff i bs = take i buff @ bs @ drop (i + length bs) buff"

definition xdrmem_putunit :: "xdrmem \<Rightarrow> u32 \<Rightarrow> (bool \<times> xdrmem) option" where
  "xdrmem_putunit m from =
     (if mem_left m < BYTES_PER_XDR_UNIT then Some (False, m)
      else Some (True, m\<lparr>mem_buff := mem_store (mem_buff m) (mem_curr m) (encode_unit from),
                          mem_left := mem_left m - BYTES_PER_XDR_UNIT, mem_curr := mem_curr m + BYTES_PER_XDR_UNIT\<rparr>))"

definition xdrmem_getbytes :: "xdrmem \<Rightarrow> nat \<Rightarrow> (u8 list option \<times> xdrmem) option" where
  "xdrmem_getbytes m sz =
     (if mem_left m < sz then Some (None, m)
      else Some (Some (take sz (drop (mem_curr m) (mem_buff m))), m\<lparr>mem_left := mem_left m - sz, mem_curr := mem_curr m + sz\<rparr>))"

definition xdrmem_putbytes :: "xdrmem \<Rightarrow> u8 list \<Rightarrow> (bool \<times> xdrmem) option" where
  "xdrmem_putbytes m from =
     (if mem_left m < length from then Some (False, m)
      else Some (True, m\<lparr>mem_buff := mem_store (mem_buff m) (mem_curr m) from,
                          mem_left := mem_left m - length from, mem_curr := mem_curr m + length from\<rparr>))"

definition xdrmem_getpos :: "xdrmem \<Rightarrow> nat" where
  "xdrmem_getpos m = mem_curr m"

definition xdrmem_setpos :: "xdrmem \<Rightarrow> nat \<Rightarrow> bool \<times> xdrmem" where
  "xdrmem_setpos m pos =
     (if pos > mem_curr m + mem_left m then (False, m)
      else (True, m\<lparr>mem_left := mem_curr m + mem_left m - pos, mem_curr := pos\<rparr>))"

definition xdrmem_destroy :: "xdrmem \<Rightarrow> xdrmem" where
  "xdrmem_destroy m = m"

definition xdrmem_ops :: "xdrmem xdr_ops" where
  "xdrmem_ops = \<lparr>op_getunit = xdrmem_getunit, op_putunit = xdrmem_putunit, op_getbytes = xdrmem_getbytes, op_putbytes = xdrmem_putbytes,
     op_getpos = xdrmem_getpos, op_setpos = xdrmem_setpos, op_destroy = xdrmem_destroy\<rparr>"

text \<open>\<^verbatim>\<open>addr\<close> is the address of the buffer, whose alignment is asserted.\<close>

definition xdrmem_create :: "addr \<Rightarrow> u8 list \<Rightarrow> nat \<Rightarrow> xdr_op \<Rightarrow> xdrmem xdr option" where
  "xdrmem_create addr mem sz op =
     (if addr \<noteq> 0 \<and> addr mod 4 = 0
      then Some \<lparr>oper = op, ops = Some xdrmem_ops, extra = \<lparr>mem_buff = mem, mem_curr = 0, mem_left = sz\<rparr>\<rparr>
      else None)"

section \<open>The contracts\<close>

definition mem_ok :: "xdrmem \<Rightarrow> bool" where
  "mem_ok m \<longleftrightarrow> mem_curr m + mem_left m \<le> length (mem_buff m)"

definition mem_out :: "xdrmem \<Rightarrow> u8 list" where
  "mem_out m = take (mem_curr m) (mem_buff m)"

definition mem_inp :: "xdrmem \<Rightarrow> u8 list" where
  "mem_inp m = take (mem_left m) (drop (mem_curr m) (mem_buff m))"

text \<open>Forward in the same buffer, with what lies before the position and behind the end untouched.\<close>

definition mem_later :: "xdrmem \<Rightarrow> xdrmem \<Rightarrow> bool" where
  "mem_later m n \<longleftrightarrow> mem_ok m \<and> mem_ok n \<and> length (mem_buff n) = length (mem_buff m) \<and> mem_curr m \<le> mem_curr n
     \<and> mem_curr n + mem_left n = mem_curr m + mem_left m
     \<and> take (mem_curr m) (mem_buff n) = take (mem_curr m) (mem_buff m)
     \<and> drop (mem_curr m + mem_left m) (mem_buff n) = drop (mem_curr m + mem_left m) (mem_buff m)"

lemma xdr_decode_encode:
  assumes "drop i buff = be32 w @ r"
  shows "decode_unit buff i = w"
proof -
  have l: "i + 3 < length buff" using arg_cong [OF assms, of length] by (simp add: be32_def)
  have n: "buff ! (i + k) = (be32 w @ r) ! k" if "k \<le> 3" for k using l that by (subst assms [symmetric]) simp
  have "buff ! i = ucast (drop_bit 24 w)" "buff ! (i + 1) = ucast (drop_bit 16 w)" "buff ! (i + 2) = ucast (drop_bit 8 w)" "buff ! (i + 3) = ucast w"
    using n [of 0] n [of 1] n [of 2] n [of 3] by (simp_all add: be32_def)
  then have "decode_unit buff i = push_bit 24 (ucast (ucast (drop_bit 24 w) :: u8)) OR push_bit 16 (ucast (ucast (drop_bit 16 w) :: u8))
      OR push_bit 8 (ucast (ucast (drop_bit 8 w) :: u8)) OR ucast (ucast w :: u8)"
    by (simp only: decode_unit_def)
  also have "\<dots> = w"
  proof (rule bit_word_eqI)
    fix n assume "n < LENGTH(32)"
    then consider "n < 8" | "8 \<le> n" "n < 16" | "16 \<le> n" "n < 24" | "24 \<le> n" "n < 32" by fastforce
    then show "bit (push_bit 24 (ucast (ucast (drop_bit 24 w) :: u8)) OR push_bit 16 (ucast (ucast (drop_bit 16 w) :: u8))
      OR push_bit 8 (ucast (ucast (drop_bit 8 w) :: u8)) OR ucast (ucast w :: u8) :: u32) n = bit w n"
      by cases (auto simp: bit_simps)
  qed
  finally show ?thesis .
qed

lemma mem_store_length [simp]: "i + length bs \<le> length buff \<Longrightarrow> length (mem_store buff i bs) = length buff"
  by (simp add: mem_store_def)

lemma mem_store_take [simp]: "i + length bs \<le> length buff \<Longrightarrow> take (i + length bs) (mem_store buff i bs) = take i buff @ bs"
  by (simp add: mem_store_def)

lemma mem_store_before [simp]: "j \<le> i \<Longrightarrow> i + length bs \<le> length buff \<Longrightarrow> take j (mem_store buff i bs) = take j buff"
  by (simp add: mem_store_def min_def)

lemma mem_store_behind [simp]: "i + length bs \<le> j \<Longrightarrow> j \<le> length buff \<Longrightarrow> drop j (mem_store buff i bs) = drop j buff"
  by (simp add: mem_store_def)

interpretation mem: xdr_stream xdrmem_ops mem_ok mem_out mem_inp mem_left
proof unfold_locales
  fix s w r assume g: "mem_ok s" and i: "mem_inp s = be32 w @ r"
  have l: "4 \<le> mem_left s" using arg_cong [OF i, of length] by (simp add: mem_inp_def)
  have "drop (mem_curr s) (mem_buff s) = be32 w @ r @ drop (mem_left s) (drop (mem_curr s) (mem_buff s))"
    using i append_take_drop_id [of "mem_left s" "drop (mem_curr s) (mem_buff s)"] by (simp add: mem_inp_def)
  then have "decode_unit (mem_buff s) (mem_curr s) = w" by (rule xdr_decode_encode)
  moreover have "take (mem_left s - 4) (drop (mem_curr s + 4) (mem_buff s)) = r"
    using arg_cong [OF i, of "drop 4"] by (simp add: mem_inp_def drop_take add.commute)
  ultimately show "\<exists>s'. op_getunit xdrmem_ops s = Some (Some w, s') \<and> mem_ok s' \<and> mem_inp s' = r"
    using g l by (simp add: xdrmem_ops_def xdrmem_getunit_def BYTES_PER_XDR_UNIT_def mem_ok_def mem_inp_def)
next
  fix s bs r assume g: "mem_ok s" and i: "mem_inp s = bs @ r"
  have l: "length bs \<le> mem_left s" using arg_cong [OF i, of length] by (simp add: mem_inp_def)
  have "take (length bs) (drop (mem_curr s) (mem_buff s)) = bs" using arg_cong [OF i, of "take (length bs)"] l by (simp add: mem_inp_def min_def)
  moreover have "take (mem_left s - length bs) (drop (mem_curr s + length bs) (mem_buff s)) = r"
    using arg_cong [OF i, of "drop (length bs)"] by (simp add: mem_inp_def drop_take add.commute)
  ultimately show "\<exists>s'. op_getbytes xdrmem_ops s (length bs) = Some (Some bs, s') \<and> mem_ok s' \<and> mem_inp s' = r"
    using g l by (simp add: xdrmem_ops_def xdrmem_getbytes_def mem_ok_def mem_inp_def)
next
  fix s w assume "mem_ok s" "4 \<le> mem_left s"
  then show "\<exists>s'. op_putunit xdrmem_ops s w = Some (True, s') \<and> mem_ok s' \<and> mem_out s' = mem_out s @ be32 w \<and> mem_left s' = mem_left s - 4"
    using mem_store_take [of "mem_curr s" "be32 w" "mem_buff s"] mem_store_length [of "mem_curr s" "be32 w" "mem_buff s"]
    by (simp add: xdrmem_ops_def xdrmem_putunit_def BYTES_PER_XDR_UNIT_def mem_ok_def mem_out_def encode_unit_def)
next
  fix s and bs :: "u8 list" assume "mem_ok s" "length bs \<le> mem_left s"
  then show "\<exists>s'. op_putbytes xdrmem_ops s bs = Some (True, s') \<and> mem_ok s' \<and> mem_out s' = mem_out s @ bs \<and> mem_left s' = mem_left s - length bs"
    by (simp add: xdrmem_ops_def xdrmem_putbytes_def mem_ok_def mem_out_def)
qed

interpretation seek: xdr_seekable xdrmem_ops mem_ok mem_later
proof unfold_locales
  fix s t u assume a: "mem_later s t" "mem_later t u"
  have "take (mem_curr s) (mem_buff x) = take (mem_curr s) (take (mem_curr t) (mem_buff x))" for x
    using a(1) by (simp add: mem_later_def min_absorb1)
  then have "take (mem_curr s) (mem_buff u) = take (mem_curr s) (mem_buff s)" using a unfolding mem_later_def by metis
  then show "mem_later s u" using a by (simp add: mem_later_def)
next
  fix s r t assume "mem_ok s" "op_getunit xdrmem_ops s = Some (r, t)"
  then show "mem_later s t \<and> (r = None \<longrightarrow> t = s)"
    by (auto simp: xdrmem_ops_def xdrmem_getunit_def BYTES_PER_XDR_UNIT_def mem_ok_def mem_later_def split: if_splits)
next
  fix s w ok t assume "mem_ok s" "op_putunit xdrmem_ops s w = Some (ok, t)"
  then show "mem_later s t \<and> (\<not> ok \<longrightarrow> t = s)"
    by (auto simp: xdrmem_ops_def xdrmem_putunit_def BYTES_PER_XDR_UNIT_def mem_ok_def mem_later_def encode_unit_def split: if_splits)
next
  fix s n q t assume "mem_ok s" "op_getbytes xdrmem_ops s n = Some (q, t)"
  then show "mem_later s t \<and> (q = None \<longrightarrow> t = s)"
    by (auto simp: xdrmem_ops_def xdrmem_getbytes_def mem_ok_def mem_later_def split: if_splits)
next
  fix s bs ok t assume "mem_ok s" "op_putbytes xdrmem_ops s bs = Some (ok, t)"
  then show "mem_later s t \<and> (\<not> ok \<longrightarrow> t = s)"
    by (auto simp: xdrmem_ops_def xdrmem_putbytes_def mem_ok_def mem_later_def split: if_splits)
next
  fix s t assume "mem_later s t"
  then show "\<exists>u. op_setpos xdrmem_ops t (op_getpos xdrmem_ops s) = (True, u) \<and> mem_later s u \<and> op_getpos xdrmem_ops u = op_getpos xdrmem_ops s"
    by (auto simp: xdrmem_ops_def xdrmem_setpos_def xdrmem_getpos_def mem_later_def mem_ok_def)
qed (simp_all add: mem_later_def)

section \<open>Properties\<close>

text \<open>A filter carries \<open>v\<close> through memory to \<open>v'\<close>: into any aligned buffer with enough room it encodes \<open>v\<close> as the given wire
  format, and decoding from that buffer over the old value \<open>v0\<close> gives \<open>v'\<close> and ends at the same position. In a
  round trip the two are the same.\<close>

definition mem_carries :: "(xdrmem, 'v) xdrproc_t \<Rightarrow> 'v \<Rightarrow> 'v \<Rightarrow> 'v \<Rightarrow> u8 list \<Rightarrow> bool" where
  "mem_carries f v v0 v' wire \<longleftrightarrow> (\<forall>addr memory. addr \<noteq> 0 \<longrightarrow> addr mod 4 = 0 \<longrightarrow> length wire \<le> length memory \<longrightarrow>
     (\<exists>xe xd. xdrmem_create addr memory (length memory) XDR_ENCODE \<bind> (\<lambda>xs. f xs v) = Some (True, v, xe)
        \<and> take (length wire) (mem_buff (extra xe)) = wire \<and> mem_curr (extra xe) = length wire
        \<and> xdrmem_create addr (mem_buff (extra xe)) (length memory) XDR_DECODE \<bind> (\<lambda>xs. f xs v0) = Some (True, v', xd)
        \<and> mem_curr (extra xd) = length wire))"

definition mem_roundtrip :: "(xdrmem, 'v) xdrproc_t \<Rightarrow> 'v \<Rightarrow> 'v \<Rightarrow> u8 list \<Rightarrow> bool" where
  "mem_roundtrip f v v0 wire \<longleftrightarrow> mem_carries f v v0 v wire"

lemma mem_carriesI:
  assumes e: "mem.encodes f v wire" and d: "mem.decodes f v0 v' wire" and m: "seek.moves f"
  shows "mem_carries f v v0 v' wire"
  unfolding mem_carries_def
proof (intro allI impI)
  fix addr :: addr and memory :: "u8 list" assume a: "addr \<noteq> 0" "addr mod 4 = 0" and l: "length wire \<le> length memory"
  define x0 where "x0 = \<lparr>oper = XDR_ENCODE, ops = Some xdrmem_ops, extra = \<lparr>mem_buff = memory, mem_curr = 0, mem_left = length memory\<rparr>\<rparr>"
  have x0: "mem.enc x0" "seek.on x0" by (simp_all add: x0_def mem.enc_def seek.on_def mem_ok_def)
  obtain xe where xe: "f x0 v = Some (True, v, xe)" "mem.enc xe" "mem_out (extra xe) = mem_out (extra x0) @ wire" "mem_left (extra xe) = mem_left (extra x0) - length wire"
    by (rule mem.encodesE [OF e x0(1)]) (use l in \<open>simp_all add: x0_def\<close>)
  have "seek.step x0 xe" using m x0(2) xe(1) unfolding seek.moves_def by blast
  then have le: "mem_curr (extra xe) + mem_left (extra xe) = length memory" "length (mem_buff (extra xe)) = length memory"
    by (simp_all add: seek.step_def mem_later_def x0_def)
  then have ce: "mem_curr (extra xe) = length wire" using xe(4) l by (simp add: x0_def)
  then have w: "take (length wire) (mem_buff (extra xe)) = wire" using xe(3) by (simp add: mem_out_def x0_def)
  define y0 where "y0 = \<lparr>oper = XDR_DECODE, ops = Some xdrmem_ops, extra = \<lparr>mem_buff = mem_buff (extra xe), mem_curr = 0, mem_left = length memory\<rparr>\<rparr>"
  have y0: "mem.dec y0" "seek.on y0" using le(2) by (simp_all add: y0_def mem.dec_def seek.on_def mem_ok_def)
  have "mem_inp (extra y0) = wire @ drop (length wire) (mem_buff (extra xe))"
    using w append_take_drop_id [of "length wire" "mem_buff (extra xe)"] le(2) by (simp add: mem_inp_def y0_def)
  then obtain xd where xd: "f y0 v0 = Some (True, v', xd)" "mem.dec xd" "mem_inp (extra xd) = drop (length wire) (mem_buff (extra xe))"
    by (rule mem.decodesE [OF d y0(1)])
  have "seek.step y0 xd" using m y0(2) xd(1) unfolding seek.moves_def by blast
  then have ld: "mem_curr (extra xd) + mem_left (extra xd) = length memory" "mem_ok (extra xd)" "length (mem_buff (extra xd)) = length memory"
    using le(2) by (simp_all add: seek.step_def mem_later_def y0_def)
  then have "mem_left (extra xd) = length memory - length wire"
    using arg_cong [OF xd(3), of length] le(2) by (simp add: mem_inp_def mem_ok_def)
  then have "mem_curr (extra xd) = length wire" using ld(1) l by simp
  then show "\<exists>xe xd. xdrmem_create addr memory (length memory) XDR_ENCODE \<bind> (\<lambda>xs. f xs v) = Some (True, v, xe)
        \<and> take (length wire) (mem_buff (extra xe)) = wire \<and> mem_curr (extra xe) = length wire
        \<and> xdrmem_create addr (mem_buff (extra xe)) (length memory) XDR_DECODE \<bind> (\<lambda>xs. f xs v0) = Some (True, v', xd)
        \<and> mem_curr (extra xd) = length wire"
    using a xe(1) w ce xd(1) unfolding xdrmem_create_def x0_def y0_def by auto
qed

lemma mem_roundtripI: "mem.encodes f v wire \<Longrightarrow> mem.decodes f v0 v wire \<Longrightarrow> seek.moves f \<Longrightarrow> mem_roundtrip f v v0 wire"
  unfolding mem_roundtrip_def by (rule mem_carriesI)

text \<open>C24: every scalar filter and the filters of byte strings carry their values through a memory stream. The wire format is the
  one of RFC 1832: big-endian units, short types widened to a unit, 64-bit types as two units, byte strings
  with their length and padded with zeros to a multiple of four. The byte string is decoded into memory that \<^verbatim>\<open>xdr_bytes\<close> allocates;
  the empty one is the exception: decoding it succeeds and leaves pointer and size as they were before the call.\<close>

theorem xdr_mem_roundtrip:
  assumes "length bs < 2 ^ 32" "of_nat (length bs) \<le> maxsize" "malloc (length bs)" "length to = length bs"
  shows "mem_roundtrip xdr_int i i0 (be32 i) \<and> mem_roundtrip xdr_u_int i i0 (be32 i) \<and> mem_roundtrip xdr_enum i i0 (be32 i) \<and> mem_roundtrip xdr_bool i i0 (be32 i)
    \<and> mem_roundtrip xdr_short h h0 (be32 (scast h)) \<and> mem_roundtrip xdr_u_short h h0 (be32 (ucast h))
    \<and> mem_roundtrip xdr_u_hyper l l0 (wire_hyper l) \<and> mem_roundtrip xdr_hyper l l0 (wire_hyper l)
    \<and> mem_roundtrip (xdr_opaque (length bs)) bs to (bs @ xdr_pad (length bs))
    \<and> mem_carries (xdr_bytes malloc maxsize) (Some bs, of_nat (length bs)) (None, n0)
         (if bs = [] then (None, n0) else (Some bs, of_nat (length bs))) (be32 (of_nat (length bs)) @ bs @ xdr_pad (length bs))"
proof -
  have u: "unat (of_nat (length bs) :: u32) = length bs" using assms(1) by (simp add: unat_of_nat)
  have "mem_roundtrip (xdr_opaque (length bs)) bs to (wire_opaque bs)"
    by (rule mem_roundtripI [OF mem.encodes_opaque mem.decodes_opaque seek.tidy_moves [OF seek.tidy_opaque]]) (simp_all add: assms)
  moreover have "mem_carries (xdr_bytes malloc maxsize) (Some bs, of_nat (length bs)) (None, n0)
      (if bs = [] then (None, n0) else (Some bs, of_nat (length bs))) (wire_bytes bs)"
  proof (rule mem_carriesI [OF mem.encodes_xdr_bytes _ seek.tidy_moves [OF seek.tidy_bytes]])
    show "mem.decodes (xdr_bytes malloc maxsize) (None, n0) (if bs = [] then (None, n0) else (Some bs, of_nat (length bs))) (wire_bytes bs)"
    proof (cases "bs = []")
      case True
      then show ?thesis using mem.decodes_xdr_bytes_empty by simp
    next
      case False
      have "mem.decodes (xdr_bytes malloc maxsize) (None, n0) (Some bs, of_nat (length bs)) (wire_bytes bs)"
        by (rule mem.decodes_xdr_bytes) (simp_all add: assms u False)
      then show ?thesis using False by simp
    qed
  qed (simp_all add: assms u)
  ultimately show ?thesis
    using mem.int_codec mem.u_int_codec mem.enum_codec mem.bool_codec mem.short_codec mem.u_short_codec mem.encodes_hyper mem.decodes_hyper mem.hyper_codec
      seek.tidy_int seek.tidy_enum seek.tidy_short seek.tidy_hyper
    by (auto simp: wire_bytes_def wire_opaque_def intro: mem_roundtripI seek.tidy_moves)
qed

theorem xdr_mem_roundtrip_witness:
  "mem_roundtrip xdr_short 0xFFFE 0 (be32 0xFFFFFFFE) \<and> be32 0xFFFFFFFE = [0xFF, 0xFF, 0xFF, 0xFE]
   \<and> mem_roundtrip xdr_hyper 0x0102030405060708 0 [1, 2, 3, 4, 5, 6, 7, 8]
   \<and> mem_carries (xdr_bytes (\<lambda>n. n \<le> 1024) 400) (Some [7, 8, 9], 3) (None, 0) (Some [7, 8, 9], 3) [0, 0, 0, 3, 7, 8, 9, 0]
   \<and> mem_carries (xdr_bytes (\<lambda>n. n \<le> 1024) 400) (Some [], 0) (None, 17) (None, 17) [0, 0, 0, 0]"
proof -
  have s: "(scast (0xFFFE :: u16) :: u32) = 0xFFFFFFFE" by simp
  have l: "wire_hyper 0x0102030405060708 = [1, 2, 3, 4, 5, 6, 7, 8]" by (simp add: wire_hyper_def be32_def)
  have p: "xdr_pad (Suc (Suc (Suc 0))) = [0]" "xdr_pad 0 = []" by (simp_all add: xdr_pad_def)
  show ?thesis
    using xdr_mem_roundtrip [of "[7, 8, 9]" 400 "\<lambda>n. n \<le> 1024" "[0, 0, 0]" 0 0 "0xFFFE" 0 "0x0102030405060708" 0 0]
      xdr_mem_roundtrip [of "[]" 400 "\<lambda>n. n \<le> 1024" "[]" 0 0 0 0 0 0 17] by (simp add: s l p be32_def)
qed

text \<open>A filter that keeps a memory stream well formed, never touches the bytes before the position at which it was
  called nor those behind the end of the stream, and returns to that position when it fails.\<close>

definition mem_tidy :: "(xdrmem, 'v) xdrproc_t \<Rightarrow> bool" where
  "mem_tidy f \<longleftrightarrow> (\<forall>xs v ok v' xs'. ops xs = Some xdrmem_ops \<longrightarrow> mem_ok (extra xs) \<longrightarrow> f xs v = Some (ok, v', xs') \<longrightarrow>
     ops xs' = Some xdrmem_ops \<and> oper xs' = oper xs \<and> mem_ok (extra xs') \<and> length (mem_buff (extra xs')) = length (mem_buff (extra xs))
     \<and> mem_curr (extra xs) \<le> mem_curr (extra xs') \<and> mem_curr (extra xs') + mem_left (extra xs') = mem_curr (extra xs) + mem_left (extra xs)
     \<and> take (mem_curr (extra xs)) (mem_buff (extra xs')) = take (mem_curr (extra xs)) (mem_buff (extra xs))
     \<and> drop (mem_curr (extra xs) + mem_left (extra xs)) (mem_buff (extra xs')) = drop (mem_curr (extra xs) + mem_left (extra xs)) (mem_buff (extra xs))
     \<and> (\<not> ok \<longrightarrow> mem_curr (extra xs') = mem_curr (extra xs)))"

lemma mem_tidy_iff: "mem_tidy f = seek.tidy f"
proof -
  have p: "op_getpos xdrmem_ops = mem_curr" by (intro ext) (simp add: xdrmem_ops_def xdrmem_getpos_def)
  show ?thesis unfolding mem_tidy_def seek.tidy_def seek.on_def seek.step_def p unfolding mem_later_def by blast
qed

text \<open>C13: every filter of the library is tidy on memory streams: it keeps the stream well formed, stays inside the buffer,
  and restores the position when it fails; nothing is claimed of a run that is undefined. For arrays and unions this rests on the filters of the elements and of the arms being tidy.\<close>

theorem xdr_filters_tidy:
  assumes "mem_tidy elem_proc" "list_all (\<lambda>(v, proc). mem_tidy proc) choices" "mem_tidy dfault"
  shows "mem_tidy xdr_int \<and> mem_tidy xdr_u_int \<and> mem_tidy xdr_short \<and> mem_tidy xdr_u_short \<and> mem_tidy xdr_u_hyper \<and> mem_tidy xdr_hyper
    \<and> mem_tidy xdr_enum \<and> mem_tidy xdr_bool \<and> mem_tidy (xdr_opaque n) \<and> mem_tidy (xdr_bytes malloc maxsize) \<and> mem_tidy (xdr_string malloc maxsize)
    \<and> mem_tidy (xdr_wrapstring malloc) \<and> mem_tidy (xdr_array malloc fresh maxsize elem_size elem_proc)
    \<and> mem_tidy (xdr_union choices None) \<and> mem_tidy (xdr_union choices (Some dfault))"
proof -
  have w: "xdr_wrapstring malloc = xdr_string malloc XDR_LAST_UINT32" by (intro ext) (simp add: xdr_wrapstring_def)
  have c: "seek.moves proc" if "(v, proc) \<in> set choices" for v proc
    using assms(2) that seek.tidy_moves by (fastforce simp: list_all_iff mem_tidy_iff)
  have "seek.tidy (xdr_union choices None)" by (rule seek.tidy_union [OF c]) simp_all
  moreover have "seek.tidy (xdr_union choices (Some dfault))"
    using assms(3) by (intro seek.tidy_union [OF c]) (auto simp: mem_tidy_iff intro: seek.tidy_moves)
  moreover have "seek.tidy (xdr_array malloc fresh maxsize elem_size elem_proc)"
    using assms(1) by (intro seek.tidy_array seek.tidy_moves) (simp add: mem_tidy_iff)
  ultimately show ?thesis
    unfolding mem_tidy_iff w using seek.tidy_int seek.tidy_short seek.tidy_hyper seek.tidy_enum seek.tidy_opaque seek.tidy_bytes seek.tidy_string by blast
qed

lemma tidy_u_int: "mem_tidy xdr_u_int"
  by (simp add: mem_tidy_iff seek.tidy_int)

theorem xdr_filters_tidy_witness:
  "mem_tidy (xdr_array (\<lambda>n. n \<le> 64) 0 16 4 xdr_u_int) \<and> mem_tidy (xdr_union [(0, xdr_u_int), (1, xdr_u_int)] None)"
  using xdr_filters_tidy [of xdr_u_int "[(0, xdr_u_int), (1, xdr_u_int)]" xdr_u_int 0 "\<lambda>n. n \<le> 64" 16 0 4] by (simp add: tidy_u_int)

section \<open>Decoding of arrays and strings\<close>

lemma array_decode_success:
  "array_decode_loop f n i xs arr = Some (True, arr', xs') \<Longrightarrow> i \<le> n \<Longrightarrow> n < length arr \<and> length arr' = length arr"
proof (induction f n i xs arr rule: array_decode_loop.induct)
  case (1 f n i xs arr)
  obtain ok1 e xs1 where f: "i < length arr" "f xs (arr ! i) = Some (ok1, e, xs1)"
    using 1(2) by (auto simp: array_decode_loop.simps [of f n i] bind_eq_Some_conv split: if_splits)
  then have "ok1" "i \<noteq> n \<longrightarrow> array_decode_loop f n (i + 1) xs1 (arr[i := e]) = Some (True, arr', xs')" "i = n \<longrightarrow> arr' = arr[i := e]"
    using 1(2) by (auto simp: array_decode_loop.simps [of f n i] Let_def split: if_splits)
  then show ?case using 1(1) [OF f(1,2) refl refl] f 1(3) by (cases "i = n") auto
qed

lemma xdr_array_fresh:
  assumes "oper xs = XDR_DECODE" "xdr_array malloc fresh maxsize elem_size f xs (None, psize) = Some (True, v, xs')"
  shows "v = (None, psize)"
proof -
  have "\<not> unat sz < unat (sz * elem_size) div unat elem_size" if "elem_size \<noteq> 0" for sz :: u32
  proof -
    have "unat (sz * elem_size) \<le> unat sz * unat elem_size" by (simp add: unat_word_ariths)
    then have "unat (sz * elem_size) div unat elem_size \<le> unat sz * unat elem_size div unat elem_size" by (rule div_le_mono)
    moreover have "0 < unat elem_size" using that by (simp add: unat_gt_0)
    ultimately show ?thesis by simp
  qed
  then show ?thesis
    using assms by (auto simp: xdr_array_def XDR_RESTORE_def bind_eq_Some_conv split: if_splits dest!: array_decode_success)
qed

lemma aligned_nothing:
  assumes "ops xs = Some xdrmem_ops" "get_aligned 0 xs t = Some (True, str, xs')"
  shows "str = t"
  using assms by (auto simp: get_aligned_def xdr_getbytes_def xdrmem_ops_def xdrmem_getbytes_def bind_eq_Some_conv split: if_splits)

lemma terminated: "xdr_terminate n m = Some t \<Longrightarrow> n = 0 \<and> (\<exists>junk. t = 0 # junk)"
  by (cases m) (auto simp: xdr_terminate_def split: if_splits)

lemma xdr_string_empty:
  assumes "oper xs = XDR_DECODE" "ops xs = Some xdrmem_ops" "mem_ok (extra xs)" "xdr_string malloc maxsize xs pstr = Some (True, v, xs')"
  shows "\<exists>junk. v = Some (0 # junk)"
proof -
  obtain n ok xs1 where u: "xdr_u_int xs 0 = Some (ok, n, xs1)"
    using assms(1,4) by (auto simp: xdr_string_def bind_eq_Some_conv)
  then have o: "ops xs1 = Some xdrmem_ops" using tidy_u_int assms(2,3) unfolding mem_tidy_def by blast
  obtain m t str xs2 where t: "xdr_terminate (unat n) m = Some t" "get_aligned (unat n) xs1 t = Some (True, str, xs2)" "v = Some str"
    using assms(1,4) u by (auto simp: xdr_string_def XDR_RESTORE_def bind_eq_Some_conv split: if_splits option.splits)
  then show ?thesis using terminated [OF t(1)] aligned_nothing [OF o, of t str xs2] by auto
qed

text \<open>C33: decoding of arrays and strings does not do what it means to. When \<^verbatim>\<open>xdr_array\<close> allocates the array it succeeds only for
  the empty one: for any other it runs the element filter once more than there are elements, past the end of
  the memory it allocated. When \<^verbatim>\<open>xdr_string\<close> succeeds the string is empty. And \<^verbatim>\<open>xdr_free\<close> of anything that allocates
  uses the table of operations of a stream that has none.\<close>

theorem xdr_decode_defects:
  assumes "oper xs = XDR_DECODE" "ops xs = Some xdrmem_ops" "mem_ok (extra xs)"
  shows "(\<nexists>arr n xs'. xdr_array malloc fresh maxsize elem_size elem_proc xs (None, psize) = Some (True, (Some arr, n), xs'))
    \<and> (\<nexists>c str xs'. xdr_string malloc maxsize xs pstr = Some (True, Some (c # str), xs') \<and> c \<noteq> 0)
    \<and> xdr_free garbage (xdr_array malloc fresh maxsize elem_size elem_proc) a = None
    \<and> xdr_free garbage (xdr_bytes malloc maxsize) b = None \<and> xdr_free garbage (xdr_string malloc maxsize) c = None"
proof -
  have "xdr_free garbage (xdr_array malloc fresh maxsize elem_size elem_proc) a = None" "xdr_free garbage (xdr_bytes malloc maxsize) b = None"
    "xdr_free garbage (xdr_string malloc maxsize) c = None"
    by (cases a, simp add: xdr_free_def xdr_array_def xdr_getpos_def) (cases b, simp_all add: xdr_free_def xdr_bytes_def xdr_string_def xdr_getpos_def)
  then show ?thesis using xdr_array_fresh [OF assms(1)] xdr_string_empty [OF assms] by fastforce
qed

text \<open>An array of one element and a string of one character, each exactly as their filters encode them.\<close>

definition defect_stream :: "u8 list \<Rightarrow> xdrmem xdr" where
  "defect_stream bs = \<lparr>oper = XDR_DECODE, ops = Some xdrmem_ops, extra = \<lparr>mem_buff = bs, mem_curr = 0, mem_left = length bs\<rparr>\<rparr>"

theorem xdr_decode_defects_witness:
  "oper (defect_stream [0, 0, 0, 1, 0x41, 0, 0, 0]) = XDR_DECODE \<and> mem_ok (extra (defect_stream [0, 0, 0, 1, 0x41, 0, 0, 0]))
   \<and> (\<nexists>arr n xs'. xdr_array (\<lambda>n. True) 0 16 4 xdr_u_int (defect_stream [0, 0, 0, 1, 0x41, 0, 0, 0]) (None, 0) = Some (True, (Some arr, n), xs'))
   \<and> xdr_string (\<lambda>n. True) 255 (defect_stream [0, 0, 0, 1, 0x41, 0, 0, 0]) None = None
   \<and> xdr_free (extra (defect_stream [])) (xdr_bytes (\<lambda>n. True) 400) (Some [1], 1) = None"
proof -
  let ?x = "defect_stream [0, 0, 0, 1, 0x41, 0, 0, 0]"
  have x: "oper ?x = XDR_DECODE" "ops ?x = Some xdrmem_ops" "mem_ok (extra ?x)" by (simp_all add: defect_stream_def mem_ok_def)
  have u: "xdr_string (\<lambda>n. True) 255 ?x None = None"
    by (simp add: xdr_string_def xdr_getpos_def xdr_u_int_def xdr_getunit_def defect_stream_def xdrmem_ops_def xdrmem_getunit_def
      BYTES_PER_XDR_UNIT_def decode_unit_def xdr_terminate_def)
  show ?thesis
    using xdr_decode_defects [OF x, of "\<lambda>n. True" 0 16 4 xdr_u_int 0 None "extra (defect_stream [])" "(None, 0)" "(Some [1], 1)" None] x u
      xdr_decode_defects [OF x, of "\<lambda>n. True" 0 400 4 xdr_u_int 0 None "extra (defect_stream [])" "(None, 0)" "(Some [1], 1)" None] by blast
qed

end
