(* ===== verification/Rpc_Msg.thy ===== *)
theory Rpc_Msg
  imports Xdr_Mem
begin

text \<open>
  The messages of the remote procedure calls, \<^verbatim>\<open>net/lib/rpc/rpc_msg.c\<close> and \<^verbatim>\<open>auth.c\<close>, built from the filters. Enumerations are
  the 32-bit numbers the code stores. A C union is a record of its members: a filter touches only the
  member its discriminant selects. The decoder of the results of a call is a parameter.
\<close>

section \<open>Filters of structures\<close>

text \<open>A filter on a member of a structure, and \<^verbatim>\<open>f(xs, p) && g(xs, p)\<close>.\<close>

definition member :: "('u \<Rightarrow> 'v) \<Rightarrow> ('v \<Rightarrow> 'u \<Rightarrow> 'u) \<Rightarrow> ('s, 'v) xdrproc_t \<Rightarrow> ('s, 'u) xdrproc_t" where
  "member get put f xs u = do { (ok, v, xs) \<leftarrow> f xs (get u); Some (ok, put v u, xs) }"

definition both :: "('s, 'u) xdrproc_t \<Rightarrow> ('s, 'u) xdrproc_t \<Rightarrow> ('s, 'u) xdrproc_t" where
  "both f g xs u = do { (ok, u, xs) \<leftarrow> f xs u; if ok then g xs u else Some (False, u, xs) }"

context xdr_stream
begin

lemma encodes_member:
  assumes "encodes f (get u) bs" "put (get u) u = u"
  shows "encodes (member get put f) u bs"
proof (rule encodesI)
  fix xs assume e: "enc xs" and r: "length bs \<le> room (extra xs)"
  obtain xs' where "f xs (get u) = Some (True, get u, xs')" "enc xs'" "out (extra xs') = out (extra xs) @ bs" "room (extra xs') = room (extra xs) - length bs"
    by (rule encodesE [OF assms(1) e r])
  then show "\<exists>xs'. member get put f xs u = Some (True, u, xs') \<and> enc xs' \<and> out (extra xs') = out (extra xs) @ bs \<and> room (extra xs') = room (extra xs) - length bs"
    by (simp add: member_def assms(2))
qed

lemma decodes_member:
  assumes "decodes f (get u0) v bs" "put v u0 = u"
  shows "decodes (member get put f) u0 u bs"
proof (rule decodesI)
  fix xs r assume d: "dec xs" and i: "inp (extra xs) = bs @ r"
  obtain xs' where "f xs (get u0) = Some (True, v, xs')" "dec xs'" "inp (extra xs') = r" by (rule decodesE [OF assms(1) d i])
  then show "\<exists>xs'. member get put f xs u0 = Some (True, u, xs') \<and> dec xs' \<and> inp (extra xs') = r" by (simp add: member_def assms(2))
qed

lemma encodes_both:
  assumes "encodes f u bs" "encodes g u cs"
  shows "encodes (both f g) u (bs @ cs)"
proof (rule encodesI)
  fix xs assume e: "enc xs" and r: "length (bs @ cs) \<le> room (extra xs)"
  then have "length bs \<le> room (extra xs)" by simp
  then obtain xs1 where 1: "f xs u = Some (True, u, xs1)" "enc xs1" "out (extra xs1) = out (extra xs) @ bs" "room (extra xs1) = room (extra xs) - length bs"
    by (rule encodesE [OF assms(1) e])
  then have "length cs \<le> room (extra xs1)" using r by simp
  then obtain xs2 where "g xs1 u = Some (True, u, xs2)" "enc xs2" "out (extra xs2) = out (extra xs1) @ cs" "room (extra xs2) = room (extra xs1) - length cs"
    by (rule encodesE [OF assms(2) 1(2)])
  then show "\<exists>xs'. both f g xs u = Some (True, u, xs') \<and> enc xs' \<and> out (extra xs') = out (extra xs) @ bs @ cs \<and> room (extra xs') = room (extra xs) - length (bs @ cs)"
    using 1 by (simp add: both_def)
qed

lemma decodes_both:
  assumes "decodes f u0 u1 bs" "decodes g u1 u2 cs"
  shows "decodes (both f g) u0 u2 (bs @ cs)"
proof (rule decodesI)
  fix xs r assume d: "dec xs" and i: "inp (extra xs) = (bs @ cs) @ r"
  then have "inp (extra xs) = bs @ cs @ r" by simp
  then obtain xs1 where 1: "f xs u0 = Some (True, u1, xs1)" "dec xs1" "inp (extra xs1) = cs @ r" by (rule decodesE [OF assms(1) d])
  obtain xs2 where "g xs1 u1 = Some (True, u2, xs2)" "dec xs2" "inp (extra xs2) = r" by (rule decodesE [OF assms(2) 1(2,3)])
  then show "\<exists>xs'. both f g xs u0 = Some (True, u2, xs') \<and> dec xs' \<and> inp (extra xs') = r" using 1 by (simp add: both_def)
qed

end

context xdr_seekable
begin

lemma moves_member: "moves f \<Longrightarrow> moves (member get put f)"
  unfolding moves_def member_def by (auto simp: bind_eq_Some_conv)

lemma moves_both:
  assumes f: "moves f" and g: "moves g"
  shows "moves (both f g)"
  unfolding moves_def
proof (intro allI impI)
  fix xs u ok u' xs' assume o: "on xs" and b: "both f g xs u = Some (ok, u', xs')"
  obtain ok1 u1 xs1 where 1: "f xs u = Some (ok1, u1, xs1)" using b by (auto simp: both_def bind_eq_Some_conv)
  then have s: "step xs xs1" using f o unfolding moves_def by blast
  then have "g xs1 u1 = Some (ok, u', xs') \<Longrightarrow> step xs xs'" using g step_on [OF s] step_trans [OF s] unfolding moves_def by blast
  then show "step xs xs'" using 1 b s by (auto simp: both_def split: if_splits)
qed

end

section \<open>Authentication\<close>

definition AUTH_DATA_MAX_SZ :: u32 where "AUTH_DATA_MAX_SZ = 400"
definition HOST_NAME_MAX_SZ :: u32 where "HOST_NAME_MAX_SZ = 255"
definition GIDS_MAX_SZ :: u32 where "GIDS_MAX_SZ = 16"

record opaque_auth =
  oa_flavor :: u32
  oa_data :: "u8 list option"
  oa_data_len :: u32

definition opaque_auth_null :: opaque_auth where
  "opaque_auth_null = \<lparr>oa_flavor = 0, oa_data = None, oa_data_len = 0\<rparr>"

text \<open>The flavor goes through a local variable that is stored last.\<close>

definition xdr_opaque_auth :: "(nat \<Rightarrow> bool) \<Rightarrow> ('s, opaque_auth) xdrproc_t" where
  "xdr_opaque_auth malloc xs oa = do {
     (ok, flavor, xs) \<leftarrow> xdr_enum xs (oa_flavor oa);
     if ok then do {
       (ok, (d, n), xs) \<leftarrow> xdr_bytes malloc AUTH_DATA_MAX_SZ xs (oa_data oa, oa_data_len oa);
       let oa = oa\<lparr>oa_data := d, oa_data_len := n\<rparr>;
       Some (if ok then (True, oa\<lparr>oa_flavor := flavor\<rparr>, xs) else (False, oa, xs))
     }
     else Some (False, oa, xs)
   }"

record authunix_parms =
  aup_stamp :: u32
  aup_host :: "u8 list option"
  aup_uid :: u32
  aup_gid :: u32
  aup_gids :: "u32 list option"
  aup_gids_len :: u32

definition xdr_authunix_parms :: "(nat \<Rightarrow> bool) \<Rightarrow> u32 \<Rightarrow> ('s, authunix_parms) xdrproc_t" where
  "xdr_authunix_parms malloc fresh =
     both (member aup_stamp (\<lambda>v. aup_stamp_update (\<lambda>_. v)) xdr_u_int)
     (both (member aup_host (\<lambda>v. aup_host_update (\<lambda>_. v)) (xdr_string malloc HOST_NAME_MAX_SZ))
     (both (member aup_uid (\<lambda>v. aup_uid_update (\<lambda>_. v)) xdr_u_int)
     (both (member aup_gid (\<lambda>v. aup_gid_update (\<lambda>_. v)) xdr_u_int)
       (member (\<lambda>a. (aup_gids a, aup_gids_len a)) (\<lambda>(g, n) a. a\<lparr>aup_gids := g, aup_gids_len := n\<rparr>)
         (xdr_array malloc fresh GIDS_MAX_SZ 4 xdr_u_int)))))"

section \<open>Messages\<close>

record mismatch_info =
  mi_low :: u32
  mi_high :: u32

definition xdr_mismatch_info :: "('s, mismatch_info) xdrproc_t" where
  "xdr_mismatch_info = both (member mi_low (\<lambda>v. mi_low_update (\<lambda>_. v)) xdr_u_int) (member mi_high (\<lambda>v. mi_high_update (\<lambda>_. v)) xdr_u_int)"

definition SUCCESS :: u32 where "SUCCESS = 0"
definition PROG_MISMATCH :: u32 where "PROG_MISMATCH = 2"
definition RPC_MISMATCH :: u32 where "RPC_MISMATCH = 0"
definition AUTH_ERROR :: u32 where "AUTH_ERROR = 1"
definition MSG_ACCEPTED :: u32 where "MSG_ACCEPTED = 0"
definition MSG_DENIED :: u32 where "MSG_DENIED = 1"
definition CALL :: u32 where "CALL = 0"
definition REPLY :: u32 where "REPLY = 1"

record 'p accepted_reply =
  ar_verf :: opaque_auth
  ar_stat :: u32
  ar_param :: "'p"
  ar_mminfo :: mismatch_info

definition xdr_accepted_reply :: "(nat \<Rightarrow> bool) \<Rightarrow> ('s, 'p) xdrproc_t option \<Rightarrow> ('s, 'p accepted_reply) xdrproc_t" where
  "xdr_accepted_reply malloc decoder xs ar = do {
     (ok, verf, xs) \<leftarrow> xdr_opaque_auth malloc xs (ar_verf ar);
     let ar = ar\<lparr>ar_verf := verf\<rparr>;
     if \<not> ok then Some (False, ar, xs)
     else do {
       (ok, stat, xs) \<leftarrow> xdr_enum xs (ar_stat ar);
       if \<not> ok then Some (False, ar, xs)
       else let ar = ar\<lparr>ar_stat := stat\<rparr>
            in if stat = SUCCESS then do { proc \<leftarrow> decoder; member ar_param (\<lambda>v. ar_param_update (\<lambda>_. v)) proc xs ar }
               else if stat = PROG_MISMATCH then member ar_mminfo (\<lambda>v. ar_mminfo_update (\<lambda>_. v)) xdr_mismatch_info xs ar
               else Some (True, ar, xs)
     }
   }"

record reject_data =
  rd_reason :: u32
  rd_mminfo :: mismatch_info

record rejected_reply =
  rr_stat :: u32
  rr_d :: reject_data

definition reject_dscrm :: "(u32 \<times> ('s, reject_data) xdrproc_t) list" where
  "reject_dscrm =
     [(RPC_MISMATCH, member rd_mminfo (\<lambda>v. rd_mminfo_update (\<lambda>_. v)) xdr_mismatch_info), (AUTH_ERROR, member rd_reason (\<lambda>v. rd_reason_update (\<lambda>_. v)) xdr_enum)]"

definition xdr_rejected_reply :: "('s, rejected_reply) xdrproc_t" where
  "xdr_rejected_reply xs rr = do {
     (ok, (stat, d), xs) \<leftarrow> xdr_union reject_dscrm None xs (rr_stat rr, rr_d rr);
     let rr = rr\<lparr>rr_d := d\<rparr>;
     Some (if ok then (True, rr\<lparr>rr_stat := stat\<rparr>, xs) else (False, rr, xs))
   }"

record call_body =
  cb_rpcvers :: u32
  cb_prog :: u32
  cb_vers :: u32
  cb_proc :: u32
  cb_cred :: opaque_auth
  cb_verf :: opaque_auth

definition xdr_call_body :: "(nat \<Rightarrow> bool) \<Rightarrow> ('s, call_body) xdrproc_t" where
  "xdr_call_body malloc =
     both (member cb_rpcvers (\<lambda>v. cb_rpcvers_update (\<lambda>_. v)) xdr_u_int)
     (both (member cb_prog (\<lambda>v. cb_prog_update (\<lambda>_. v)) xdr_u_int)
     (both (member cb_vers (\<lambda>v. cb_vers_update (\<lambda>_. v)) xdr_u_int)
     (both (member cb_proc (\<lambda>v. cb_proc_update (\<lambda>_. v)) xdr_u_int)
     (both (member cb_cred (\<lambda>v. cb_cred_update (\<lambda>_. v)) (xdr_opaque_auth malloc))
       (member cb_verf (\<lambda>v. cb_verf_update (\<lambda>_. v)) (xdr_opaque_auth malloc))))))"

record 'p reply_body =
  rb_stat :: u32
  rb_accepted :: "'p accepted_reply"
  rb_rejected :: rejected_reply

definition reply_dscrm :: "(nat \<Rightarrow> bool) \<Rightarrow> ('s, 'p) xdrproc_t option \<Rightarrow> (u32 \<times> ('s, 'p reply_body) xdrproc_t) list" where
  "reply_dscrm malloc decoder =
     [(MSG_ACCEPTED, member rb_accepted (\<lambda>v. rb_accepted_update (\<lambda>_. v)) (xdr_accepted_reply malloc decoder)),
      (MSG_DENIED, member rb_rejected (\<lambda>v. rb_rejected_update (\<lambda>_. v)) xdr_rejected_reply)]"

definition xdr_reply_body :: "(nat \<Rightarrow> bool) \<Rightarrow> ('s, 'p) xdrproc_t option \<Rightarrow> ('s, 'p reply_body) xdrproc_t" where
  "xdr_reply_body malloc decoder xs rb = do {
     (ok, (stat, rb'), xs) \<leftarrow> xdr_union (reply_dscrm malloc decoder) None xs (rb_stat rb, rb);
     Some (if ok then (True, rb'\<lparr>rb_stat := stat\<rparr>, xs) else (False, rb', xs))
   }"

record 'p rpc_msg =
  msg_xid :: u32
  msg_type :: u32
  msg_call :: call_body
  msg_reply :: "'p reply_body"

definition msg_dscrm :: "(nat \<Rightarrow> bool) \<Rightarrow> ('s, 'p) xdrproc_t option \<Rightarrow> (u32 \<times> ('s, 'p rpc_msg) xdrproc_t) list" where
  "msg_dscrm malloc decoder =
     [(CALL, member msg_call (\<lambda>v. msg_call_update (\<lambda>_. v)) (xdr_call_body malloc)),
      (REPLY, member msg_reply (\<lambda>v. msg_reply_update (\<lambda>_. v)) (xdr_reply_body malloc decoder))]"

definition xdr_rpc_msg :: "(nat \<Rightarrow> bool) \<Rightarrow> ('s, 'p) xdrproc_t option \<Rightarrow> ('s, 'p rpc_msg) xdrproc_t" where
  "xdr_rpc_msg malloc decoder xs msg = do {
     (ok, xid, xs) \<leftarrow> xdr_u_int xs (msg_xid msg);
     let m = msg\<lparr>msg_xid := xid\<rparr>;
     if \<not> ok then Some (False, m, xs)
     else do {
       (ok, (type, m), xs) \<leftarrow> xdr_union (msg_dscrm malloc decoder) None xs (msg_type msg, m);
       Some (if ok then (True, m\<lparr>msg_type := type\<rparr>, xs) else (False, m, xs))
     }
   }"

record pmap =
  pm_prog :: u32
  pm_vers :: u32
  pm_prot :: u32
  pm_port :: u32

definition xdr_pmap :: "('s, pmap) xdrproc_t" where
  "xdr_pmap =
     both (member pm_prog (\<lambda>v. pm_prog_update (\<lambda>_. v)) xdr_u_int)
     (both (member pm_vers (\<lambda>v. pm_vers_update (\<lambda>_. v)) xdr_u_int)
     (both (member pm_prot (\<lambda>v. pm_prot_update (\<lambda>_. v)) xdr_u_int)
       (member pm_port (\<lambda>v. pm_port_update (\<lambda>_. v)) xdr_u_int)))"

section \<open>Wire formats\<close>

definition auth_bytes :: "opaque_auth \<Rightarrow> u8 list" where
  "auth_bytes oa = (case oa_data oa of None \<Rightarrow> [] | Some bs \<Rightarrow> bs)"

definition auth_ok :: "opaque_auth \<Rightarrow> bool" where
  "auth_ok oa \<longleftrightarrow> unat (oa_data_len oa) = length (auth_bytes oa) \<and> (oa_data oa = None \<or> auth_bytes oa \<noteq> []) \<and> length (auth_bytes oa) \<le> 400"

definition wire_auth :: "opaque_auth \<Rightarrow> u8 list" where
  "wire_auth oa = be32 (oa_flavor oa) @ wire_bytes (auth_bytes oa)"

definition wire_call :: "call_body \<Rightarrow> u8 list" where
  "wire_call cb = be32 (cb_rpcvers cb) @ be32 (cb_prog cb) @ be32 (cb_vers cb) @ be32 (cb_proc cb) @ wire_auth (cb_cred cb) @ wire_auth (cb_verf cb)"

definition wire_mismatch :: "mismatch_info \<Rightarrow> u8 list" where
  "wire_mismatch mi = be32 (mi_low mi) @ be32 (mi_high mi)"

definition wire_accepted :: "('p \<Rightarrow> u8 list) \<Rightarrow> 'p accepted_reply \<Rightarrow> u8 list" where
  "wire_accepted w ar = wire_auth (ar_verf ar) @ be32 (ar_stat ar) @
     (if ar_stat ar = SUCCESS then w (ar_param ar) else if ar_stat ar = PROG_MISMATCH then wire_mismatch (ar_mminfo ar) else [])"

definition wire_rejected :: "rejected_reply \<Rightarrow> u8 list" where
  "wire_rejected rr = be32 (rr_stat rr) @ (if rr_stat rr = RPC_MISMATCH then wire_mismatch (rd_mminfo (rr_d rr)) else be32 (rd_reason (rr_d rr)))"

definition wire_msg :: "('p \<Rightarrow> u8 list) \<Rightarrow> 'p rpc_msg \<Rightarrow> u8 list" where
  "wire_msg w msg = be32 (msg_xid msg) @ be32 (msg_type msg) @
     (if msg_type msg = CALL then wire_call (msg_call msg)
      else be32 (rb_stat (msg_reply msg)) @
        (if rb_stat (msg_reply msg) = MSG_ACCEPTED then wire_accepted w (rb_accepted (msg_reply msg)) else wire_rejected (rb_rejected (msg_reply msg))))"

context xdr_stream
begin

lemma mismatch_codec: "encodes xdr_mismatch_info mi (wire_mismatch mi)" "decodes xdr_mismatch_info mi0 mi (wire_mismatch mi)"
proof -
  show "encodes xdr_mismatch_info mi (wire_mismatch mi)"
    unfolding xdr_mismatch_info_def wire_mismatch_def by (intro encodes_both encodes_member u_int_codec) simp_all
  show "decodes xdr_mismatch_info mi0 mi (wire_mismatch mi)"
    unfolding xdr_mismatch_info_def wire_mismatch_def by (rule decodes_both decodes_member u_int_codec refl)+ simp
qed

lemma pmap_codec:
  "encodes xdr_pmap pm (be32 (pm_prog pm) @ be32 (pm_vers pm) @ be32 (pm_prot pm) @ be32 (pm_port pm))"
  "decodes xdr_pmap pm0 pm (be32 (pm_prog pm) @ be32 (pm_vers pm) @ be32 (pm_prot pm) @ be32 (pm_port pm))"
proof -
  show "encodes xdr_pmap pm (be32 (pm_prog pm) @ be32 (pm_vers pm) @ be32 (pm_prot pm) @ be32 (pm_port pm))"
    unfolding xdr_pmap_def by (intro encodes_both encodes_member u_int_codec) simp_all
  show "decodes xdr_pmap pm0 pm (be32 (pm_prog pm) @ be32 (pm_vers pm) @ be32 (pm_prot pm) @ be32 (pm_port pm))"
    unfolding xdr_pmap_def by (rule decodes_both decodes_member u_int_codec refl)+ simp
qed

lemma encodes_auth:
  assumes "auth_ok oa"
  shows "encodes (xdr_opaque_auth malloc) oa (wire_auth oa)"
proof (rule encodesI)
  fix xs assume e: "enc xs" and r: "length (wire_auth oa) \<le> room (extra xs)"
  have "encodes (xdr_bytes malloc AUTH_DATA_MAX_SZ) (oa_data oa, oa_data_len oa) (wire_bytes (auth_bytes oa))"
    using assms by (intro encodes_xdr_bytes) (auto simp: auth_ok_def auth_bytes_def AUTH_DATA_MAX_SZ_def word_le_nat_alt split: option.splits)
  then obtain xs1 xs2 where s: "xdr_u_int xs (oa_flavor oa) = Some (True, oa_flavor oa, xs1)"
    "xdr_bytes malloc AUTH_DATA_MAX_SZ xs1 (oa_data oa, oa_data_len oa) = Some (True, (oa_data oa, oa_data_len oa), xs2)" "enc xs2"
    "out (extra xs2) = out (extra xs) @ be32 (oa_flavor oa) @ wire_bytes (auth_bytes oa)"
    "room (extra xs2) = room (extra xs) - length (be32 (oa_flavor oa) @ wire_bytes (auth_bytes oa))"
    by (rule encodes_u_int_then [OF e r [unfolded wire_auth_def]])
  then show "\<exists>xs'. xdr_opaque_auth malloc xs oa = Some (True, oa, xs') \<and> enc xs' \<and> out (extra xs') = out (extra xs) @ wire_auth oa \<and> room (extra xs') = room (extra xs) - length (wire_auth oa)"
    using encD [OF e] by (simp add: xdr_opaque_auth_def xdr_enum_def xdr_int_def xdr_u_int_def wire_auth_def Let_def)
qed

text \<open>Authentication data are decoded into an empty structure.\<close>

lemma decodes_auth:
  assumes "auth_ok oa" "oa_data oa0 = None" "oa_data_len oa0 = 0" "\<forall>n \<le> 400. malloc n"
  shows "decodes (xdr_opaque_auth malloc) oa0 oa (wire_auth oa)"
proof (rule decodesI)
  fix xs r assume d: "dec xs" and i: "inp (extra xs) = wire_auth oa @ r"
  have b: "decodes (xdr_bytes malloc AUTH_DATA_MAX_SZ) (None, 0) (oa_data oa, oa_data_len oa) (wire_bytes (auth_bytes oa))"
  proof (cases "oa_data oa")
    case None
    then have "oa_data_len oa = 0" using assms(1) by (simp add: auth_ok_def auth_bytes_def unat_eq_0)
    then show ?thesis using decodes_xdr_bytes_empty None by (simp add: auth_bytes_def)
  next
    case (Some bs)
    then show ?thesis
      using assms(1,4) decodes_xdr_bytes [of "oa_data_len oa" bs AUTH_DATA_MAX_SZ malloc 0]
      by (simp add: auth_ok_def auth_bytes_def AUTH_DATA_MAX_SZ_def word_le_nat_alt)
  qed
  obtain xs1 xs2 where s: "xdr_u_int xs (oa_flavor oa0) = Some (True, oa_flavor oa, xs1)"
    "xdr_bytes malloc AUTH_DATA_MAX_SZ xs1 (None, 0) = Some (True, (oa_data oa, oa_data_len oa), xs2)" "dec xs2" "inp (extra xs2) = r"
    by (rule decodes_u_int_then [OF d i [unfolded wire_auth_def] b])
  then show "\<exists>xs'. xdr_opaque_auth malloc xs oa0 = Some (True, oa, xs') \<and> dec xs' \<and> inp (extra xs') = r"
    using decD [OF d] assms(2,3) by (simp add: xdr_opaque_auth_def xdr_enum_def xdr_int_def xdr_u_int_def Let_def)
qed

lemma call_codec:
  assumes "auth_ok (cb_cred cb)" "auth_ok (cb_verf cb)"
  shows "encodes (xdr_call_body malloc) cb (wire_call cb)"
    "oa_data (cb_cred cb0) = None \<Longrightarrow> oa_data_len (cb_cred cb0) = 0 \<Longrightarrow> oa_data (cb_verf cb0) = None \<Longrightarrow> oa_data_len (cb_verf cb0) = 0
     \<Longrightarrow> \<forall>n \<le> 400. malloc n \<Longrightarrow> decodes (xdr_call_body malloc) cb0 cb (wire_call cb)"
proof -
  show "encodes (xdr_call_body malloc) cb (wire_call cb)"
    unfolding xdr_call_body_def wire_call_def by (intro encodes_both encodes_member u_int_codec encodes_auth assms) simp_all
  assume a: "oa_data (cb_cred cb0) = None" "oa_data_len (cb_cred cb0) = 0" "oa_data (cb_verf cb0) = None" "oa_data_len (cb_verf cb0) = 0" "\<forall>n \<le> 400. malloc n"
  show "decodes (xdr_call_body malloc) cb0 cb (wire_call cb)"
    unfolding xdr_call_body_def wire_call_def
    by (rule decodes_both decodes_member u_int_codec decodes_auth [OF assms(1)] decodes_auth [OF assms(2)] refl | simp add: a)+
qed

end

text \<open>The reply to an accepted call, as a sequence of filters.\<close>

definition accepted_tail :: "('s, 'p) xdrproc_t option \<Rightarrow> ('s, 'p accepted_reply) xdrproc_t" where
  "accepted_tail decoder xs ar =
     (if ar_stat ar = SUCCESS then do { proc \<leftarrow> decoder; member ar_param (\<lambda>v. ar_param_update (\<lambda>_. v)) proc xs ar }
      else if ar_stat ar = PROG_MISMATCH then member ar_mminfo (\<lambda>v. ar_mminfo_update (\<lambda>_. v)) xdr_mismatch_info xs ar
      else Some (True, ar, xs))"

lemma enum_fails: "xdr_enum xs v = Some (False, v', xs') \<Longrightarrow> v' = v"
  by (auto simp: xdr_enum_def xdr_int_def xdr_getunit_def xdr_putunit_def bind_eq_Some_conv split: xdr_op.splits option.splits)

lemma accepted_eq:
  fixes decoder :: "('s, 'p) xdrproc_t option"
  shows "xdr_accepted_reply malloc decoder =
     both (member ar_verf (\<lambda>v. ar_verf_update (\<lambda>_. v)) (xdr_opaque_auth malloc)) (both (member ar_stat (\<lambda>v. ar_stat_update (\<lambda>_. v)) xdr_enum) (accepted_tail decoder))"
proof (intro ext)
  fix xs :: "'s xdr" and ar :: "'p accepted_reply"
  show "xdr_accepted_reply malloc decoder xs ar =
     both (member ar_verf (\<lambda>v. ar_verf_update (\<lambda>_. v)) (xdr_opaque_auth malloc)) (both (member ar_stat (\<lambda>v. ar_stat_update (\<lambda>_. v)) xdr_enum) (accepted_tail decoder)) xs ar"
  proof (cases "xdr_opaque_auth malloc xs (ar_verf ar)")
    case (Some r)
    obtain ok verf xs1 where r: "r = (ok, verf, xs1)" by (cases r)
    show ?thesis
    proof (cases "xdr_enum xs1 (ar_stat ar)")
      case None
      then show ?thesis using Some r by (simp add: xdr_accepted_reply_def both_def member_def Let_def)
    next
      case (Some q)
      obtain ok2 st xs2 where q: "q = (ok2, st, xs2)" by (cases q)
      then show ?thesis
        using Some r \<open>xdr_opaque_auth malloc xs (ar_verf ar) = Some r\<close> enum_fails [of xs1 "ar_stat ar" st xs2]
        by (cases ok2) (simp_all add: xdr_accepted_reply_def both_def member_def accepted_tail_def Let_def)
    qed
  qed (simp add: xdr_accepted_reply_def both_def member_def)
qed

context xdr_stream
begin

text \<open>The codec of the results, when the call succeeded.\<close>

definition param_codec :: "('s, 'p) xdrproc_t option \<Rightarrow> ('p \<Rightarrow> u8 list) \<Rightarrow> 'p \<Rightarrow> 'p \<Rightarrow> bool" where
  "param_codec decoder w p0 p \<longleftrightarrow> (\<exists>proc. decoder = Some proc \<and> encodes proc p (w p) \<and> decodes proc p0 p (w p))"

lemma encodes_nothing: "encodes (\<lambda>xs v. Some (True, v, xs)) v []"
  by (rule encodesI) simp

lemma decodes_nothing: "decodes (\<lambda>xs v. Some (True, v, xs)) v v []"
  by (rule decodesI) simp

lemma tail_encodes:
  assumes "ar_stat ar = SUCCESS \<longrightarrow> param_codec decoder w p0 (ar_param ar)"
  shows "encodes (accepted_tail decoder) ar (if ar_stat ar = SUCCESS then w (ar_param ar) else if ar_stat ar = PROG_MISMATCH then wire_mismatch (ar_mminfo ar) else [])"
proof -
  consider "ar_stat ar = SUCCESS" | "ar_stat ar \<noteq> SUCCESS" "ar_stat ar = PROG_MISMATCH" | "ar_stat ar \<noteq> SUCCESS" "ar_stat ar \<noteq> PROG_MISMATCH" by blast
  then show ?thesis
  proof cases
    case 1
    then obtain proc where p: "decoder = Some proc" "encodes proc (ar_param ar) (w (ar_param ar))" using assms by (auto simp: param_codec_def)
    have "encodes (member ar_param (\<lambda>v. ar_param_update (\<lambda>_. v)) proc) ar (w (ar_param ar))" by (rule encodes_member) (simp_all add: p(2))
    then show ?thesis using 1 p(1) by (auto simp: accepted_tail_def elim: encodes_cong)
  next
    case 2
    have "encodes (member ar_mminfo (\<lambda>v. ar_mminfo_update (\<lambda>_. v)) xdr_mismatch_info) ar (wire_mismatch (ar_mminfo ar))"
      by (rule encodes_member, rule mismatch_codec) simp
    then show ?thesis using 2 by (auto simp: accepted_tail_def elim: encodes_cong)
  next
    case 3
    then show ?thesis using encodes_nothing [of ar] by (auto simp: accepted_tail_def elim: encodes_cong)
  qed
qed

lemma tail_decodes:
  assumes "ar_stat ar = SUCCESS \<longrightarrow> param_codec decoder w (ar_param ar1) (ar_param ar)" "ar_stat ar1 = ar_stat ar" "ar_verf ar1 = ar_verf ar"
    "ar_stat ar \<noteq> SUCCESS \<longrightarrow> ar_param ar1 = ar_param ar" "ar_stat ar \<noteq> PROG_MISMATCH \<longrightarrow> ar_mminfo ar1 = ar_mminfo ar"
  shows "decodes (accepted_tail decoder) ar1 ar (if ar_stat ar = SUCCESS then w (ar_param ar) else if ar_stat ar = PROG_MISMATCH then wire_mismatch (ar_mminfo ar) else [])"
proof -
  have ne: "SUCCESS \<noteq> PROG_MISMATCH" by (simp add: SUCCESS_def PROG_MISMATCH_def)
  consider "ar_stat ar = SUCCESS" | "ar_stat ar \<noteq> SUCCESS" "ar_stat ar = PROG_MISMATCH" | "ar_stat ar \<noteq> SUCCESS" "ar_stat ar \<noteq> PROG_MISMATCH" by blast
  then show ?thesis
  proof cases
    case 1
    then obtain proc where p: "decoder = Some proc" "decodes proc (ar_param ar1) (ar_param ar) (w (ar_param ar))" using assms(1) by (auto simp: param_codec_def)
    have "decodes (member ar_param (\<lambda>v. ar_param_update (\<lambda>_. v)) proc) ar1 ar (w (ar_param ar))"
      by (rule decodes_member, rule p(2)) (use 1 assms ne in simp)
    then show ?thesis using 1 p(1) assms(2) by (auto simp: accepted_tail_def elim: decodes_cong)
  next
    case 2
    have "decodes (member ar_mminfo (\<lambda>v. ar_mminfo_update (\<lambda>_. v)) xdr_mismatch_info) ar1 ar (wire_mismatch (ar_mminfo ar))"
      by (rule decodes_member, rule mismatch_codec) (use 2 assms in simp)
    then show ?thesis using 2 assms(2) ne by (auto simp: accepted_tail_def elim: decodes_cong)
  next
    case 3
    then have "ar1 = ar" using assms by simp
    then show ?thesis using decodes_nothing [of ar] 3 by (auto simp: accepted_tail_def elim: decodes_cong)
  qed
qed

lemma accepted_codec:
  assumes "auth_ok (ar_verf ar)"
  shows "ar_stat ar = SUCCESS \<longrightarrow> param_codec decoder w p0 (ar_param ar) \<Longrightarrow> encodes (xdr_accepted_reply malloc decoder) ar (wire_accepted w ar)"
    "ar_stat ar = SUCCESS \<longrightarrow> param_codec decoder w (ar_param ar0) (ar_param ar) \<Longrightarrow> oa_data (ar_verf ar0) = None \<Longrightarrow> oa_data_len (ar_verf ar0) = 0
     \<Longrightarrow> ar_stat ar \<noteq> SUCCESS \<longrightarrow> ar_param ar0 = ar_param ar \<Longrightarrow> ar_stat ar \<noteq> PROG_MISMATCH \<longrightarrow> ar_mminfo ar0 = ar_mminfo ar
     \<Longrightarrow> \<forall>n \<le> 400. malloc n \<Longrightarrow> decodes (xdr_accepted_reply malloc decoder) ar0 ar (wire_accepted w ar)"
proof -
  assume p: "ar_stat ar = SUCCESS \<longrightarrow> param_codec decoder w p0 (ar_param ar)"
  show "encodes (xdr_accepted_reply malloc decoder) ar (wire_accepted w ar)"
    unfolding accepted_eq wire_accepted_def
    by (rule encodes_both, rule encodes_member, rule encodes_auth, rule assms, simp)
      (rule encodes_both, rule encodes_member, rule enum_codec, simp, rule tail_encodes [OF p])
next
  assume a: "ar_stat ar = SUCCESS \<longrightarrow> param_codec decoder w (ar_param ar0) (ar_param ar)" "oa_data (ar_verf ar0) = None" "oa_data_len (ar_verf ar0) = 0"
    "ar_stat ar \<noteq> SUCCESS \<longrightarrow> ar_param ar0 = ar_param ar" "ar_stat ar \<noteq> PROG_MISMATCH \<longrightarrow> ar_mminfo ar0 = ar_mminfo ar" "\<forall>n \<le> 400. malloc n"
  define ar1 where "ar1 = ar0\<lparr>ar_verf := ar_verf ar\<rparr>"
  define ar2 where "ar2 = ar1\<lparr>ar_stat := ar_stat ar\<rparr>"
  have 1: "decodes (member ar_verf (\<lambda>v. ar_verf_update (\<lambda>_. v)) (xdr_opaque_auth malloc)) ar0 ar1 (wire_auth (ar_verf ar))"
    by (rule decodes_member, rule decodes_auth [OF assms]) (simp_all add: a ar1_def)
  have 2: "decodes (member ar_stat (\<lambda>v. ar_stat_update (\<lambda>_. v)) xdr_enum) ar1 ar2 (be32 (ar_stat ar))"
    by (rule decodes_member, rule enum_codec) (simp add: ar2_def)
  have "decodes (accepted_tail decoder) ar2 ar (if ar_stat ar = SUCCESS then w (ar_param ar) else if ar_stat ar = PROG_MISMATCH then wire_mismatch (ar_mminfo ar) else [])"
    by (rule tail_decodes) (use a in \<open>simp_all add: ar1_def ar2_def\<close>)
  then show "decodes (xdr_accepted_reply malloc decoder) ar0 ar (wire_accepted w ar)"
    unfolding accepted_eq wire_accepted_def using 1 2 by (blast intro: decodes_both)
qed

text \<open>A structure whose discriminant is stored after the union was filtered.\<close>

lemma encodes_stored:
  assumes "encodes (xdr_union choices dfault) (d, u) bs" "\<And>xs xs'. xdr_union choices dfault xs (d, u) = Some (True, (d, u), xs') \<Longrightarrow> f xs v = Some (True, v, xs')"
  shows "encodes f v bs"
proof (rule encodesI)
  fix xs assume e: "enc xs" and r: "length bs \<le> room (extra xs)"
  obtain xs' where "xdr_union choices dfault xs (d, u) = Some (True, (d, u), xs')" "enc xs'" "out (extra xs') = out (extra xs) @ bs" "room (extra xs') = room (extra xs) - length bs"
    by (rule encodesE [OF assms(1) e r])
  then show "\<exists>xs'. f xs v = Some (True, v, xs') \<and> enc xs' \<and> out (extra xs') = out (extra xs) @ bs \<and> room (extra xs') = room (extra xs) - length bs"
    using assms(2) by blast
qed

lemma decodes_stored:
  assumes "decodes (xdr_union choices dfault) (d0, u0) (d, u) bs"
    "\<And>xs xs'. xdr_union choices dfault xs (d0, u0) = Some (True, (d, u), xs') \<Longrightarrow> f xs v0 = Some (True, v, xs')"
  shows "decodes f v0 v bs"
proof (rule decodesI)
  fix xs r assume d: "dec xs" and i: "inp (extra xs) = bs @ r"
  obtain xs' where "xdr_union choices dfault xs (d0, u0) = Some (True, (d, u), xs')" "dec xs'" "inp (extra xs') = r"
    by (rule decodesE [OF assms(1) d i])
  then show "\<exists>xs'. f xs v0 = Some (True, v, xs') \<and> dec xs' \<and> inp (extra xs') = r" using assms(2) by blast
qed

lemma rejected_codec:
  assumes "rr_stat rr = RPC_MISMATCH \<or> rr_stat rr = AUTH_ERROR"
  shows "encodes xdr_rejected_reply rr (wire_rejected rr)"
    "rr_stat rr = RPC_MISMATCH \<longrightarrow> rd_reason (rr_d rr0) = rd_reason (rr_d rr) \<Longrightarrow> rr_stat rr \<noteq> RPC_MISMATCH \<longrightarrow> rd_mminfo (rr_d rr0) = rd_mminfo (rr_d rr)
     \<Longrightarrow> decodes xdr_rejected_reply rr0 rr (wire_rejected rr)"
proof -
  have ne: "RPC_MISMATCH \<noteq> AUTH_ERROR" by (simp add: RPC_MISMATCH_def AUTH_ERROR_def)
  define bs where "bs = (if rr_stat rr = RPC_MISMATCH then wire_mismatch (rd_mminfo (rr_d rr)) else be32 (rd_reason (rr_d rr)))"
  define proc where "proc = (if rr_stat rr = RPC_MISMATCH then member rd_mminfo (\<lambda>v. rd_mminfo_update (\<lambda>_. v)) xdr_mismatch_info
    else member rd_reason (\<lambda>v. rd_reason_update (\<lambda>_. v)) xdr_enum :: ('s, reject_data) xdrproc_t)"
  have c: "union_choice reject_dscrm (rr_stat rr) = Some proc" using assms ne by (auto simp: reject_dscrm_def proc_def)
  have e: "encodes proc (rr_d rr) bs" unfolding proc_def bs_def
    by (auto intro!: encodes_member mismatch_codec enum_codec)
  show "encodes xdr_rejected_reply rr (wire_rejected rr)"
    unfolding wire_rejected_def bs_def [symmetric]
    by (rule encodes_stored [OF union_codec(1) [OF c e, where dfault = None]]) (simp add: xdr_rejected_reply_def)
  assume a: "rr_stat rr = RPC_MISMATCH \<longrightarrow> rd_reason (rr_d rr0) = rd_reason (rr_d rr)" "rr_stat rr \<noteq> RPC_MISMATCH \<longrightarrow> rd_mminfo (rr_d rr0) = rd_mminfo (rr_d rr)"
  have d: "decodes proc (rr_d rr0) (rr_d rr) bs"
  proof (cases "rr_stat rr = RPC_MISMATCH")
    case True
    then show ?thesis unfolding proc_def bs_def using a(1) by simp (rule decodes_member, rule mismatch_codec, simp)
  next
    case False
    then show ?thesis unfolding proc_def bs_def using a(2) by simp (rule decodes_member, rule enum_codec, simp)
  qed
  show "decodes xdr_rejected_reply rr0 rr (wire_rejected rr)"
    unfolding wire_rejected_def bs_def [symmetric]
    by (rule decodes_stored [OF union_codec(2) [OF c d, where dfault = None and ?d0.0 = "rr_stat rr0"]]) (simp add: xdr_rejected_reply_def)
qed

end

section \<open>Whole messages\<close>

text \<open>Well-formed messages, and a structure ready to receive one: authentication data that are to be decoded are empty, and
  the members the message does not use are those of the message.\<close>

definition msg_ok :: "'p rpc_msg \<Rightarrow> bool" where
  "msg_ok m \<longleftrightarrow>
     msg_type m = CALL \<and> auth_ok (cb_cred (msg_call m)) \<and> auth_ok (cb_verf (msg_call m)) \<or>
     msg_type m = REPLY \<and> (rb_stat (msg_reply m) = MSG_ACCEPTED \<and> auth_ok (ar_verf (rb_accepted (msg_reply m))) \<or>
       rb_stat (msg_reply m) = MSG_DENIED \<and> rr_stat (rb_rejected (msg_reply m)) \<in> {RPC_MISMATCH, AUTH_ERROR})"

definition auth_empty :: "opaque_auth \<Rightarrow> bool" where
  "auth_empty oa \<longleftrightarrow> oa_data oa = None \<and> oa_data_len oa = 0"

definition accepted_ready :: "'p accepted_reply \<Rightarrow> 'p accepted_reply \<Rightarrow> bool" where
  "accepted_ready ar0 ar \<longleftrightarrow> auth_empty (ar_verf ar0) \<and> (ar_stat ar = SUCCESS \<or> ar_param ar0 = ar_param ar) \<and> (ar_stat ar = PROG_MISMATCH \<or> ar_mminfo ar0 = ar_mminfo ar)"

definition rejected_ready :: "rejected_reply \<Rightarrow> rejected_reply \<Rightarrow> bool" where
  "rejected_ready rr0 rr \<longleftrightarrow> (if rr_stat rr = RPC_MISMATCH then rd_reason (rr_d rr0) = rd_reason (rr_d rr) else rd_mminfo (rr_d rr0) = rd_mminfo (rr_d rr))"

definition msg_ready :: "'p rpc_msg \<Rightarrow> 'p rpc_msg \<Rightarrow> bool" where
  "msg_ready m0 m \<longleftrightarrow>
     (if msg_type m = CALL then msg_reply m0 = msg_reply m \<and> auth_empty (cb_cred (msg_call m0)) \<and> auth_empty (cb_verf (msg_call m0))
      else msg_call m0 = msg_call m \<and>
        (if rb_stat (msg_reply m) = MSG_ACCEPTED
         then rb_rejected (msg_reply m0) = rb_rejected (msg_reply m) \<and> accepted_ready (rb_accepted (msg_reply m0)) (rb_accepted (msg_reply m))
         else rb_accepted (msg_reply m0) = rb_accepted (msg_reply m) \<and> rejected_ready (rb_rejected (msg_reply m0)) (rb_rejected (msg_reply m))))"

context xdr_stream
begin

lemma reply_codec:
  fixes rb rb0 :: "'p reply_body"
  assumes ok: "rb_stat rb = MSG_ACCEPTED \<and> auth_ok (ar_verf (rb_accepted rb)) \<or> rb_stat rb = MSG_DENIED \<and> rr_stat (rb_rejected rb) \<in> {RPC_MISMATCH, AUTH_ERROR}"
    and p: "\<And>p0 p. param_codec decoder w p0 p"
    and bs: "bs = (if rb_stat rb = MSG_ACCEPTED then wire_accepted w (rb_accepted rb) else wire_rejected (rb_rejected rb))"
  shows "encodes (xdr_reply_body malloc decoder) rb (be32 (rb_stat rb) @ bs)"
    "(if rb_stat rb = MSG_ACCEPTED then rb_rejected rb0 = rb_rejected rb \<and> accepted_ready (rb_accepted rb0) (rb_accepted rb)
      else rb_accepted rb0 = rb_accepted rb \<and> rejected_ready (rb_rejected rb0) (rb_rejected rb)) \<Longrightarrow> \<forall>n \<le> 400. malloc n
     \<Longrightarrow> decodes (xdr_reply_body malloc decoder) rb0 rb (be32 (rb_stat rb) @ bs)"
proof -
  have ne: "MSG_ACCEPTED \<noteq> MSG_DENIED" by (simp add: MSG_ACCEPTED_def MSG_DENIED_def)
  define proc where "proc = (if rb_stat rb = MSG_ACCEPTED then member rb_accepted (\<lambda>v. rb_accepted_update (\<lambda>_. v)) (xdr_accepted_reply malloc decoder)
    else member rb_rejected (\<lambda>v. rb_rejected_update (\<lambda>_. v)) xdr_rejected_reply :: ('s, 'p reply_body) xdrproc_t)"
  have c: "union_choice (reply_dscrm malloc decoder) (rb_stat rb) = Some proc" using ok ne by (auto simp: reply_dscrm_def proc_def)
  have e: "encodes proc rb bs"
  proof (cases "rb_stat rb = MSG_ACCEPTED")
    case True
    then show ?thesis unfolding proc_def bs using ok ne p by (auto intro!: encodes_member accepted_codec)
  next
    case False
    then show ?thesis unfolding proc_def bs using ok by (auto intro!: encodes_member rejected_codec)
  qed
  show "encodes (xdr_reply_body malloc decoder) rb (be32 (rb_stat rb) @ bs)"
    by (rule encodes_stored [OF union_codec(1) [OF c e, where dfault = None]]) (simp add: xdr_reply_body_def)
  assume r: "if rb_stat rb = MSG_ACCEPTED then rb_rejected rb0 = rb_rejected rb \<and> accepted_ready (rb_accepted rb0) (rb_accepted rb)
      else rb_accepted rb0 = rb_accepted rb \<and> rejected_ready (rb_rejected rb0) (rb_rejected rb)" and m: "\<forall>n \<le> 400. malloc n"
  have d: "decodes proc rb0 (rb\<lparr>rb_stat := rb_stat rb0\<rparr>) bs"
  proof (cases "rb_stat rb = MSG_ACCEPTED")
    case True
    have "decodes (xdr_accepted_reply malloc decoder) (rb_accepted rb0) (rb_accepted rb) (wire_accepted w (rb_accepted rb))"
      using True ok ne p r m by (intro accepted_codec(2)) (auto simp: accepted_ready_def auth_empty_def)
    then show ?thesis unfolding proc_def bs using True r by simp (rule decodes_member, assumption, simp)
  next
    case False
    have "decodes xdr_rejected_reply (rb_rejected rb0) (rb_rejected rb) (wire_rejected (rb_rejected rb))"
      using False ok r by (intro rejected_codec(2)) (auto simp: rejected_ready_def split: if_splits)
    then show ?thesis unfolding proc_def bs using False r by simp (rule decodes_member, assumption, simp)
  qed
  show "decodes (xdr_reply_body malloc decoder) rb0 rb (be32 (rb_stat rb) @ bs)"
    by (rule decodes_stored [OF union_codec(2) [OF c d, where dfault = None and ?d0.0 = "rb_stat rb0"]]) (simp add: xdr_reply_body_def)
qed

lemma msg_codec:
  fixes m m0 :: "'p rpc_msg"
  assumes ok: "msg_ok m" and p: "\<And>p0 p. param_codec decoder w p0 p"
  shows "encodes (xdr_rpc_msg malloc decoder) m (wire_msg w m)"
    "msg_ready m0 m \<Longrightarrow> \<forall>n \<le> 400. malloc n \<Longrightarrow> decodes (xdr_rpc_msg malloc decoder) m0 m (wire_msg w m)"
proof -
  have ne: "CALL \<noteq> REPLY" by (simp add: CALL_def REPLY_def)
  define bs where "bs = (if msg_type m = CALL then wire_call (msg_call m) else be32 (rb_stat (msg_reply m)) @
    (if rb_stat (msg_reply m) = MSG_ACCEPTED then wire_accepted w (rb_accepted (msg_reply m)) else wire_rejected (rb_rejected (msg_reply m))))"
  have w: "wire_msg w m = be32 (msg_xid m) @ be32 (msg_type m) @ bs" by (simp add: wire_msg_def bs_def)
  define proc where "proc = (if msg_type m = CALL then member msg_call (\<lambda>v. msg_call_update (\<lambda>_. v)) (xdr_call_body malloc)
    else member msg_reply (\<lambda>v. msg_reply_update (\<lambda>_. v)) (xdr_reply_body malloc decoder) :: ('s, 'p rpc_msg) xdrproc_t)"
  have c: "union_choice (msg_dscrm malloc decoder) (msg_type m) = Some proc" using ok ne by (auto simp: msg_dscrm_def proc_def msg_ok_def)
  have e: "encodes proc m bs"
  proof (cases "msg_type m = CALL")
    case True
    then show ?thesis unfolding proc_def bs_def using ok ne by (auto simp: msg_ok_def intro!: encodes_member call_codec)
  next
    case False
    have k: "encodes (xdr_reply_body malloc decoder) (msg_reply m) (be32 (rb_stat (msg_reply m)) @
      (if rb_stat (msg_reply m) = MSG_ACCEPTED then wire_accepted w (rb_accepted (msg_reply m)) else wire_rejected (rb_rejected (msg_reply m))))"
      using False ok by (intro reply_codec(1) [OF _ p refl]) (auto simp: msg_ok_def)
    show ?thesis unfolding proc_def bs_def if_not_P [OF False] by (rule encodes_member, rule k, simp)
  qed
  show "encodes (xdr_rpc_msg malloc decoder) m (wire_msg w m)"
  proof (rule encodesI)
    fix xs assume x: "enc xs" and r: "length (wire_msg w m) \<le> room (extra xs)"
    obtain xs1 xs2 where "xdr_u_int xs (msg_xid m) = Some (True, msg_xid m, xs1)" "xdr_union (msg_dscrm malloc decoder) None xs1 (msg_type m, m) = Some (True, (msg_type m, m), xs2)"
      "enc xs2" "out (extra xs2) = out (extra xs) @ be32 (msg_xid m) @ be32 (msg_type m) @ bs" "room (extra xs2) = room (extra xs) - length (be32 (msg_xid m) @ be32 (msg_type m) @ bs)"
      by (rule encodes_u_int_then [OF x r [unfolded w] union_codec(1) [OF c e, where dfault = None]])
    then show "\<exists>xs'. xdr_rpc_msg malloc decoder xs m = Some (True, m, xs') \<and> enc xs' \<and> out (extra xs') = out (extra xs) @ wire_msg w m \<and> room (extra xs') = room (extra xs) - length (wire_msg w m)"
      by (simp add: xdr_rpc_msg_def w Let_def)
  qed
  assume r: "msg_ready m0 m" and al: "\<forall>n \<le> 400. malloc n"
  define m1 where "m1 = m0\<lparr>msg_xid := msg_xid m\<rparr>"
  have d: "decodes proc m1 (m\<lparr>msg_type := msg_type m0\<rparr>) bs"
  proof (cases "msg_type m = CALL")
    case True
    then have "decodes (xdr_call_body malloc) (msg_call m1) (msg_call m) (wire_call (msg_call m))"
      using ok ne r al by (intro call_codec(2)) (auto simp: msg_ok_def msg_ready_def auth_empty_def m1_def)
    then show ?thesis unfolding proc_def bs_def using True r by simp (rule decodes_member, assumption, simp add: m1_def msg_ready_def)
  next
    case False
    have k: "decodes (xdr_reply_body malloc decoder) (msg_reply m1) (msg_reply m) (be32 (rb_stat (msg_reply m)) @
      (if rb_stat (msg_reply m) = MSG_ACCEPTED then wire_accepted w (rb_accepted (msg_reply m)) else wire_rejected (rb_rejected (msg_reply m))))"
      using False ok r by (intro reply_codec(2) [OF _ p refl _ al]) (auto simp: msg_ok_def msg_ready_def m1_def split: if_splits)
    show ?thesis unfolding proc_def bs_def if_not_P [OF False] by (rule decodes_member, rule k) (use False r in \<open>simp add: m1_def msg_ready_def\<close>)
  qed
  show "decodes (xdr_rpc_msg malloc decoder) m0 m (wire_msg w m)"
  proof (rule decodesI)
    fix xs r assume x: "dec xs" and i: "inp (extra xs) = wire_msg w m @ r"
    obtain xs1 xs2 where "xdr_u_int xs (msg_xid m0) = Some (True, msg_xid m, xs1)"
      "xdr_union (msg_dscrm malloc decoder) None xs1 (msg_type m0, m1) = Some (True, (msg_type m, m\<lparr>msg_type := msg_type m0\<rparr>), xs2)" "dec xs2" "inp (extra xs2) = r"
      by (rule decodes_u_int_then [OF x i [unfolded w] union_codec(2) [OF c d, where dfault = None and ?d0.0 = "msg_type m0"]])
    then show "\<exists>xs'. xdr_rpc_msg malloc decoder xs m0 = Some (True, m, xs') \<and> dec xs' \<and> inp (extra xs') = r"
      by (simp add: xdr_rpc_msg_def m1_def Let_def)
  qed
qed

end

context xdr_seekable
begin

definition goes :: "'s xdr \<Rightarrow> (bool \<times> 'v \<times> 's xdr) option \<Rightarrow> bool" where
  "goes xs res \<longleftrightarrow> (\<forall>ok v xs'. res = Some (ok, v, xs') \<longrightarrow> step xs xs')"

lemma movesI: "(\<And>xs v. on xs \<Longrightarrow> goes xs (f xs v)) \<Longrightarrow> moves f"
  unfolding moves_def goes_def by blast

lemma goes_None [simp]: "goes xs None"
  by (simp add: goes_def)

lemma goes_ret: "step xs ys \<Longrightarrow> goes xs (Some (ok, v, ys))"
  by (simp add: goes_def)

lemma goes_last: "moves f \<Longrightarrow> step xs ys \<Longrightarrow> goes xs (f ys v)"
  unfolding goes_def moves_def using step_on step_trans by blast

lemma goes_bind:
  assumes "moves f" "step xs ys" "\<And>ok w zs. step xs zs \<Longrightarrow> goes xs (k (ok, w, zs))"
  shows "goes xs (f ys v \<bind> k)"
proof (cases "f ys v")
  case (Some r)
  obtain ok w zs where r: "r = (ok, w, zs)" by (cases r)
  have "step ys zs" using assms(1) step_on [OF assms(2)] Some r unfolding moves_def by blast
  then show ?thesis using assms(3) step_trans [OF assms(2)] Some r by simp
qed (simp add: goes_def)

lemma moves_auth: "moves (xdr_opaque_auth malloc)"
  unfolding xdr_opaque_auth_def
  by (rule movesI) (auto simp: Let_def intro!: goes_bind [OF tidy_moves [OF tidy_enum(1)]] goes_bind [OF tidy_moves [OF tidy_bytes]] goes_ret step_refl)

lemma moves_mismatch: "moves xdr_mismatch_info"
  unfolding xdr_mismatch_info_def by (intro moves_both moves_member tidy_moves tidy_int)

lemma moves_pmap: "moves xdr_pmap"
  unfolding xdr_pmap_def by (intro moves_both moves_member tidy_moves tidy_int)

lemma moves_accepted:
  assumes "\<And>proc. decoder = Some proc \<Longrightarrow> moves proc"
  shows "moves (xdr_accepted_reply malloc decoder)"
proof -
  have "moves (accepted_tail decoder)"
  proof (rule movesI)
    fix xs v assume o: "on xs"
    show "goes xs (accepted_tail decoder xs v)"
    proof (cases decoder)
      case (Some proc)
      then show ?thesis unfolding accepted_tail_def
        by (auto intro!: goes_last moves_member moves_mismatch assms [OF Some] goes_ret step_refl o)
    qed (auto simp: accepted_tail_def intro!: goes_last moves_member moves_mismatch goes_ret step_refl o)
  qed
  then show ?thesis unfolding accepted_eq by (intro moves_both moves_member moves_auth tidy_moves [OF tidy_enum(1)])
qed

lemma moves_rejected: "moves xdr_rejected_reply"
proof -
  have "tidy (xdr_union reject_dscrm None)"
    by (rule tidy_union) (auto simp: reject_dscrm_def intro: moves_member moves_mismatch tidy_moves tidy_enum)
  then show ?thesis unfolding xdr_rejected_reply_def
    by (intro movesI) (auto simp: Let_def intro!: goes_bind [OF tidy_moves] goes_ret step_refl)
qed

lemma moves_reply:
  assumes "\<And>proc. decoder = Some proc \<Longrightarrow> moves proc"
  shows "moves (xdr_reply_body malloc decoder)"
proof -
  have "tidy (xdr_union (reply_dscrm malloc decoder) None)"
    by (rule tidy_union) (auto simp: reply_dscrm_def intro: moves_member moves_accepted [OF assms] moves_rejected)
  then show ?thesis unfolding xdr_reply_body_def
    by (intro movesI) (auto simp: Let_def intro!: goes_bind [OF tidy_moves] goes_ret step_refl)
qed

lemma moves_call: "moves (xdr_call_body malloc)"
  unfolding xdr_call_body_def by (intro moves_both moves_member moves_auth tidy_moves tidy_int)

lemma moves_msg:
  assumes "\<And>proc. decoder = Some proc \<Longrightarrow> moves proc"
  shows "moves (xdr_rpc_msg malloc decoder)"
proof -
  have "tidy (xdr_union (msg_dscrm malloc decoder) None)"
    by (rule tidy_union) (auto simp: msg_dscrm_def intro: moves_member moves_call moves_reply [OF assms])
  then show ?thesis unfolding xdr_rpc_msg_def
    by (intro movesI) (auto simp: Let_def intro!: goes_bind [OF tidy_moves] goes_bind [OF tidy_moves [OF tidy_int(2)]] goes_ret step_refl)
qed

end

section \<open>Properties\<close>

text \<open>C11: a well-formed RPC message goes through a memory stream. A call, a reply to an accepted call with results, with the range of
  supported versions or with any other status, and a reply to a rejected call are encoded as RFC 1831 lays them out, and
  decoding into a structure that is ready for the message gives the message back. The results are those of the port mapper, a port
  number, and the arguments of the port mapper go through as well.\<close>

theorem rpc_msg_roundtrip:
  fixes m m0 :: "u16 rpc_msg"
  assumes "msg_ok m" "msg_ready m0 m" "\<forall>n \<le> 400. malloc n"
  shows "mem_roundtrip (xdr_rpc_msg malloc (Some xdr_u_short)) m m0 (wire_msg (\<lambda>port. be32 (ucast port)) m)
    \<and> mem_roundtrip xdr_pmap pm pm0 (be32 (pm_prog pm) @ be32 (pm_vers pm) @ be32 (pm_prot pm) @ be32 (pm_port pm))"
proof -
  have "mem.param_codec (Some xdr_u_short) (\<lambda>port. be32 (ucast port)) p0 p" for p0 p
    using mem.u_short_codec by (auto simp: mem.param_codec_def)
  moreover have "seek.moves (xdr_rpc_msg malloc (Some (xdr_u_short :: (xdrmem, u16) xdrproc_t)))"
    by (rule seek.moves_msg) (auto intro: seek.tidy_moves seek.tidy_short)
  ultimately show ?thesis
    using assms mem.pmap_codec seek.moves_pmap by (intro conjI mem_roundtripI mem.msg_codec) auto
qed

text \<open>A call of the port mapper with null authentication, received into a blank structure.\<close>

definition blank_reply :: "u16 reply_body" where
  "blank_reply = \<lparr>rb_stat = 0, rb_accepted = \<lparr>ar_verf = opaque_auth_null, ar_stat = 0, ar_param = 0, ar_mminfo = \<lparr>mi_low = 0, mi_high = 0\<rparr>\<rparr>,
     rb_rejected = \<lparr>rr_stat = 0, rr_d = \<lparr>rd_reason = 0, rd_mminfo = \<lparr>mi_low = 0, mi_high = 0\<rparr>\<rparr>\<rparr>\<rparr>"

definition getport_call :: "u16 rpc_msg" where
  "getport_call = \<lparr>msg_xid = 7, msg_type = CALL, msg_call = \<lparr>cb_rpcvers = 2, cb_prog = 100000, cb_vers = 2, cb_proc = 3,
     cb_cred = opaque_auth_null, cb_verf = opaque_auth_null\<lparr>oa_flavor := 1, oa_data := Some [9, 9], oa_data_len := 2\<rparr>\<rparr>, msg_reply = blank_reply\<rparr>"

definition blank_msg :: "u16 rpc_msg" where
  "blank_msg = \<lparr>msg_xid = 0, msg_type = 0, msg_call = \<lparr>cb_rpcvers = 0, cb_prog = 0, cb_vers = 0, cb_proc = 0,
     cb_cred = opaque_auth_null, cb_verf = opaque_auth_null\<rparr>, msg_reply = blank_reply\<rparr>"

theorem rpc_msg_roundtrip_witness:
  "msg_ok getport_call \<and> msg_ready blank_msg getport_call \<and>
   mem_roundtrip (xdr_rpc_msg (\<lambda>n. n \<le> 400) (Some xdr_u_short)) getport_call blank_msg (wire_msg (\<lambda>port. be32 (ucast port)) getport_call)"
proof -
  have ok: "msg_ok getport_call" by (simp add: msg_ok_def getport_call_def auth_ok_def auth_bytes_def opaque_auth_null_def)
  have r: "msg_ready blank_msg getport_call" by (simp add: msg_ready_def getport_call_def blank_msg_def auth_empty_def opaque_auth_null_def)
  show ?thesis using rpc_msg_roundtrip [OF ok r, of "\<lambda>n. n \<le> 400"] ok r by simp
qed

end
