(* ===== verification/Qsort.thy ===== *)
theory Qsort
  imports Prelude "HOL-Library.Monad_Syntax" "HOL-Library.Multiset"
begin

text \<open>
  The C library's sorting and searching: \<^verbatim>\<open>compat/libc/stdlib/qsort.c\<close> and
  \<^verbatim>\<open>compat/libc/stdlib/bsearch.c\<close>.  The array is a list of elements and a pointer into it is the
  index of the element it points to, so that \<^verbatim>\<open>p + es\<close> is the next index and a byte distance is an
  index distance times \<^verbatim>\<open>es\<close>.  Every access is checked: \<^const>\<open>None\<close> is a read or a write outside the
  array, or a byte distance stored in an \<^verbatim>\<open>int\<close> that it does not fit.  The comparison function is
  an argument; the locale \<^verbatim>\<open>comparator\<close> states what the standard demands of it.
\<close>

section \<open>The array\<close>

definition elem :: "'a list \<Rightarrow> nat \<Rightarrow> 'a option" where
  "elem xs i = (if i < length xs then Some (xs ! i) else None)"

definition compare_at :: "('a \<Rightarrow> 'a \<Rightarrow> int) \<Rightarrow> 'a list \<Rightarrow> nat \<Rightarrow> nat \<Rightarrow> int option" where
  "compare_at cmp xs i j = do {x \<leftarrow> elem xs i; y \<leftarrow> elem xs j; Some (cmp x y)}"

text \<open>\<^verbatim>\<open>swap\<close>: whichever width \<^verbatim>\<open>swaptype\<close> selects for the copies, \<^verbatim>\<open>es\<close> bytes change places.\<close>

definition swap :: "'a list \<Rightarrow> nat \<Rightarrow> nat \<Rightarrow> 'a list option" where
  "swap xs i j = do {x \<leftarrow> elem xs i; y \<leftarrow> elem xs j; Some (xs[i := y, j := x])}"

text \<open>\<^verbatim>\<open>swapfunc\<close> on a run of \<open>n\<close> elements, the loop of \<^verbatim>\<open>swapcode\<close>.\<close>

fun swapfunc :: "'a list \<Rightarrow> nat \<Rightarrow> nat \<Rightarrow> nat \<Rightarrow> 'a list option" where
  "swapfunc xs i j n = do {
     ys \<leftarrow> swap xs i j;
     if n - 1 > 0 then swapfunc ys (i + 1) (j + 1) (n - 1) else Some ys}"

declare swapfunc.simps [simp del]

definition vecswap :: "'a list \<Rightarrow> nat \<Rightarrow> nat \<Rightarrow> nat \<Rightarrow> 'a list option" where
  "vecswap xs i j n = (if n > 0 then swapfunc xs i j n else Some xs)"

text \<open>The byte distance of \<open>k\<close> elements, stored in an \<^verbatim>\<open>int\<close>.\<close>

definition c_int :: "nat \<Rightarrow> nat \<Rightarrow> nat option" where
  "c_int es k = (if k * es < 2 ^ 31 then Some k else None)"

text \<open>\<^verbatim>\<open>p -= es\<close>: a pointer may not move below the array.\<close>

definition ptr_back :: "nat \<Rightarrow> nat option" where
  "ptr_back p = (if p = 0 then None else Some (p - 1))"

section \<open>\<^verbatim>\<open>qsort\<close>\<close>

definition med3 :: "('a \<Rightarrow> 'a \<Rightarrow> int) \<Rightarrow> 'a list \<Rightarrow> nat \<Rightarrow> nat \<Rightarrow> nat \<Rightarrow> nat option" where
  "med3 cmp xs a b c = do {
     ab \<leftarrow> compare_at cmp xs a b;
     bc \<leftarrow> compare_at cmp xs b c;
     if ab < 0
     then (if bc < 0 then Some b
           else do {ac \<leftarrow> compare_at cmp xs a c; Some (if ac < 0 then c else a)})
     else (if bc > 0 then Some b
           else do {ac \<leftarrow> compare_at cmp xs a c; Some (if ac < 0 then a else c)})}"

text \<open>The insertion sort of short arrays: the inner loop sinks one element, the outer one runs over the array.\<close>

fun insert_loop :: "('a \<Rightarrow> 'a \<Rightarrow> int) \<Rightarrow> 'a list \<Rightarrow> nat \<Rightarrow> nat \<Rightarrow> 'a list option" where
  "insert_loop cmp xs a pl =
     (if pl > a
      then do {
        r \<leftarrow> compare_at cmp xs (pl - 1) pl;
        if r > 0 then do {ys \<leftarrow> swap xs pl (pl - 1); insert_loop cmp ys a (pl - 1)} else Some xs}
      else Some xs)"

declare insert_loop.simps [simp del]

function insertion_loop :: "('a \<Rightarrow> 'a \<Rightarrow> int) \<Rightarrow> 'a list \<Rightarrow> nat \<Rightarrow> nat \<Rightarrow> nat \<Rightarrow> 'a list option" where
  "insertion_loop cmp xs a n pm =
     (if pm < a + n then do {ys \<leftarrow> insert_loop cmp xs a pm; insertion_loop cmp ys a n (pm + 1)} else Some xs)"
  by auto
termination by (relation "measure (\<lambda>(_, _, a, n, pm). a + n - pm)") auto

declare insertion_loop.simps [simp del]

definition insertion_sort :: "('a \<Rightarrow> 'a \<Rightarrow> int) \<Rightarrow> 'a list \<Rightarrow> nat \<Rightarrow> nat \<Rightarrow> 'a list option" where
  "insertion_sort cmp xs a n = insertion_loop cmp xs a n (a + 1)"

definition choose_pivot :: "('a \<Rightarrow> 'a \<Rightarrow> int) \<Rightarrow> nat \<Rightarrow> 'a list \<Rightarrow> nat \<Rightarrow> nat \<Rightarrow> nat option" where
  "choose_pivot cmp es xs a n =
     (let pm = a + n div 2 in
      if n > 7
      then (let pl = a; pn = a + (n - 1) in
            if n > 40
            then do {
              d \<leftarrow> c_int es (n div 8);
              pl \<leftarrow> med3 cmp xs pl (pl + d) (pl + 2 * d);
              pm \<leftarrow> med3 cmp xs (pm - d) pm (pm + d);
              pn \<leftarrow> med3 cmp xs (pn - 2 * d) (pn - d) pn;
              med3 cmp xs pl pm pn}
            else med3 cmp xs pl pm pn)
      else Some pm)"

text \<open>
  The two inner loops of the partition.  The first moves \<open>pb\<close> up over elements not above the pivot
  and collects those equal to it at the left end; the second moves \<open>pc\<close> down and collects the equal
  ones at the right end.
\<close>

function scan_up :: "('a \<Rightarrow> 'a \<Rightarrow> int) \<Rightarrow> 'a list \<Rightarrow> nat \<Rightarrow> nat \<Rightarrow> nat \<Rightarrow> nat \<Rightarrow> bool
    \<Rightarrow> ('a list \<times> nat \<times> nat \<times> bool) option" where
  "scan_up cmp xs a pa pb pc swap_cnt =
     (if pb \<le> pc
      then do {
        r \<leftarrow> compare_at cmp xs pb a;
        if r \<le> 0
        then (if r = 0
              then do {ys \<leftarrow> swap xs pa pb; scan_up cmp ys a (pa + 1) (pb + 1) pc True}
              else scan_up cmp xs a pa (pb + 1) pc swap_cnt)
        else Some (xs, pa, pb, swap_cnt)}
      else Some (xs, pa, pb, swap_cnt))"
  by auto
termination by (relation "measure (\<lambda>(_, _, _, _, pb, pc, _). pc + 1 - pb)") auto

declare scan_up.simps [simp del]

function scan_down :: "('a \<Rightarrow> 'a \<Rightarrow> int) \<Rightarrow> 'a list \<Rightarrow> nat \<Rightarrow> nat \<Rightarrow> nat \<Rightarrow> nat \<Rightarrow> bool
    \<Rightarrow> ('a list \<times> nat \<times> nat \<times> bool) option" where
  "scan_down cmp xs a pb pc pd swap_cnt =
     (if pb \<le> pc
      then do {
        r \<leftarrow> compare_at cmp xs pc a;
        if r \<ge> 0
        then (if r = 0
              then do {
                ys \<leftarrow> swap xs pc pd;
                pd' \<leftarrow> ptr_back pd;
                pc' \<leftarrow> ptr_back pc;
                scan_down cmp ys a pb pc' pd' True}
              else do {pc' \<leftarrow> ptr_back pc; scan_down cmp xs a pb pc' pd swap_cnt})
        else Some (xs, pc, pd, swap_cnt)}
      else Some (xs, pc, pd, swap_cnt))"
  by auto
termination by (relation "measure (\<lambda>(_, _, _, _, pc, _, _). pc)") (auto simp: ptr_back_def split: if_splits)

declare scan_down.simps [simp del]

text \<open>Both loops only close the gap between \<open>pb\<close> and \<open>pc\<close>.\<close>

lemma swap_SomeD: "swap xs i j = Some ys \<Longrightarrow> i < length xs \<and> j < length xs \<and> ys = xs[i := xs ! j, j := xs ! i]"
  by (auto simp: swap_def elem_def bind_eq_Some_conv split: if_splits)

lemma scan_up_bounds:
  "scan_up cmp xs a pa pb pc cnt = Some (ys, pa', pb', cnt') \<Longrightarrow>
     pb \<le> pb' \<and> pa \<le> pa' \<and> (pb \<le> pc + 1 \<longrightarrow> pb' \<le> pc + 1)
     \<and> (pb' \<le> pc \<longrightarrow> (\<exists>r > 0. compare_at cmp ys pb' a = Some r))"
proof (induction cmp xs a pa pb pc cnt rule: scan_up.induct)
  case (1 cmp xs a pa pb pc cnt)
  then show ?case
    by (subst (asm) (3) scan_up.simps) (force simp: bind_eq_Some_conv split: if_splits)
qed

lemma scan_down_bounds:
  "scan_down cmp xs a pb pc pd cnt = Some (ys, pc', pd', cnt') \<Longrightarrow>
     pc' \<le> pc \<and> pd' \<le> pd \<and> (pb \<le> pc + 1 \<longrightarrow> pb \<le> pc' + 1) \<and> (pc \<le> pd \<longrightarrow> pc' \<le> pd')
     \<and> (pb \<le> pc' \<longrightarrow> (\<exists>r < 0. compare_at cmp ys pc' a = Some r))"
proof (induction cmp xs a pb pc pd cnt rule: scan_down.induct)
  case (1 cmp xs a pb pc pd cnt)
  then show ?case
    by (subst (asm) (3) scan_down.simps) (force simp: bind_eq_Some_conv ptr_back_def split: if_splits)
qed

lemma scan_down_keeps:
  "scan_down cmp xs a pb pc pd cnt = Some (ys, pc', pd', cnt') \<Longrightarrow> pc \<le> pd
    \<Longrightarrow> length ys = length xs \<and> (\<forall>i \<le> pc'. ys ! i = xs ! i)"
proof (induction cmp xs a pb pc pd cnt rule: scan_down.induct)
  case (1 cmp xs a pb pc pd cnt)
  from 1(3) consider (stop) "ys = xs"
    | (swap) zs where "pb \<le> pc" "compare_at cmp xs pc a = Some 0" "swap xs pc pd = Some zs" "pc \<noteq> 0" "pd \<noteq> 0"
        "scan_down cmp zs a pb (pc - 1) (pd - 1) True = Some (ys, pc', pd', cnt')"
    | (move) r where "pb \<le> pc" "compare_at cmp xs pc a = Some r" "0 < r" "pc \<noteq> 0"
        "scan_down cmp xs a pb (pc - 1) pd cnt = Some (ys, pc', pd', cnt')"
    by (subst (asm) scan_down.simps) (auto simp: bind_eq_Some_conv ptr_back_def split: if_splits)
  then show ?case
  proof cases
    case swap
    then have "length ys = length zs \<and> (\<forall>i \<le> pc'. ys ! i = zs ! i)"
      using 1(1) [OF swap(1,2) _ refl swap(3), of "pd - 1" "pc - 1"] 1(4) by (simp add: ptr_back_def)
    moreover have "pc' < pc" using scan_down_bounds [OF swap(6)] swap(4) by auto
    ultimately show ?thesis using swap_SomeD [OF swap(3)] 1(4) by simp
  next
    case move
    then show ?thesis using 1(2) [OF move(1,2), of "pc - 1"] 1(4) by (simp add: ptr_back_def)
  qed simp
qed

text \<open>The two loops never stop at the same element: the first stops at one above the pivot, the second at one below.\<close>

lemma scans_cross:
  assumes "scan_up cmp xs a pa pb pc cnt = Some (ys, pa', pb', cnt')"
    and "scan_down cmp ys a pb' pc pd cnt' = Some (zs, pc', pd', cnt'')"
    and "a < pb" "pc \<le> pd"
  shows "pb' \<noteq> pc'"
proof
  assume eq: "pb' = pc'"
  note up = scan_up_bounds [OF assms(1)] and down = scan_down_bounds [OF assms(2)]
  have "compare_at cmp zs pc' a = compare_at cmp ys pc' a"
    using scan_down_keeps [OF assms(2) assms(4)] up assms(3) eq by (simp add: compare_at_def elem_def)
  then show False using up down eq by auto
qed

function part_loop :: "('a \<Rightarrow> 'a \<Rightarrow> int) \<Rightarrow> 'a list \<Rightarrow> nat \<Rightarrow> nat \<Rightarrow> nat \<Rightarrow> nat \<Rightarrow> nat \<Rightarrow> bool
    \<Rightarrow> ('a list \<times> nat \<times> nat \<times> nat \<times> nat \<times> bool) option" where
  "part_loop cmp xs a pa pb pc pd swap_cnt = do {
     (xs, pa, pb, swap_cnt) \<leftarrow> scan_up cmp xs a pa pb pc swap_cnt;
     (xs, pc, pd, swap_cnt) \<leftarrow> scan_down cmp xs a pb pc pd swap_cnt;
     if pb > pc then Some (xs, pa, pb, pc, pd, swap_cnt)
     else do {
       xs \<leftarrow> swap xs pb pc;
       pc' \<leftarrow> ptr_back pc;
       part_loop cmp xs a pa (pb + 1) pc' pd True}}"
  by auto
termination
  by (relation "measure (\<lambda>(_, _, _, _, pb, pc, _, _). pc + 1 - pb)")
    (auto simp: ptr_back_def dest!: scan_up_bounds scan_down_bounds split: if_splits)

declare part_loop.simps [simp del]

lemma part_loop_bounds:
  "part_loop cmp xs a pa pb pc pd cnt = Some (ys, pa', pb', pc', pd', cnt')
    \<Longrightarrow> a < pb \<Longrightarrow> pb \<le> pc + 1 \<Longrightarrow> pc \<le> pd \<Longrightarrow> pb' \<le> pc + 1 \<and> pa \<le> pa' \<and> pb \<le> pc' + 1 \<and> pd' \<le> pd"
proof (induction cmp xs a pa pb pc pd cnt rule: part_loop.induct)
  case (1 cmp xs a pa pb pc pd cnt)
  from 1(2) obtain xs1 pa1 pb1 c1 xs2 pc2 pd2 c2
    where up: "scan_up cmp xs a pa pb pc cnt = Some (xs1, pa1, pb1, c1)"
      and down: "scan_down cmp xs1 a pb1 pc pd c1 = Some (xs2, pc2, pd2, c2)"
    by (subst (asm) part_loop.simps) (auto simp: bind_eq_Some_conv)
  note b = scan_up_bounds [OF up] scan_down_bounds [OF down] and ne = scans_cross [OF up down 1(3) 1(5)]
  show ?case
  proof (cases "pb1 > pc2")
    case True
    then show ?thesis using 1(2-5) b up down by (subst (asm) part_loop.simps) auto
  next
    case False
    then obtain xs3 where sw: "swap xs2 pb1 pc2 = Some xs3" and "pc2 \<noteq> 0"
      and rec: "part_loop cmp xs3 a pa1 (pb1 + 1) (pc2 - 1) pd2 True = Some (ys, pa', pb', pc', pd', cnt')"
      using 1(2) up down by (subst (asm) part_loop.simps) (auto simp: bind_eq_Some_conv ptr_back_def split: if_splits)
    have "ptr_back pc2 = Some (pc2 - 1)" using \<open>pc2 \<noteq> 0\<close> by (simp add: ptr_back_def)
    moreover have "a < pb1 + 1" "pb1 + 1 \<le> pc2 - 1 + 1" "pc2 - 1 \<le> pd2"
      using b ne False \<open>pc2 \<noteq> 0\<close> 1(3-5) by auto
    ultimately have "pb' \<le> pc2 - 1 + 1 \<and> pa1 \<le> pa' \<and> pb1 + 1 \<le> pc' + 1 \<and> pd' \<le> pd2"
      using 1(1) [OF up refl refl refl down refl refl refl False sw _ rec] by simp
    then show ?thesis using b \<open>pc2 \<noteq> 0\<close> by simp
  qed
qed

text \<open>
  With elements of size 0 no pointer ever moves: short arrays are left alone at once, and the first
  inner loop of the partition, which compares the pivot with itself, never ends.
\<close>

function qsort :: "('a \<Rightarrow> 'a \<Rightarrow> int) \<Rightarrow> nat \<Rightarrow> 'a list \<Rightarrow> nat \<Rightarrow> nat \<Rightarrow> 'a list option" where
  "qsort cmp es xs a n =
     (if es = 0 then (if n < 7 then Some xs else None)
      else if n < 7 then insertion_sort cmp xs a n
      else do {
        pm \<leftarrow> choose_pivot cmp es xs a n;
        xs \<leftarrow> swap xs a pm;
        (xs, pa, pb, pc, pd, swap_cnt) \<leftarrow>
          part_loop cmp xs a (a + 1) (a + 1) (a + (n - 1)) (a + (n - 1)) False;
        if \<not> swap_cnt then insertion_sort cmp xs a n
        else do {
          let pn = a + n;
          r \<leftarrow> c_int es (min (pa - a) (pb - pa));
          xs \<leftarrow> vecswap xs a (pb - r) r;
          r \<leftarrow> c_int es (min (pd - pc) (pn - pd - 1));
          xs \<leftarrow> vecswap xs pb (pn - r) r;
          r \<leftarrow> c_int es (pb - pa);
          xs \<leftarrow> (if r > 1 then qsort cmp es xs a r else Some xs);
          r \<leftarrow> c_int es (pd - pc);
          if r > 1 then qsort cmp es xs (pn - r) r else Some xs}})"
  by auto
termination
  apply (relation "measure (\<lambda>(_, _, _, _, n). n)")
  apply simp
  subgoal premises p
    using p(2,17,18) part_loop_bounds [OF p(5) [folded p(6-10)]] by (auto simp: c_int_def split: if_splits)
  subgoal premises p
    using p(2,19,20) part_loop_bounds [OF p(5) [folded p(6-10)]] by (auto simp: c_int_def split: if_splits)
  done

declare qsort.simps [simp del]

section \<open>\<^verbatim>\<open>bsearch\<close>, \<^verbatim>\<open>upper_bound\<close> and \<^verbatim>\<open>lower_bound\<close>\<close>

text \<open>
  The pointers of the searches start as far as one element below the array, so they are integers
  here.  The three loops differ in the test that sends them to the left half.
\<close>

definition elem_at :: "'a list \<Rightarrow> int \<Rightarrow> 'a option" where
  "elem_at xs i = (if 0 \<le> i then elem xs (nat i) else None)"

function search_loop :: "(int \<Rightarrow> bool) \<Rightarrow> ('k \<Rightarrow> 'a \<Rightarrow> int) \<Rightarrow> 'k \<Rightarrow> 'a list \<Rightarrow> int \<Rightarrow> int \<Rightarrow> (int \<times> int) option" where
  "search_loop goes_left compar key xs left right =
     (if left + 1 < right
      then do {
        let mid = left + (right - left) div 2;
        x \<leftarrow> elem_at xs mid;
        if goes_left (compar key x) then search_loop goes_left compar key xs left mid
        else search_loop goes_left compar key xs mid right}
      else Some (left, right))"
  by auto
termination by (relation "measure (\<lambda>(_, _, _, _, left, right). nat (right - left))") auto

declare search_loop.simps [simp del]

definition upper_bound :: "('k \<Rightarrow> 'a \<Rightarrow> int) \<Rightarrow> 'k \<Rightarrow> 'a list \<Rightarrow> nat \<Rightarrow> int option" where
  "upper_bound compar key base nmemb = do {
     (left, right) \<leftarrow> search_loop (\<lambda>r. r < 0) compar key base 0 (int nmemb);
     Some right}"

definition lower_bound :: "('k \<Rightarrow> 'a \<Rightarrow> int) \<Rightarrow> 'k \<Rightarrow> 'a list \<Rightarrow> nat \<Rightarrow> int option" where
  "lower_bound compar key base nmemb = do {
     (left, right) \<leftarrow> search_loop (\<lambda>r. r \<le> 0) compar key base (- 1) (int nmemb - 1);
     Some right}"

text \<open>The inner option of the result is the pointer: \<^const>\<open>None\<close> is \<^verbatim>\<open>NULL\<close>.\<close>

definition bsearch :: "('k \<Rightarrow> 'a \<Rightarrow> int) \<Rightarrow> 'k \<Rightarrow> 'a list \<Rightarrow> nat \<Rightarrow> int option option" where
  "bsearch compar key base nmemb = do {
     (left, right) \<leftarrow> search_loop (\<lambda>r. r < 0) compar key base 0 (int nmemb);
     x \<leftarrow> elem_at base left;
     Some (if compar key x = 0 then Some left else None)}"

section \<open>Rearrangements of a part of an array\<close>

definition perm_in :: "nat \<Rightarrow> nat \<Rightarrow> 'a list \<Rightarrow> 'a list \<Rightarrow> bool" where
  "perm_in a b xs ys \<longleftrightarrow> length ys = length xs \<and> mset ys = mset xs
     \<and> (\<forall>i < length xs. i < a \<or> b \<le> i \<longrightarrow> ys ! i = xs ! i)"

lemma perm_in_refl [simp, intro!]: "perm_in a b xs xs"
  by (simp add: perm_in_def)

lemma perm_in_trans [trans]: "perm_in a b xs ys \<Longrightarrow> perm_in a b ys zs \<Longrightarrow> perm_in a b xs zs"
  by (auto simp: perm_in_def)

lemma perm_in_mono: "perm_in c d xs ys \<Longrightarrow> a \<le> c \<Longrightarrow> d \<le> b \<Longrightarrow> perm_in a b xs ys"
  by (auto simp: perm_in_def)

lemma perm_in_length: "perm_in a b xs ys \<Longrightarrow> length ys = length xs"
  by (simp add: perm_in_def)

lemma perm_in_set: "perm_in a b xs ys \<Longrightarrow> set ys = set xs"
  by (auto simp: perm_in_def dest: mset_eq_setD)

lemma perm_in_outside: "perm_in a b xs ys \<Longrightarrow> i < length xs \<Longrightarrow> i < a \<or> b \<le> i \<Longrightarrow> ys ! i = xs ! i"
  by (auto simp: perm_in_def)

lemma perm_in_segment:
  assumes "perm_in a b xs ys" "a \<le> b" "b \<le> length xs"
  shows "mset (take (b - a) (drop a ys)) = mset (take (b - a) (drop a xs))"
proof -
  have split: "zs = take a zs @ take (b - a) (drop a zs) @ drop b zs" for zs :: "'a list"
    using assms(2) by (metis append_take_drop_id drop_drop le_add_diff_inverse2)
  have "take a ys = take a xs" "drop b ys = drop b xs"
    using assms by (auto simp: perm_in_def intro!: nth_equalityI)
  moreover have "mset ys = mset xs" using assms(1) by (simp add: perm_in_def)
  ultimately show ?thesis
    by (subst (asm) split [of ys], subst (asm) split [of xs]) simp
qed

lemma segment_nth:
  assumes "b \<le> length xs"
  shows "set (take (b - a) (drop a xs)) = {xs ! i | i. a \<le> i \<and> i < b}"
proof (rule set_eqI)
  fix x
  have "x \<in> set (take (b - a) (drop a xs)) \<longleftrightarrow> (\<exists>k < b - a. x = xs ! (a + k))"
    using assms by (auto simp: in_set_conv_nth)
  also have "\<dots> \<longleftrightarrow> (\<exists>i. x = xs ! i \<and> a \<le> i \<and> i < b)"
  proof
    assume "\<exists>k < b - a. x = xs ! (a + k)"
    then obtain k where "k < b - a" "x = xs ! (a + k)" by auto
    then show "\<exists>i. x = xs ! i \<and> a \<le> i \<and> i < b" by (intro exI [of _ "a + k"]) auto
  next
    assume "\<exists>i. x = xs ! i \<and> a \<le> i \<and> i < b"
    then obtain i where "x = xs ! i" "a \<le> i" "i < b" by auto
    then show "\<exists>k < b - a. x = xs ! (a + k)" by (intro exI [of _ "i - a"]) auto
  qed
  finally show "x \<in> set (take (b - a) (drop a xs)) \<longleftrightarrow> x \<in> {xs ! i | i. a \<le> i \<and> i < b}" by simp
qed

text \<open>What holds of every element of a part still holds after rearranging that part.\<close>

lemma perm_in_all:
  assumes "perm_in a b xs ys" "a \<le> b" "b \<le> length xs" "\<forall>i. a \<le> i \<and> i < b \<longrightarrow> P (xs ! i)"
  shows "\<forall>i. a \<le> i \<and> i < b \<longrightarrow> P (ys ! i)"
proof -
  have "{ys ! i | i. a \<le> i \<and> i < b} = {xs ! i | i. a \<le> i \<and> i < b}"
    using mset_eq_setD [OF perm_in_segment [OF assms(1-3)]] assms(3) perm_in_length [OF assms(1)]
    by (simp add: segment_nth)
  then show ?thesis using assms(4) by (smt (verit) mem_Collect_eq)
qed

lemma swap_ok:
  assumes "i < length xs" "j < length xs"
  shows "swap xs i j = Some (xs[i := xs ! j, j := xs ! i])"
  using assms by (simp add: swap_def elem_def)

lemma perm_in_swap:
  assumes "a \<le> i" "i < b" "a \<le> j" "j < b" "b \<le> length xs"
  shows "perm_in a b xs (xs[i := xs ! j, j := xs ! i])"
  using assms mset_swap [of j xs i] by (auto simp: perm_in_def nth_list_update)

lemma compare_at_ok: "i < length xs \<Longrightarrow> j < length xs \<Longrightarrow> compare_at cmp xs i j = Some (cmp (xs ! i) (xs ! j))"
  by (simp add: compare_at_def elem_def)

section \<open>The loops of \<^verbatim>\<open>qsort\<close>, for any comparison function\<close>

lemma insert_loop_perm:
  "a \<le> pl \<Longrightarrow> pl < length xs \<Longrightarrow> \<exists>ys. insert_loop cmp xs a pl = Some ys \<and> perm_in a (pl + 1) xs ys"
proof (induction cmp xs a pl rule: insert_loop.induct)
  case (1 cmp xs a pl)
  let ?zs = "xs[pl := xs ! (pl - 1), pl - 1 := xs ! pl]"
  show ?case
  proof (cases "a < pl \<and> 0 < cmp (xs ! (pl - 1)) (xs ! pl)")
    case True
    then obtain ys where ys: "insert_loop cmp ?zs a (pl - 1) = Some ys" "perm_in a (pl - 1 + 1) ?zs ys"
      using 1 by (force simp: compare_at_ok swap_ok)
    have "perm_in a (pl + 1) xs ?zs" using True 1(3) by (intro perm_in_swap) auto
    also have "perm_in a (pl + 1) ?zs ys" using ys(2) by (rule perm_in_mono) auto
    finally show ?thesis using True 1(3) ys(1) by (subst insert_loop.simps) (auto simp: compare_at_ok swap_ok)
  next
    case False
    then show ?thesis using 1(3) by (subst insert_loop.simps) (auto simp: compare_at_ok)
  qed
qed

lemma insertion_loop_perm:
  "a < pm \<Longrightarrow> a + n \<le> length xs \<Longrightarrow> \<exists>ys. insertion_loop cmp xs a n pm = Some ys \<and> perm_in a (a + n) xs ys"
proof (induction cmp xs a n pm rule: insertion_loop.induct)
  case (1 cmp xs a n pm)
  show ?case
  proof (cases "pm < a + n")
    case True
    obtain zs where zs: "insert_loop cmp xs a pm = Some zs" "perm_in a (pm + 1) xs zs"
      using insert_loop_perm [of a pm xs cmp] 1(2,3) True by auto
    obtain ys where ys: "insertion_loop cmp zs a n (pm + 1) = Some ys" "perm_in a (a + n) zs ys"
      using 1(1) [OF True zs(1)] 1(2,3) perm_in_length [OF zs(2)] by auto
    have "perm_in a (a + n) xs ys" using perm_in_mono [OF zs(2), of a "a + n"] ys(2) True
      by (auto intro: perm_in_trans)
    then show ?thesis using True zs(1) ys(1) by (subst insertion_loop.simps) simp
  next
    case False
    then show ?thesis by (subst insertion_loop.simps) simp
  qed
qed

lemma insertion_sort_perm:
  "a + n \<le> length xs \<Longrightarrow> \<exists>ys. insertion_sort cmp xs a n = Some ys \<and> perm_in a (a + n) xs ys"
  unfolding insertion_sort_def by (rule insertion_loop_perm) auto

text \<open>Two runs that do not overlap change places.\<close>

definition runs_swapped :: "nat \<Rightarrow> nat \<Rightarrow> nat \<Rightarrow> 'a list \<Rightarrow> 'a list \<Rightarrow> bool" where
  "runs_swapped i j n xs ys \<longleftrightarrow> perm_in i (j + n) xs ys
     \<and> (\<forall>k < n. ys ! (i + k) = xs ! (j + k) \<and> ys ! (j + k) = xs ! (i + k))
     \<and> (\<forall>k < length xs. k < i \<or> i + n \<le> k \<and> k < j \<or> j + n \<le> k \<longrightarrow> ys ! k = xs ! k)"

lemma swapfunc_ok:
  "0 < n \<Longrightarrow> i + n \<le> j \<Longrightarrow> j + n \<le> length xs \<Longrightarrow> \<exists>ys. swapfunc xs i j n = Some ys \<and> runs_swapped i j n xs ys"
proof (induction xs i j n rule: swapfunc.induct)
  case (1 xs i j n)
  let ?zs = "xs[i := xs ! j, j := xs ! i]"
  have sw: "swap xs i j = Some ?zs" using 1(2-4) by (simp add: swap_ok)
  have p: "perm_in i (j + n) xs ?zs" using 1(2-4) by (intro perm_in_swap) auto
  show ?case
  proof (cases "n - 1 > 0")
    case True
    have "i + 1 + (n - 1) \<le> j + 1" "j + 1 + (n - 1) \<le> length ?zs" using 1(2-4) by auto
    from 1(1) [OF sw True True this]
    obtain ys where ys: "swapfunc ?zs (i + 1) (j + 1) (n - 1) = Some ys" "runs_swapped (i + 1) (j + 1) (n - 1) ?zs ys"
      by blast
    have "perm_in (i + 1) (j + 1 + (n - 1)) ?zs ys" using ys(2) by (simp add: runs_swapped_def)
    then have "perm_in i (j + n) ?zs ys" by (rule perm_in_mono) (use 1(2) in auto)
    then have "perm_in i (j + n) xs ys" using p perm_in_trans by blast
    moreover have "ys ! (i + k) = xs ! (j + k) \<and> ys ! (j + k) = xs ! (i + k)" if "k < n" for k
    proof (cases k)
      case 0
      then show ?thesis using ys(2) 1(2-4) by (simp add: runs_swapped_def)
    next
      case (Suc m)
      then have "ys ! (i + 1 + m) = ?zs ! (j + 1 + m) \<and> ys ! (j + 1 + m) = ?zs ! (i + 1 + m)"
        using ys(2) that unfolding runs_swapped_def by simp
      then show ?thesis using Suc that 1(2-4) by simp
    qed
    moreover have "ys ! k = xs ! k" if "k < length xs" "k < i \<or> i + n \<le> k \<and> k < j \<or> j + n \<le> k" for k
    proof -
      have "k < i + 1 \<or> i + 1 + (n - 1) \<le> k \<and> k < j + 1 \<or> j + 1 + (n - 1) \<le> k" "k \<noteq> i" "k \<noteq> j"
        using that 1(2-4) by auto
      moreover from this(1) have "ys ! k = ?zs ! k"
        using ys(2) that(1) unfolding runs_swapped_def length_list_update by blast
      ultimately show ?thesis by simp
    qed
    ultimately show ?thesis using sw True ys(1) by (subst swapfunc.simps) (auto simp: runs_swapped_def)
  next
    case False
    then have "n = 1" using 1(2) by simp
    then show ?thesis using sw p 1(3,4) by (subst swapfunc.simps) (auto simp: runs_swapped_def nth_list_update)
  qed
qed

lemma vecswap_ok:
  assumes "i + n \<le> j" "j + n \<le> length xs"
  shows "\<exists>ys. vecswap xs i j n = Some ys \<and> runs_swapped i j n xs ys"
  using assms swapfunc_ok [of n i j xs] by (auto simp: vecswap_def runs_swapped_def)

lemma med3_range:
  assumes "l \<le> a" "a < h" "l \<le> b" "b < h" "l \<le> c" "c < h" "h \<le> length xs"
  shows "\<exists>m. med3 cmp xs a b c = Some m \<and> l \<le> m \<and> m < h"
  using assms by (auto simp: med3_def compare_at_ok)

lemma c_int_ok: "k \<le> n \<Longrightarrow> n * es < 2 ^ 31 \<Longrightarrow> c_int es k = Some k"
  unfolding c_int_def by (auto dest: le_less_trans [OF mult_le_mono1 [of k n es]])

lemma pivot_in:
  assumes "7 \<le> n" "a + n \<le> length xs" "n * es < 2 ^ 31"
  shows "\<exists>p. choose_pivot cmp es xs a n = Some p \<and> a \<le> p \<and> p < a + n"
proof -
  define d where "d = n div 8"
  have d: "8 * d \<le> n" "c_int es (n div 8) = Some d"
    using c_int_ok [of "n div 8" n es] assms(3) by (simp_all add: d_def)
  let ?pm = "a + n div 2" and ?pn = "a + (n - 1)"
  have range: "4 * d \<le> n div 2" "?pm + d < a + n" "a \<le> ?pm - d" "?pm - d < a + n"
      "a \<le> ?pn - 2 * d" "?pn - 2 * d < a + n" "a \<le> ?pn - d" "?pn - d < a + n" "?pn < a + n" "a + 2 * d < a + n"
    using d(1) assms(1) by auto
  obtain l where l: "med3 cmp xs a (a + d) (a + 2 * d) = Some l" "a \<le> l" "l < a + n"
    using med3_range [of a a "a + n" "a + d" "a + 2 * d" xs cmp] range assms(2) by auto
  obtain m where m: "med3 cmp xs (?pm - d) ?pm (?pm + d) = Some m" "a \<le> m" "m < a + n"
    using med3_range [of a "?pm - d" "a + n" ?pm "?pm + d" xs cmp] range assms(2) by auto
  obtain r where r: "med3 cmp xs (?pn - 2 * d) (?pn - d) ?pn = Some r" "a \<le> r" "r < a + n"
    using med3_range [OF range(5,6,7,8) le_add1 range(9) assms(2)] by blast
  obtain p where p: "med3 cmp xs l m r = Some p" "a \<le> p" "p < a + n"
    using med3_range [OF l(2,3) m(2,3) r(2,3) assms(2)] by auto
  obtain q where q: "med3 cmp xs a ?pm ?pn = Some q" "a \<le> q" "q < a + n"
  proof -
    have "a < a + n" "?pm < a + n" using assms(1) by auto
    from med3_range [OF le_refl this(1) le_add1 this(2) le_add1 range(9) assms(2)] show ?thesis using that by blast
  qed
  show ?thesis
    using d(2) l m r p q assms(1) unfolding choose_pivot_def Let_def by (simp split: if_split)
qed

text \<open>
  The state of the partition: from the left the elements equal to the pivot \<open>xs ! a\<close>, those below
  it, the ones not looked at yet, those above it and again equal ones.
\<close>

definition part_inv :: "('a \<Rightarrow> 'a \<Rightarrow> int) \<Rightarrow> nat \<Rightarrow> nat \<Rightarrow> nat \<Rightarrow> nat \<Rightarrow> nat \<Rightarrow> nat \<Rightarrow> 'a list \<Rightarrow> bool" where
  "part_inv cmp a n pa pb pc pd xs \<longleftrightarrow>
     a < pa \<and> pa \<le> pb \<and> pb \<le> pc + 1 \<and> pc \<le> pd \<and> pd < a + n \<and> a + n \<le> length xs
     \<and> (\<forall>i. a < i \<and> i < pa \<longrightarrow> cmp (xs ! i) (xs ! a) = 0)
     \<and> (\<forall>i. pa \<le> i \<and> i < pb \<longrightarrow> cmp (xs ! i) (xs ! a) < 0)
     \<and> (\<forall>i. pc < i \<and> i \<le> pd \<longrightarrow> cmp (xs ! i) (xs ! a) > 0)
     \<and> (\<forall>i. pd < i \<and> i < a + n \<longrightarrow> cmp (xs ! i) (xs ! a) = 0)"

lemma part_inv_up_equal:
  assumes "part_inv cmp a n pa pb pc pd xs" "pb \<le> pc" "cmp (xs ! pb) (xs ! a) = 0"
  shows "part_inv cmp a n (pa + 1) (pb + 1) pc pd (xs[pa := xs ! pb, pb := xs ! pa])"
  using assms unfolding part_inv_def by (auto simp: nth_list_update)

lemma part_inv_up_below:
  assumes "part_inv cmp a n pa pb pc pd xs" "pb \<le> pc" "cmp (xs ! pb) (xs ! a) < 0"
  shows "part_inv cmp a n pa (pb + 1) pc pd xs"
  using assms unfolding part_inv_def by (auto simp: less_Suc_eq)

lemma part_inv_down_equal:
  assumes "part_inv cmp a n pa pb pc pd xs" "pb \<le> pc" "cmp (xs ! pc) (xs ! a) = 0"
  shows "part_inv cmp a n pa pb (pc - 1) (pd - 1) (xs[pc := xs ! pd, pd := xs ! pc])"
proof -
  have "pc < i \<and> i \<le> pd" if "pc - 1 < i" "i \<noteq> pc" "i \<le> pd - 1" for i using that by linarith
  then show ?thesis using assms unfolding part_inv_def by (auto simp: nth_list_update)
qed

lemma part_inv_down_above:
  assumes "part_inv cmp a n pa pb pc pd xs" "pb \<le> pc" "cmp (xs ! pc) (xs ! a) > 0"
  shows "part_inv cmp a n pa pb (pc - 1) pd xs"
proof -
  have "i = pc \<or> pc < i" if "pc - 1 < i" for i using that by linarith
  then show ?thesis using assms unfolding part_inv_def by auto
qed

lemma part_inv_exchange:
  assumes "part_inv cmp a n pa pb pc pd xs" "pb < pc" "cmp (xs ! pb) (xs ! a) > 0" "cmp (xs ! pc) (xs ! a) < 0"
  shows "part_inv cmp a n pa (pb + 1) (pc - 1) pd (xs[pb := xs ! pc, pc := xs ! pb])"
  using assms unfolding part_inv_def by (auto simp: nth_list_update)

lemma scan_up_inv:
  "part_inv cmp a n pa pb pc pd xs \<Longrightarrow>
    \<exists>ys pa' pb' cnt'. scan_up cmp xs a pa pb pc cnt = Some (ys, pa', pb', cnt')
      \<and> part_inv cmp a n pa' pb' pc pd ys \<and> perm_in (a + 1) (a + n) xs ys
      \<and> (pb' \<le> pc \<longrightarrow> cmp (ys ! pb') (ys ! a) > 0)"
proof (induction cmp xs a pa pb pc cnt rule: scan_up.induct)
  case (1 cmp xs a pa pb pc cnt)
  note inv = 1(3)
  have len: "pa < length xs" "pb < length xs" "a < length xs" if "pb \<le> pc"
    using inv that by (auto simp: part_inv_def)
  consider (stop) "pc < pb \<or> pb \<le> pc \<and> 0 < cmp (xs ! pb) (xs ! a)"
    | (equal) "pb \<le> pc" "cmp (xs ! pb) (xs ! a) = 0" | (below) "pb \<le> pc" "cmp (xs ! pb) (xs ! a) < 0"
    by linarith
  then show ?case
  proof cases
    case stop
    then show ?thesis using inv len by (subst scan_up.simps) (auto simp: compare_at_ok)
  next
    case equal
    let ?zs = "xs[pa := xs ! pb, pb := xs ! pa]"
    have sw: "swap xs pa pb = Some ?zs" using len equal(1) by (simp add: swap_ok)
    have cmp: "compare_at cmp xs pb a = Some 0" using len equal by (simp add: compare_at_ok)
    from 1(1) [OF equal(1) cmp _ refl sw part_inv_up_equal [OF inv equal]]
    obtain ys pa' pb' cnt' where ys: "scan_up cmp ?zs a (pa + 1) (pb + 1) pc True = Some (ys, pa', pb', cnt')"
      "part_inv cmp a n pa' pb' pc pd ys" "perm_in (a + 1) (a + n) ?zs ys" "pb' \<le> pc \<longrightarrow> cmp (ys ! pb') (ys ! a) > 0"
      by auto
    have "perm_in (a + 1) (a + n) xs ?zs"
      using inv equal(1) by (intro perm_in_swap) (auto simp: part_inv_def)
    then have "perm_in (a + 1) (a + n) xs ys" using ys(3) by (rule perm_in_trans)
    then show ?thesis using ys cmp sw equal(1) by (subst scan_up.simps) simp
  next
    case below
    have cmp: "compare_at cmp xs pb a = Some (cmp (xs ! pb) (xs ! a))" using len below by (simp add: compare_at_ok)
    from 1(2) [OF below(1) cmp _ _ part_inv_up_below [OF inv below]] below(2)
    show ?thesis using cmp below by (subst scan_up.simps) simp
  qed
qed

lemma scan_down_inv:
  "part_inv cmp a n pa pb pc pd xs \<Longrightarrow>
    \<exists>ys pc' pd' cnt'. scan_down cmp xs a pb pc pd cnt = Some (ys, pc', pd', cnt')
      \<and> part_inv cmp a n pa pb pc' pd' ys \<and> perm_in (a + 1) (a + n) xs ys
      \<and> (pb \<le> pc' \<longrightarrow> cmp (ys ! pc') (ys ! a) < 0)"
proof (induction cmp xs a pb pc pd cnt rule: scan_down.induct)
  case (1 cmp xs a pb pc pd cnt)
  note inv = 1(3)
  have len: "pc < length xs" "pd < length xs" "a < length xs" "ptr_back pc = Some (pc - 1)" "ptr_back pd = Some (pd - 1)"
    if "pb \<le> pc" using inv that by (auto simp: part_inv_def ptr_back_def)
  consider (stop) "pc < pb \<or> pb \<le> pc \<and> cmp (xs ! pc) (xs ! a) < 0"
    | (equal) "pb \<le> pc" "cmp (xs ! pc) (xs ! a) = 0" | (above) "pb \<le> pc" "cmp (xs ! pc) (xs ! a) > 0"
    by linarith
  then show ?case
  proof cases
    case stop
    then show ?thesis using inv len by (subst scan_down.simps) (auto simp: compare_at_ok)
  next
    case equal
    let ?zs = "xs[pc := xs ! pd, pd := xs ! pc]"
    have sw: "swap xs pc pd = Some ?zs" using len equal(1) by (simp add: swap_ok)
    have cmp: "compare_at cmp xs pc a = Some 0" using len equal by (simp add: compare_at_ok)
    from 1(1) [OF equal(1) cmp _ refl sw len(5) [OF equal(1)] len(4) [OF equal(1)] part_inv_down_equal [OF inv equal]]
    obtain ys pc' pd' cnt' where ys: "scan_down cmp ?zs a pb (pc - 1) (pd - 1) True = Some (ys, pc', pd', cnt')"
      "part_inv cmp a n pa pb pc' pd' ys" "perm_in (a + 1) (a + n) ?zs ys" "pb \<le> pc' \<longrightarrow> cmp (ys ! pc') (ys ! a) < 0"
      by auto
    have "perm_in (a + 1) (a + n) xs ?zs"
      using inv equal(1) by (intro perm_in_swap) (auto simp: part_inv_def)
    then have "perm_in (a + 1) (a + n) xs ys" using ys(3) by (rule perm_in_trans)
    then show ?thesis using ys cmp sw equal(1) len by (subst scan_down.simps) simp
  next
    case above
    have cmp: "compare_at cmp xs pc a = Some (cmp (xs ! pc) (xs ! a))" using len above by (simp add: compare_at_ok)
    from 1(2) [OF above(1) cmp _ _ len(4) [OF above(1)] part_inv_down_above [OF inv above]] above(2)
    show ?thesis using cmp above len by (subst scan_down.simps) simp
  qed
qed

lemma part_loop_inv:
  "part_inv cmp a n pa pb pc pd xs \<Longrightarrow>
    \<exists>ys pa' pb' pc' pd' cnt'. part_loop cmp xs a pa pb pc pd cnt = Some (ys, pa', pb', pc', pd', cnt')
      \<and> part_inv cmp a n pa' pb' pc' pd' ys \<and> perm_in (a + 1) (a + n) xs ys \<and> pb' = pc' + 1"
proof (induction cmp xs a pa pb pc pd cnt rule: part_loop.induct)
  case (1 cmp xs a pa pb pc pd cnt)
  obtain xs1 pa1 pb1 c1 where up: "scan_up cmp xs a pa pb pc cnt = Some (xs1, pa1, pb1, c1)"
    "part_inv cmp a n pa1 pb1 pc pd xs1" "perm_in (a + 1) (a + n) xs xs1" "pb1 \<le> pc \<longrightarrow> cmp (xs1 ! pb1) (xs1 ! a) > 0"
    using scan_up_inv [OF 1(2)] by blast
  obtain xs2 pc2 pd2 c2 where down: "scan_down cmp xs1 a pb1 pc pd c1 = Some (xs2, pc2, pd2, c2)"
    "part_inv cmp a n pa1 pb1 pc2 pd2 xs2" "perm_in (a + 1) (a + n) xs1 xs2" "pb1 \<le> pc2 \<longrightarrow> cmp (xs2 ! pc2) (xs2 ! a) < 0"
    using scan_down_inv [OF up(2)] by blast
  have p: "perm_in (a + 1) (a + n) xs xs2" using up(3) down(3) by (rule perm_in_trans)
  show ?case
  proof (cases "pb1 > pc2")
    case True
    then have "pb1 = pc2 + 1" using down(2) by (simp add: part_inv_def)
    then show ?thesis using up(1) down(1,2) p by (subst part_loop.simps) simp
  next
    case False
    have b: "pc2 \<le> pc" "pc \<le> pd" "a < pb1" "a < pb" "pd2 < a + n" "a + n \<le> length xs2" "pc2 \<le> pd2"
      using scan_down_bounds [OF down(1)] up(2) down(2) 1(2) by (auto simp: part_inv_def)
    have ne: "pb1 < pc2" using scans_cross [OF up(1) down(1)] b False by simp
    have keep: "xs2 ! pb1 = xs1 ! pb1" "xs2 ! a = xs1 ! a"
      using scan_down_keeps [OF down(1)] b ne by auto
    let ?zs = "xs2[pb1 := xs2 ! pc2, pc2 := xs2 ! pb1]"
    have sw: "swap xs2 pb1 pc2 = Some ?zs" and bk: "ptr_back pc2 = Some (pc2 - 1)"
      using b ne by (auto simp: swap_ok ptr_back_def)
    have "part_inv cmp a n pa1 (pb1 + 1) (pc2 - 1) pd2 ?zs"
      using part_inv_exchange [OF down(2) ne] up(4) down(4) b ne keep by auto
    from 1(1) [OF up(1) refl refl refl down(1) refl refl refl False sw bk this]
    obtain ys pa' pb' pc' pd' cnt' where
      ys: "part_loop cmp ?zs a pa1 (pb1 + 1) (pc2 - 1) pd2 True = Some (ys, pa', pb', pc', pd', cnt')"
        "part_inv cmp a n pa' pb' pc' pd' ys" "perm_in (a + 1) (a + n) ?zs ys" "pb' = pc' + 1"
      by blast
    have "perm_in (a + 1) (a + n) xs2 ?zs" using b ne by (intro perm_in_swap) auto
    then have "perm_in (a + 1) (a + n) xs ys" using p ys(3) perm_in_trans by blast
    then show ?thesis using up(1) down(1) sw bk ys False by (subst part_loop.simps) simp
  qed
qed

text \<open>Exchanging the ends of two adjacent blocks, the shorter one whole, puts the second block first.\<close>

lemma blocks_swapped:
  fixes a m b :: nat
  defines "r \<equiv> min (m - a) (b - m)"
  assumes "runs_swapped a (b - r) r xs ys" "a \<le> m" "m \<le> b" "b \<le> length xs"
    and P: "\<forall>i. a \<le> i \<and> i < m \<longrightarrow> P (xs ! i)" and Q: "\<forall>i. m \<le> i \<and> i < b \<longrightarrow> Q (xs ! i)"
  shows "\<forall>i. a \<le> i \<and> i < a + (b - m) \<longrightarrow> Q (ys ! i)" and "\<forall>i. a + (b - m) \<le> i \<and> i < b \<longrightarrow> P (ys ! i)"
proof -
  have r: "r \<le> m - a" "r \<le> b - m" "r = m - a \<or> r = b - m" by (auto simp: r_def)
  have swapped: "ys ! (a + k) = xs ! (b - r + k)" "ys ! (b - r + k) = xs ! (a + k)" if "k < r" for k
    using assms(2) that by (auto simp: runs_swapped_def)
  have kept: "ys ! i = xs ! i" if "a + r \<le> i" "i < b - r" for i
    using assms(2,5) that by (simp add: runs_swapped_def)
  show "\<forall>i. a \<le> i \<and> i < a + (b - m) \<longrightarrow> Q (ys ! i)"
  proof (intro allI impI)
    fix i assume i: "a \<le> i \<and> i < a + (b - m)"
    show "Q (ys ! i)"
    proof (cases "i < a + r")
      case True
      then have "i - a < r" "m \<le> b - r + (i - a)" "b - r + (i - a) < b" using i r assms(3,4) by auto
      then show ?thesis using swapped(1) [of "i - a"] Q i by simp
    next
      case False
      then have "m \<le> i" "i < b - r" using i r assms(3,4) by auto
      then show ?thesis using kept [of i] Q False by simp
    qed
  qed
  show "\<forall>i. a + (b - m) \<le> i \<and> i < b \<longrightarrow> P (ys ! i)"
  proof (intro allI impI)
    fix i assume i: "a + (b - m) \<le> i \<and> i < b"
    show "P (ys ! i)"
    proof (cases "i < b - r")
      case True
      then have "a + r \<le> i" "i < m" "a \<le> i" using i r assms(3,4) by auto
      then show ?thesis using kept [of i] P True by simp
    next
      case False
      then have "i - (b - r) < r" "a + (i - (b - r)) < m" using i r assms(3,4) by auto
      then show ?thesis using swapped(2) [of "i - (b - r)"] P False by simp
    qed
  qed
qed

text \<open>
  One round of \<^verbatim>\<open>qsort\<close> on a long array: either it ends in an insertion sort, or it leaves the elements
  below, equal to and above some element \<open>v\<close> in three blocks and goes on with the outer two.
\<close>

definition three_blocks :: "('a \<Rightarrow> 'a \<Rightarrow> int) \<Rightarrow> 'a \<Rightarrow> nat \<Rightarrow> nat \<Rightarrow> nat \<Rightarrow> nat \<Rightarrow> 'a list \<Rightarrow> bool" where
  "three_blocks cmp v a p q n zs \<longleftrightarrow> p < q \<and> q \<le> n \<and> v \<in> set zs
     \<and> (\<forall>i. a \<le> i \<and> i < a + p \<longrightarrow> cmp (zs ! i) v < 0)
     \<and> (\<forall>i. a + p \<le> i \<and> i < a + q \<longrightarrow> zs ! i = v \<or> cmp (zs ! i) v = 0)
     \<and> (\<forall>i. a + q \<le> i \<and> i < a + n \<longrightarrow> cmp (zs ! i) v > 0)"

lemma gather_equal:
  assumes inv: "part_inv cmp a n pa pb pc pd xs" and pb: "pb = pc + 1"
  defines "r1 \<equiv> min (pa - a) (pb - pa)" and "r2 \<equiv> min (pd - pc) (a + n - pd - 1)"
  shows "\<exists>ys zs. vecswap xs a (pb - r1) r1 = Some ys \<and> vecswap ys pb (a + n - r2) r2 = Some zs
    \<and> perm_in a (a + n) xs zs \<and> three_blocks cmp (xs ! a) a (pb - pa) (n - (pd - pc)) n zs"
proof -
  define E where "E x \<longleftrightarrow> x = xs ! a \<or> cmp x (xs ! a) = 0" for x
  have b: "a < pa" "pa \<le> pb" "pc \<le> pd" "pd < a + n" "a + n \<le> length xs"
    using inv by (auto simp: part_inv_def)
  have r: "a + r1 \<le> pb - r1" "pb - r1 + r1 = pb" "pb + r2 \<le> a + n - r2" "a + n - r2 + r2 = a + n"
    using b pb unfolding r1_def r2_def by linarith+
  obtain ys where ys: "vecswap xs a (pb - r1) r1 = Some ys" "runs_swapped a (pb - r1) r1 xs ys"
    using vecswap_ok [OF r(1), of xs] r(2) b pb by auto
  have len: "length ys = length xs" using ys(2) by (auto simp: runs_swapped_def perm_in_def)
  obtain zs where zs: "vecswap ys pb (a + n - r2) r2 = Some zs" "runs_swapped pb (a + n - r2) r2 ys zs"
    using vecswap_ok [OF r(3), of ys] r(4) b len by auto
  have p1: "perm_in a (a + n) xs ys" and p2: "perm_in a (a + n) ys zs"
    using ys(2) zs(2) b pb r(2,4) by (auto simp: runs_swapped_def elim!: perm_in_mono)
  have eq1: "\<forall>i. a \<le> i \<and> i < pa \<longrightarrow> E (xs ! i)" and lt: "\<forall>i. pa \<le> i \<and> i < pb \<longrightarrow> cmp (xs ! i) (xs ! a) < 0"
    using inv by (auto simp: part_inv_def E_def le_less)
  note left = blocks_swapped [OF ys(2) [unfolded r1_def] less_imp_le [OF b(1)] b(2) _ eq1 lt]
  have left: "\<forall>i. a \<le> i \<and> i < a + (pb - pa) \<longrightarrow> cmp (ys ! i) (xs ! a) < 0"
    "\<forall>i. a + (pb - pa) \<le> i \<and> i < pb \<longrightarrow> E (ys ! i)"
    using left b pb by auto
  have same: "ys ! i = xs ! i" if "pb \<le> i" "i < a + n" for i
    using ys(2) that b(5) unfolding runs_swapped_def r(2) by (simp add: perm_in_def)
  have gt: "\<forall>i. pb \<le> i \<and> i < pd + 1 \<longrightarrow> cmp (ys ! i) (xs ! a) > 0" and eq2: "\<forall>i. pd + 1 \<le> i \<and> i < a + n \<longrightarrow> E (ys ! i)"
    using inv pb same b by (auto simp: part_inv_def E_def)
  have "r2 = min (pd + 1 - pb) (a + n - (pd + 1))" using pb by (simp add: r2_def)
  note right = blocks_swapped [OF zs(2) [unfolded this] _ _ _ gt eq2]
  have right: "\<forall>i. pb \<le> i \<and> i < pb + (a + n - (pd + 1)) \<longrightarrow> E (zs ! i)"
    "\<forall>i. pb + (a + n - (pd + 1)) \<le> i \<and> i < a + n \<longrightarrow> cmp (zs ! i) (xs ! a) > 0"
    using right b pb len by auto
  have same': "zs ! i = ys ! i" if "i < pb" for i
    using zs(2) that b pb len unfolding runs_swapped_def by (simp add: perm_in_def)
  have q: "pb + (a + n - (pd + 1)) = a + (n - (pd - pc))" using b pb by simp
  have "a < length xs" using b pb by linarith
  then have "xs ! a \<in> set zs" using perm_in_set [OF p1] perm_in_set [OF p2] by simp
  moreover have "E (zs ! i)" if "a + (pb - pa) \<le> i" "i < a + (n - (pd - pc))" for i
    using that left(2) right(1) same' [of i] q by (cases "i < pb") auto
  ultimately have "three_blocks cmp (xs ! a) a (pb - pa) (n - (pd - pc)) n zs"
    using left(1) right(2) same' b pb q unfolding three_blocks_def E_def by auto
  then show ?thesis using ys(1) zs(1) perm_in_trans [OF p1 p2] by blast
qed

lemma qsort_step:
  assumes n: "7 \<le> n" and len: "a + n \<le> length xs" and bytes: "n * es < 2 ^ 31" and es: "0 < es"
  shows "(\<exists>zs. perm_in a (a + n) xs zs \<and> qsort cmp es xs a n = insertion_sort cmp zs a n)
    \<or> (\<exists>zs v p q. perm_in a (a + n) xs zs \<and> three_blocks cmp v a p q n zs
        \<and> qsort cmp es xs a n = do {
              ys \<leftarrow> (if p > 1 then qsort cmp es zs a p else Some zs);
              if n - q > 1 then qsort cmp es ys (a + q) (n - q) else Some ys})"
proof -
  obtain pm where pm: "choose_pivot cmp es xs a n = Some pm" "a \<le> pm" "pm < a + n"
    using pivot_in [OF n len bytes] by blast
  let ?xs = "xs[a := xs ! pm, pm := xs ! a]"
  have sw: "swap xs a pm = Some ?xs" using pm len by (intro swap_ok) auto
  have p1: "perm_in a (a + n) xs ?xs" using pm len by (intro perm_in_swap) auto
  have "part_inv cmp a n (a + 1) (a + 1) (a + (n - 1)) (a + (n - 1)) ?xs"
    using n len by (auto simp: part_inv_def)
  from part_loop_inv [OF this] obtain ys pa pb pc pd cnt
    where pl: "part_loop cmp ?xs a (a + 1) (a + 1) (a + (n - 1)) (a + (n - 1)) False = Some (ys, pa, pb, pc, pd, cnt)"
      and inv: "part_inv cmp a n pa pb pc pd ys" and p2: "perm_in (a + 1) (a + n) ?xs ys" and pb: "pb = pc + 1"
    by blast
  have p3: "perm_in a (a + n) xs ys" using p1 perm_in_mono [OF p2, of a "a + n"] by (auto intro: perm_in_trans)
  have unfold: "qsort cmp es xs a n = (if \<not> cnt then insertion_sort cmp ys a n else do {
          r \<leftarrow> c_int es (min (pa - a) (pb - pa));
          xs \<leftarrow> vecswap ys a (pb - r) r;
          r \<leftarrow> c_int es (min (pd - pc) (a + n - pd - 1));
          xs \<leftarrow> vecswap xs pb (a + n - r) r;
          r \<leftarrow> c_int es (pb - pa);
          xs \<leftarrow> (if r > 1 then qsort cmp es xs a r else Some xs);
          r \<leftarrow> c_int es (pd - pc);
          if r > 1 then qsort cmp es xs (a + n - r) r else Some xs})"
    using n es pm(1) sw pl by (subst qsort.simps) (simp add: Let_def)
  show ?thesis
  proof (cases cnt)
    case False
    then show ?thesis using unfold p3 by auto
  next
    case True
    have b: "a < pa" "pa \<le> pb" "pc \<le> pd" "pd < a + n" "a \<le> pc" using inv pb by (auto simp: part_inv_def)
    have c: "c_int es k = Some k" if "k \<le> n" for k using that bytes by (rule c_int_ok)
    obtain ys1 zs where gs: "vecswap ys a (pb - min (pa - a) (pb - pa)) (min (pa - a) (pb - pa)) = Some ys1"
      "vecswap ys1 pb (a + n - min (pd - pc) (a + n - pd - 1)) (min (pd - pc) (a + n - pd - 1)) = Some zs"
      "perm_in a (a + n) ys zs" "three_blocks cmp (ys ! a) a (pb - pa) (n - (pd - pc)) n zs"
      using gather_equal [OF inv pb] by blast
    have "n - (n - (pd - pc)) = pd - pc" "a + (n - (pd - pc)) = a + n - (pd - pc)" using b by auto
    then have "qsort cmp es xs a n = do {
        ys \<leftarrow> (if pb - pa > 1 then qsort cmp es zs a (pb - pa) else Some zs);
        if n - (n - (pd - pc)) > 1 then qsort cmp es ys (a + (n - (pd - pc))) (n - (n - (pd - pc))) else Some ys}"
      using unfold True gs(1,2) b pb by (simp add: c)
    moreover have "perm_in a (a + n) xs zs" using p3 gs(3) by (rule perm_in_trans)
    ultimately show ?thesis using gs(4) by blast
  qed
qed

lemma three_blocks_sizes: "three_blocks cmp v a p q n zs \<Longrightarrow> p < q \<and> q \<le> n"
  by (simp add: three_blocks_def)

lemma three_blocks_perm:
  assumes "three_blocks cmp v a p q n zs" "a + n \<le> length zs"
    and "perm_in a (a + p) zs ys \<or> perm_in (a + q) (a + n) zs ys"
  shows "three_blocks cmp v a p q n ys"
proof -
  note b = assms(1) [unfolded three_blocks_def]
  have "set ys = set zs" using assms(3) by (auto dest: perm_in_set)
  moreover from assms(3) have "(\<forall>i. a \<le> i \<and> i < a + p \<longrightarrow> cmp (ys ! i) v < 0)
      \<and> (\<forall>i. a + p \<le> i \<and> i < a + q \<longrightarrow> ys ! i = v \<or> cmp (ys ! i) v = 0)
      \<and> (\<forall>i. a + q \<le> i \<and> i < a + n \<longrightarrow> cmp (ys ! i) v > 0)"
  proof
    assume p: "perm_in a (a + p) zs ys"
    then have "\<forall>i. a \<le> i \<and> i < a + p \<longrightarrow> cmp (ys ! i) v < 0"
      by (rule perm_in_all) (use b assms(2) in auto)
    moreover have "ys ! i = zs ! i" if "a + p \<le> i" "i < a + n" for i
      using perm_in_outside [OF p, of i] that assms(2) by auto
    ultimately show ?thesis using b by auto
  next
    assume p: "perm_in (a + q) (a + n) zs ys"
    then have "\<forall>i. a + q \<le> i \<and> i < a + n \<longrightarrow> cmp (ys ! i) v > 0"
      by (rule perm_in_all) (use b assms(2) in auto)
    moreover have "ys ! i = zs ! i" if "i < a + q" for i
      using perm_in_outside [OF p, of i] that assms(2) b by auto
    ultimately show ?thesis using b by auto
  qed
  ultimately show ?thesis using b by (auto simp: three_blocks_def)
qed

lemma qsort_perm:
  "a + n \<le> length xs \<Longrightarrow> n * es < 2 ^ 31 \<Longrightarrow> 0 < es \<Longrightarrow> \<exists>ys. qsort cmp es xs a n = Some ys \<and> perm_in a (a + n) xs ys"
proof (induction n arbitrary: a xs rule: less_induct)
  case (less n)
  show ?case
  proof (cases "n < 7")
    case True
    then show ?thesis using insertion_sort_perm [OF less(2)] less(4) by (subst qsort.simps) simp
  next
    case False
    then have "7 \<le> n" by simp
    from qsort_step [OF this less(2,3,4), of cmp] show ?thesis
    proof (elim disjE exE conjE)
      fix zs assume "perm_in a (a + n) xs zs" "qsort cmp es xs a n = insertion_sort cmp zs a n"
      then show ?thesis using insertion_sort_perm [of a n zs cmp] less(2)
        by (metis perm_in_length perm_in_trans)
    next
      fix zs v p q assume p: "perm_in a (a + n) xs zs" and b: "three_blocks cmp v a p q n zs"
        and eq: "qsort cmp es xs a n = do {ys \<leftarrow> (if p > 1 then qsort cmp es zs a p else Some zs);
            if n - q > 1 then qsort cmp es ys (a + q) (n - q) else Some ys}"
      have pq: "p < q" "q \<le> n" using three_blocks_sizes [OF b] by auto
      have bytes: "k * es < 2 ^ 31" if "k \<le> n" for k
        using le_less_trans [OF mult_le_mono1 [OF that] less(3)] .
      obtain ys where ys: "(if p > 1 then qsort cmp es zs a p else Some zs) = Some ys" "perm_in a (a + p) zs ys"
        using less(1) [of p a zs] pq less(2) perm_in_length [OF p] bytes [of p] less(4) by (cases "p > 1") auto
      obtain ws where ws: "(if n - q > 1 then qsort cmp es ys (a + q) (n - q) else Some ys) = Some ws"
        "perm_in (a + q) (a + q + (n - q)) ys ws"
        using less(1) [of "n - q" "a + q" ys] pq less(2) perm_in_length [OF p] perm_in_length [OF ys(2)] bytes [of "n - q"] less(4)
        by (cases "n - q > 1") auto
      have "perm_in a (a + n) zs ys" "perm_in a (a + n) ys ws"
        using perm_in_mono [OF ys(2), of a "a + n"] perm_in_mono [OF ws(2), of a "a + n"] pq by auto
      then show ?thesis using p ys(1) ws(1) eq by (auto intro: perm_in_trans)
    qed
  qed
qed

text \<open>The parts of a finished round.\<close>

lemma qsort_split:
  assumes "7 \<le> n" "a + n \<le> length xs" "n * es < 2 ^ 31" "qsort cmp es xs a n = Some ys" "0 < es"
  shows "(\<exists>zs. perm_in a (a + n) xs zs \<and> insertion_sort cmp zs a n = Some ys)
    \<or> (\<exists>zs us v p q. perm_in a (a + n) xs zs \<and> perm_in a (a + p) zs us \<and> perm_in (a + q) (a + n) us ys
        \<and> three_blocks cmp v a p q n ys
        \<and> (1 < p \<longrightarrow> qsort cmp es zs a p = Some us) \<and> (1 < n - q \<longrightarrow> qsort cmp es us (a + q) (n - q) = Some ys))"
  using qsort_step [OF assms(1-3,5), of cmp]
proof (elim disjE exE conjE)
  fix zs v p q assume p: "perm_in a (a + n) xs zs" and b: "three_blocks cmp v a p q n zs"
    and eq: "qsort cmp es xs a n = do {ys \<leftarrow> (if p > 1 then qsort cmp es zs a p else Some zs);
        if n - q > 1 then qsort cmp es ys (a + q) (n - q) else Some ys}"
  have pq: "p < q" "q \<le> n" using three_blocks_sizes [OF b] by auto
  have bytes: "k * es < 2 ^ 31" if "k \<le> n" for k using le_less_trans [OF mult_le_mono1 [OF that] assms(3)] .
  obtain us where us: "(if p > 1 then qsort cmp es zs a p else Some zs) = Some us" "perm_in a (a + p) zs us"
    using qsort_perm [of a p zs es cmp] assms(5) pq assms(2) perm_in_length [OF p] bytes [of p] by (cases "p > 1") auto
  have rec: "(if n - q > 1 then qsort cmp es us (a + q) (n - q) else Some us) = Some ys"
    using assms(4) eq us(1) by simp
  have len: "length zs = length xs" "length us = length xs" using perm_in_length [OF p] perm_in_length [OF us(2)] by auto
  have "perm_in (a + q) (a + q + (n - q)) us ys"
    using qsort_perm [of "a + q" "n - q" us es cmp] assms(5) pq assms(2) len bytes [of "n - q"] rec by (cases "n - q > 1") auto
  then have pr: "perm_in (a + q) (a + n) us ys" using pq by simp
  have "three_blocks cmp v a p q n ys"
    using three_blocks_perm [OF three_blocks_perm [OF b] _ disjI2 [OF pr]] us(2) assms(2) len by simp
  moreover have "1 < p \<longrightarrow> qsort cmp es zs a p = Some us" "1 < n - q \<longrightarrow> qsort cmp es us (a + q) (n - q) = Some ys"
    using us(1) rec by (auto split: if_splits)
  ultimately show ?thesis using p us(2) pr by blast
qed (use assms(4) in auto)

section \<open>The comparison function\<close>

text \<open>What the C standard asks of the comparison function: on the objects compared, it defines a total preorder.\<close>

locale comparator =
  fixes A :: "'a set" and cmp :: "'a \<Rightarrow> 'a \<Rightarrow> int"
  assumes flip: "x \<in> A \<Longrightarrow> y \<in> A \<Longrightarrow> cmp x y < 0 \<longleftrightarrow> 0 < cmp y x"
    and trans: "x \<in> A \<Longrightarrow> y \<in> A \<Longrightarrow> z \<in> A \<Longrightarrow> cmp x y \<le> 0 \<Longrightarrow> cmp y z \<le> 0 \<Longrightarrow> cmp x z \<le> 0"

definition sorted_in :: "('a \<Rightarrow> 'a \<Rightarrow> int) \<Rightarrow> nat \<Rightarrow> nat \<Rightarrow> 'a list \<Rightarrow> bool" where
  "sorted_in cmp a b xs \<longleftrightarrow> (\<forall>i j. a \<le> i \<and> i < j \<and> j < b \<longrightarrow> cmp (xs ! i) (xs ! j) \<le> 0)"

text \<open>The loop invariant of the insertion: all in order but the element on its way down, which is not above those it passed.\<close>

definition sinking :: "'a set \<Rightarrow> ('a \<Rightarrow> 'a \<Rightarrow> int) \<Rightarrow> nat \<Rightarrow> nat \<Rightarrow> nat \<Rightarrow> 'a list \<Rightarrow> bool" where
  "sinking A cmp a pl pm xs \<longleftrightarrow> a \<le> pl \<and> pl \<le> pm \<and> pm < length xs \<and> set xs \<subseteq> A
     \<and> (\<forall>i j. a \<le> i \<and> i < j \<and> j \<le> pm \<and> i \<noteq> pl \<and> j \<noteq> pl \<longrightarrow> cmp (xs ! i) (xs ! j) \<le> 0)
     \<and> (\<forall>j. pl < j \<and> j \<le> pm \<longrightarrow> cmp (xs ! pl) (xs ! j) \<le> 0)"

context comparator
begin

lemma refl: "x \<in> A \<Longrightarrow> cmp x x = 0"
  using flip [of x x] by linarith

lemma above: "x \<in> A \<Longrightarrow> y \<in> A \<Longrightarrow> 0 \<le> cmp x y \<longleftrightarrow> cmp y x \<le> 0"
  using flip [of x y] flip [of y x] by linarith

lemma equal: "x \<in> A \<Longrightarrow> y \<in> A \<Longrightarrow> cmp x y = 0 \<longleftrightarrow> cmp y x = 0"
  using flip [of x y] flip [of y x] by linarith

lemma trans_less: "x \<in> A \<Longrightarrow> y \<in> A \<Longrightarrow> z \<in> A \<Longrightarrow> cmp x y \<le> 0 \<Longrightarrow> cmp y z < 0 \<Longrightarrow> cmp x z < 0"
  using trans [of z x y] above [of x z] above [of y z] by force

lemma sinking_step:
  assumes "sinking A cmp a pl pm xs" "a < pl" "0 < cmp (xs ! (pl - 1)) (xs ! pl)"
  shows "sinking A cmp a (pl - 1) pm (xs[pl := xs ! (pl - 1), pl - 1 := xs ! pl])" (is "sinking _ _ _ _ _ ?zs")
proof -
  note inv = assms(1) [unfolded sinking_def]
  have ord: "cmp (xs ! i) (xs ! j) \<le> 0" if "a \<le> i" "i < j" "j \<le> pm" "i \<noteq> pl" "j \<noteq> pl" for i j
    using inv that by blast
  have len: "pl < length xs" "pl - 1 < length xs" "pl - 1 \<noteq> pl" using inv assms(2) by auto
  have "xs ! pl \<in> A" "xs ! (pl - 1) \<in> A" using inv len by auto
  then have le: "cmp (xs ! pl) (xs ! (pl - 1)) < 0" using flip assms(3) by blast
  have "set ?zs = set xs" using len by (intro mset_eq_setD mset_swap) auto
  moreover have "cmp (?zs ! i) (?zs ! j) \<le> 0" if b: "a \<le> i" "i < j" "j \<le> pm" "i \<noteq> pl - 1" "j \<noteq> pl - 1" for i j
  proof -
    consider "i = pl" "a \<le> pl - 1" "pl - 1 < j" | "j = pl" "i < pl - 1" "pl - 1 \<le> pm" | "i \<noteq> pl" "j \<noteq> pl"
      using b assms(2) by linarith
    then show ?thesis
      by cases (use ord [of i j] ord [of "pl - 1" j] ord [of i "pl - 1"] b len in \<open>simp_all add: nth_list_update\<close>)
  qed
  moreover have "cmp (?zs ! (pl - 1)) (?zs ! j) \<le> 0" if "pl - 1 < j" "j \<le> pm" for j
    using inv that len le by (cases "j = pl") (auto simp: nth_list_update)
  ultimately show ?thesis using inv assms(2) unfolding sinking_def by auto
qed

lemma sinking_stop:
  assumes "sinking A cmp a pl pm xs" "pl = a \<or> cmp (xs ! (pl - 1)) (xs ! pl) \<le> 0"
  shows "sorted_in cmp a (pm + 1) xs"
proof -
  note inv = assms(1) [unfolded sinking_def]
  have mem: "xs ! i \<in> A" if "i \<le> pm" for i using inv that by auto
  have "cmp (xs ! i) (xs ! pl) \<le> 0" if "a \<le> i" "i < pl" for i
  proof -
    have le: "cmp (xs ! (pl - 1)) (xs ! pl) \<le> 0" using assms(2) that by auto
    show ?thesis
    proof (cases "i = pl - 1")
      case False
      then have "i < pl - 1" "pl - 1 \<le> pm" "pl - 1 \<noteq> pl" using inv that by auto
      then have "cmp (xs ! i) (xs ! (pl - 1)) \<le> 0" using inv that by auto
      then show ?thesis using trans [OF mem mem mem _ le, of i] inv that by auto
    qed (use le in simp)
  qed
  then show ?thesis using inv unfolding sorted_in_def by (metis Suc_eq_plus1 less_Suc_eq_le)
qed

lemma insert_loop_sorts:
  "sinking A cmp a pl pm xs \<Longrightarrow> insert_loop cmp xs a pl = Some ys \<Longrightarrow> sorted_in cmp a (pm + 1) ys"
proof (induction "pl - a" arbitrary: pl xs)
  case (0 pl xs)
  then have "pl = a" by (simp add: sinking_def)
  then show ?case using 0 sinking_stop by (subst (asm) insert_loop.simps) auto
next
  case (Suc k pl xs)
  have len: "a < pl" "pl < length xs" "pl - 1 < length xs" using Suc(2,3) by (auto simp: sinking_def)
  show ?case
  proof (cases "0 < cmp (xs ! (pl - 1)) (xs ! pl)")
    case True
    have "insert_loop cmp (xs[pl := xs ! (pl - 1), pl - 1 := xs ! pl]) a (pl - 1) = Some ys"
      using Suc(4) True len by (subst (asm) insert_loop.simps) (simp add: compare_at_ok swap_ok)
    then show ?thesis using Suc(1) [OF _ sinking_step [OF Suc(3) len(1) True]] Suc(2) by auto
  next
    case False
    then have "ys = xs" using Suc(4) len by (subst (asm) insert_loop.simps) (simp add: compare_at_ok)
    then show ?thesis using sinking_stop [OF Suc(3)] False by auto
  qed
qed

lemma insertion_loop_sorts:
  "a < pm \<Longrightarrow> a + n \<le> length xs \<Longrightarrow> set xs \<subseteq> A \<Longrightarrow> sorted_in cmp a pm xs
    \<Longrightarrow> insertion_loop cmp xs a n pm = Some ys \<Longrightarrow> sorted_in cmp a (a + n) ys"
proof (induction "a + n - pm" arbitrary: pm xs)
  case (0 pm xs)
  then show ?case by (subst (asm) insertion_loop.simps) (auto simp: sorted_in_def)
next
  case (Suc k pm xs)
  have pm: "pm < a + n" using Suc(2) by simp
  obtain zs where zs: "insert_loop cmp xs a pm = Some zs" "perm_in a (pm + 1) xs zs"
    using insert_loop_perm [of a pm xs cmp] Suc(3,4) pm by auto
  have "sinking A cmp a pm pm xs" using Suc(3-6) pm by (auto simp: sinking_def sorted_in_def)
  then have "sorted_in cmp a (pm + 1) zs" using zs(1) by (rule insert_loop_sorts)
  moreover have "insertion_loop cmp zs a n (pm + 1) = Some ys"
    using Suc(7) pm zs(1) by (subst (asm) insertion_loop.simps) simp
  ultimately show ?case
    using Suc(1) [of "pm + 1" zs] Suc(2-5) perm_in_length [OF zs(2)] perm_in_set [OF zs(2)] by simp
qed

lemma insertion_sort_sorts:
  "a + n \<le> length xs \<Longrightarrow> set xs \<subseteq> A \<Longrightarrow> insertion_sort cmp xs a n = Some ys \<Longrightarrow> sorted_in cmp a (a + n) ys"
  unfolding insertion_sort_def by (rule insertion_loop_sorts) (auto simp: sorted_in_def)

lemma three_blocks_sorted:
  assumes b: "three_blocks cmp v a p q n ws" and A: "set ws \<subseteq> A" and len: "a + n \<le> length ws"
    and left: "sorted_in cmp a (a + p) ws" and right: "sorted_in cmp (a + q) (a + n) ws"
  shows "sorted_in cmp a (a + n) ws"
  unfolding sorted_in_def
proof (intro allI impI)
  fix i j assume ij: "a \<le> i \<and> i < j \<and> j < a + n"
  note b' = b [unfolded three_blocks_def]
  have mem: "ws ! i \<in> A" "ws ! j \<in> A" "v \<in> A" using ij A len b' by auto
  have low: "cmp (ws ! k) v \<le> 0" if "a \<le> k" "k < a + q" for k
  proof (cases "k < a + p")
    case False
    then have "ws ! k = v \<or> cmp (ws ! k) v = 0" using b' that by auto
    then show ?thesis using refl [OF mem(3)] by auto
  qed (use b' that in \<open>auto intro: less_imp_le\<close>)
  have high: "cmp v (ws ! k) \<le> 0" if "a + p \<le> k" "k < a + n" for k
  proof -
    have k: "ws ! k \<in> A" using that len A by auto
    have "0 \<le> cmp (ws ! k) v"
    proof (cases "k < a + q")
      case True
      then have "ws ! k = v \<or> cmp (ws ! k) v = 0" using b' that by auto
      then show ?thesis using refl [OF mem(3)] by auto
    qed (use b' that in \<open>auto intro: less_imp_le\<close>)
    then show ?thesis using above [OF k mem(3)] by simp
  qed
  consider "j < a + p" | "a + q \<le> i" | "i < a + q" "a + p \<le> j" by linarith
  then show "cmp (ws ! i) (ws ! j) \<le> 0"
  proof cases
    case 3
    then show ?thesis using trans [OF mem(1,3,2) low high] ij by auto
  qed (use left right ij in \<open>auto simp: sorted_in_def\<close>)
qed

lemma qsort_sorts:
  "a + n \<le> length xs \<Longrightarrow> n * es < 2 ^ 31 \<Longrightarrow> set xs \<subseteq> A \<Longrightarrow> qsort cmp es xs a n = Some ys \<Longrightarrow> 0 < es
    \<Longrightarrow> sorted_in cmp a (a + n) ys"
proof (induction n arbitrary: a xs ys rule: less_induct)
  case (less n)
  show ?case
  proof (cases "n < 7")
    case True
    then show ?thesis using insertion_sort_sorts [OF less(2,4)] less(5,6) by (subst (asm) qsort.simps) simp
  next
    case False
    then have "7 \<le> n" by simp
    from qsort_split [OF this less(2,3,5,6)] show ?thesis
    proof (elim disjE exE conjE)
      fix zs assume p: "perm_in a (a + n) xs zs" and "insertion_sort cmp zs a n = Some ys"
      then show ?thesis
        using insertion_sort_sorts [of a n zs ys] less(2,4) perm_in_length [OF p] perm_in_set [OF p] by simp
    next
      fix zs us v p q assume p: "perm_in a (a + n) xs zs" "perm_in a (a + p) zs us" and pr: "perm_in (a + q) (a + n) us ys"
        and b: "three_blocks cmp v a p q n ys"
        and rec: "1 < p \<longrightarrow> qsort cmp es zs a p = Some us" "1 < n - q \<longrightarrow> qsort cmp es us (a + q) (n - q) = Some ys"
      have pq: "p < q" "q \<le> n" using three_blocks_sizes [OF b] by auto
      have bytes: "k * es < 2 ^ 31" if "k \<le> n" for k using le_less_trans [OF mult_le_mono1 [OF that] less(3)] .
      note facts = perm_in_length [OF p(1)] perm_in_length [OF p(2)] perm_in_length [OF pr]
        perm_in_set [OF p(1)] perm_in_set [OF p(2)] perm_in_set [OF pr] less(2,4) pq
      have "sorted_in cmp a (a + p) us"
        using less(1) [of p a zs us] facts bytes [of p] rec(1) less(6) by (cases "p > 1") (auto simp: sorted_in_def)
      then have "sorted_in cmp a (a + p) ys" using facts perm_in_outside [OF pr] by (simp add: sorted_in_def)
      moreover have "sorted_in cmp (a + q) (a + q + (n - q)) ys"
        using less(1) [of "n - q" "a + q" us ys] facts bytes [of "n - q"] rec(2) less(6)
        by (cases "n - q > 1") (auto simp: sorted_in_def)
      ultimately show ?thesis using three_blocks_sorted [OF b] facts by simp
    qed
  qed
qed

end

section \<open>The searches\<close>

lemma search_loop_ok:
  assumes "- 1 \<le> left" "left < right" "right \<le> int (length xs)"
  shows "\<exists>l. search_loop goes_left compar key xs left right = Some (l, l + 1) \<and> left \<le> l \<and> l + 1 \<le> right
    \<and> (l = left \<or> \<not> goes_left (compar key (xs ! nat l)))
    \<and> (l + 1 = right \<or> goes_left (compar key (xs ! nat (l + 1))))"
  using assms
proof (induction "nat (right - left)" arbitrary: left right rule: less_induct)
  case less
  show ?case
  proof (cases "left + 1 < right")
    case True
    define mid where "mid = left + (right - left) div 2"
    have mid: "left < mid" "mid < right" "elem_at xs mid = Some (xs ! nat mid)"
      using True less(2-4) by (auto simp: mid_def elem_at_def elem_def)
    let ?left = "goes_left (compar key (xs ! nat mid))"
    have unfold: "search_loop goes_left compar key xs left right =
        (if ?left then search_loop goes_left compar key xs left mid else search_loop goes_left compar key xs mid right)"
      using True mid(3) by (subst search_loop.simps) (simp add: Let_def flip: mid_def)
    show ?thesis
    proof (cases ?left)
      case True
      then show ?thesis using less(1) [of mid left] less(2-4) mid unfold by fastforce
    next
      case False
      then show ?thesis using less(1) [of right mid] less(2-4) mid unfold by fastforce
    qed
  next
    case False
    then show ?thesis using less(3) by (subst search_loop.simps) auto
  qed
qed

lemma count_prefix:
  assumes "k \<le> length xs" "\<forall>i < k. P (xs ! i)" "\<forall>i. k \<le> i \<and> i < length xs \<longrightarrow> \<not> P (xs ! i)"
  shows "length (filter P xs) = k"
proof -
  have "filter P (take k xs) = take k xs" "filter P (drop k xs) = []"
    using assms by (auto simp: filter_id_conv filter_empty_conv in_set_conv_nth)
  then have "filter P xs = take k xs" by (metis append_Nil2 append_take_drop_id filter_append)
  then show ?thesis using assms(1) by simp
qed

lemma count_iff:
  assumes "\<And>i j. i \<le> j \<Longrightarrow> j < length xs \<Longrightarrow> P (xs ! j) \<Longrightarrow> P (xs ! i)" "i < length xs"
  shows "i < length (filter P xs) \<longleftrightarrow> P (xs ! i)"
proof -
  define k where "k = length (takeWhile P xs)"
  have k: "k \<le> length xs" "\<forall>i < k. P (xs ! i)" "k < length xs \<longrightarrow> \<not> P (xs ! k)"
    using set_takeWhileD nth_mem takeWhile_nth nth_length_takeWhile length_takeWhile_le unfolding k_def by metis+
  then have "length (filter P xs) = k" using assms(1) by (intro count_prefix) auto
  then show ?thesis using k assms by (metis linorder_not_less order_le_less_trans)
qed

definition not_above :: "('k \<Rightarrow> 'a \<Rightarrow> int) \<Rightarrow> 'k \<Rightarrow> 'a list \<Rightarrow> nat" where
  "not_above cmp key xs = length (filter (\<lambda>x. 0 \<le> cmp key x) xs)"

definition below :: "('k \<Rightarrow> 'a \<Rightarrow> int) \<Rightarrow> 'k \<Rightarrow> 'a list \<Rightarrow> nat" where
  "below cmp key xs = length (filter (\<lambda>x. 0 < cmp key x) xs)"

context comparator
begin

text \<open>In a sorted array, what is not above the key comes first.\<close>

lemma sorted_prefix:
  assumes "sorted_in cmp 0 (length xs) xs" "set xs \<subseteq> A" "key \<in> A" "i \<le> j" "j < length xs"
  shows "0 \<le> cmp key (xs ! j) \<Longrightarrow> 0 \<le> cmp key (xs ! i)" and "0 < cmp key (xs ! j) \<Longrightarrow> 0 < cmp key (xs ! i)"
proof -
  have mem: "xs ! i \<in> A" "xs ! j \<in> A" using assms by auto
  have le: "cmp (xs ! i) (xs ! j) \<le> 0" using assms refl [OF mem(1)] by (cases "i = j") (auto simp: sorted_in_def)
  show "0 \<le> cmp key (xs ! i)" if "0 \<le> cmp key (xs ! j)"
    using trans [OF mem assms(3) le] that above [OF assms(3) mem(1)] above [OF assms(3) mem(2)] by simp
  show "0 < cmp key (xs ! i)" if "0 < cmp key (xs ! j)"
    using trans_less [OF mem assms(3) le] that flip [OF mem(1) assms(3)] flip [OF mem(2) assms(3)] by simp
qed

lemma not_above_iff:
  assumes "sorted_in cmp 0 (length xs) xs" "set xs \<subseteq> A" "key \<in> A" "i < length xs"
  shows "i < not_above cmp key xs \<longleftrightarrow> 0 \<le> cmp key (xs ! i)"
  unfolding not_above_def using sorted_prefix(1) [OF assms(1-3)] assms(4) by (rule count_iff)

lemma below_iff:
  assumes "sorted_in cmp 0 (length xs) xs" "set xs \<subseteq> A" "key \<in> A" "i < length xs"
  shows "i < below cmp key xs \<longleftrightarrow> 0 < cmp key (xs ! i)"
  unfolding below_def using sorted_prefix(2) [OF assms(1-3)] assms(4) by (rule count_iff)

lemma search_not_above:
  assumes sorted: "sorted_in cmp 0 (length xs) xs" "set xs \<subseteq> A" "key \<in> A" and ne: "xs \<noteq> []"
  shows "search_loop (\<lambda>r. r < 0) cmp key xs 0 (int (length xs))
    = Some (int (max 1 (not_above cmp key xs)) - 1, int (max 1 (not_above cmp key xs)))"
proof -
  obtain l where l: "search_loop (\<lambda>r. r < 0) cmp key xs 0 (int (length xs)) = Some (l, l + 1)" "0 \<le> l"
    "l + 1 \<le> int (length xs)" "l = 0 \<or> \<not> cmp key (xs ! nat l) < 0"
    "l + 1 = int (length xs) \<or> cmp key (xs ! nat (l + 1)) < 0"
    using search_loop_ok [of 0 "int (length xs)" xs "\<lambda>r. r < 0" cmp key] ne by auto
  define k where "k = nat l"
  have k: "l = int k" "k < length xs" "nat (l + 1) = k + 1" using l(2,3) by (auto simp: k_def)
  have "k = 0 \<or> k < not_above cmp key xs"
    using l(4) k not_above_iff [OF sorted, of k] by auto
  moreover have "not_above cmp key xs \<le> k + 1"
    using l(5) k not_above_iff [OF sorted, of "k + 1"] length_filter_le [of "\<lambda>x. 0 \<le> cmp key x" xs, folded not_above_def]
    by (cases "k + 1 < length xs") auto
  ultimately have "max 1 (not_above cmp key xs) = k + 1" by auto
  then show ?thesis using l(1) k(1) by simp
qed

lemma search_below:
  assumes sorted: "sorted_in cmp 0 (length xs) xs" "set xs \<subseteq> A" "key \<in> A" and ne: "xs \<noteq> []"
  shows "lower_bound cmp key xs (length xs) = Some (int (min (length xs - 1) (below cmp key xs)))"
proof -
  obtain l where l: "search_loop (\<lambda>r. r \<le> 0) cmp key xs (- 1) (int (length xs) - 1) = Some (l, l + 1)" "- 1 \<le> l"
    "l + 1 \<le> int (length xs) - 1" "l = - 1 \<or> \<not> cmp key (xs ! nat l) \<le> 0"
    "l + 1 = int (length xs) - 1 \<or> cmp key (xs ! nat (l + 1)) \<le> 0"
    using search_loop_ok [of "- 1" "int (length xs) - 1" xs "\<lambda>r. r \<le> 0" cmp key] ne by auto
  define k where "k = nat (l + 1)"
  have k: "l + 1 = int k" "k < length xs" "k \<noteq> 0 \<Longrightarrow> nat l = k - 1" using l(2,3) by (auto simp: k_def)
  have "k = 0 \<or> k - 1 < below cmp key xs"
    using l(4) k below_iff [OF sorted, of "k - 1"] by (cases "k = 0") auto
  moreover have "k = length xs - 1 \<or> below cmp key xs \<le> k"
    using l(5) k below_iff [OF sorted, of k] by auto
  ultimately have "min (length xs - 1) (below cmp key xs) = k" using k(2) by auto
  then show ?thesis using l(1) k(1) by (simp add: lower_bound_def)
qed

lemma bsearch_not_above:
  assumes sorted: "sorted_in cmp 0 (length xs) xs" "set xs \<subseteq> A" "key \<in> A" and ne: "xs \<noteq> []"
  shows "bsearch cmp key xs (length xs)
    = Some (if \<exists>x \<in> set xs. cmp key x = 0 then Some (int (not_above cmp key xs) - 1) else None)"
proof -
  let ?m = "not_above cmp key xs"
  have m: "?m \<le> length xs" by (simp add: not_above_def)
  define k where "k = max 1 ?m - 1"
  have k: "k < length xs" "int (max 1 ?m) - 1 = int k" using m ne by (cases "?m = 0"; auto simp: k_def max_def)+
  have eq: "bsearch cmp key xs (length xs) = Some (if cmp key (xs ! k) = 0 then Some (int k) else None)"
    using search_not_above [OF assms] k by (simp add: bsearch_def elem_at_def elem_def)
  show ?thesis
  proof (cases "\<exists>x \<in> set xs. cmp key x = 0")
    case True
    then obtain j where j: "j < length xs" "cmp key (xs ! j) = 0" by (auto simp: in_set_conv_nth)
    then have m: "j < ?m" using not_above_iff [OF sorted, of j] by simp
    then have "0 \<le> cmp key (xs ! k)" using not_above_iff [OF sorted, of k] k(1) by (simp add: k_def)
    moreover have "cmp (xs ! j) (xs ! k) \<le> 0"
    proof (cases "j = k")
      case True
      then show ?thesis using refl [of "xs ! j"] sorted(2) j(1) by (simp add: subsetD)
    next
      case False
      then show ?thesis using sorted(1) k m by (simp add: sorted_in_def k_def)
    qed
    moreover have "xs ! j \<in> A" "xs ! k \<in> A" using nth_mem [OF j(1)] nth_mem [OF k(1)] sorted(2) by auto
    ultimately have "0 \<le> cmp key (xs ! k)" "cmp key (xs ! k) \<le> 0"
      using trans [OF sorted(3), of "xs ! j" "xs ! k"] j(2) by auto
    then show ?thesis using eq True m k(2) by simp
  next
    case False
    then show ?thesis using eq k(1) by auto
  qed
qed

end

section \<open>Properties\<close>

lemma perm_in_outer:
  assumes "perm_in a b xs ys" "b \<le> length xs"
  shows "take a ys = take a xs" "drop b ys = drop b xs"
  using assms by (auto simp: perm_in_def intro!: nth_equalityI)

text \<open>
  C10: Whatever the comparison function answers, \<^verbatim>\<open>qsort\<close> comes to an end: it never touches memory
  outside the \<open>n\<close> elements it was given, and leaves there a rearrangement of what it found.  The only
  conditions are that the elements have a size and that the array has less than 2 GiB, the limit of the
  \<^verbatim>\<open>int\<close> the code keeps byte distances in.
\<close>

theorem qsort_returns:
  assumes "a + n \<le> length xs" "n * es < 2 ^ 31" "0 < es"
  shows "\<exists>ys. qsort cmp es xs a n = Some ys \<and> mset ys = mset xs
    \<and> take a ys = take a xs \<and> drop (a + n) ys = drop (a + n) xs"
proof -
  obtain ys where "qsort cmp es xs a n = Some ys" "perm_in a (a + n) xs ys"
    using qsort_perm [OF assms, of cmp] by blast
  then show ?thesis using perm_in_outer [of a "a + n" xs ys] assms(1) by (simp add: perm_in_def)
qed

lemma length_8_9: "length [a, b, c, d, e, f, g, h] = 8" "length [a, b, c, d, e, f, g, h, i] = 9"
  by simp_all

theorem qsort_returns_witness:
  "\<exists>ys. qsort (\<lambda>_ _. 1) 4 [5, 3, 9, 1, 7, 8, 2, 6, 4 :: int] 0 9 = Some ys
    \<and> mset ys = mset [5, 3, 9, 1, 7, 8, 2, 6, 4]"
  using qsort_returns [of 0 9 "[5, 3, 9, 1, 7, 8, 2, 6, 4 :: int]" 4 "\<lambda>_ _. 1", unfolded length_8_9] by auto

text \<open>
  C9: With a comparison function that orders the elements of the array, elements of non-zero size and an
  array of less than 2 GiB, \<^verbatim>\<open>qsort\<close> returns the same elements in ascending order.
\<close>

theorem qsort_sorts_array:
  assumes "comparator A cmp" "set xs \<subseteq> A" "length xs * es < 2 ^ 31" "0 < es"
  shows "\<exists>ys. qsort cmp es xs 0 (length xs) = Some ys \<and> mset ys = mset xs \<and> sorted_wrt (\<lambda>x y. cmp x y \<le> 0) ys"
proof -
  obtain ys where ys: "qsort cmp es xs 0 (length xs) = Some ys" "perm_in 0 (0 + length xs) xs ys"
    using qsort_perm [of 0 "length xs" xs es cmp] assms(3,4) by auto
  then have "sorted_in cmp 0 (length ys) ys"
    using comparator.qsort_sorts [OF assms(1) _ assms(3,2) _ assms(4), of 0 ys] by (simp add: perm_in_def)
  then show ?thesis using ys by (auto simp: perm_in_def sorted_in_def sorted_wrt_iff_nth_less)
qed

lemma int_comparator: "comparator UNIV (\<lambda>x y :: int. x - y)"
  by unfold_locales auto

theorem qsort_sorts_array_witness:
  "\<exists>ys. qsort (\<lambda>x y. x - y) 4 [5, 3, 9, 1, 7, 8, 2, 6, 4 :: int] 0 9 = Some ys
    \<and> mset ys = mset [5, 3, 9, 1, 7, 8, 2, 6, 4] \<and> sorted_wrt (\<lambda>x y. x - y \<le> 0) ys"
  using qsort_sorts_array [OF int_comparator, of "[5, 3, 9, 1, 7, 8, 2, 6, 4]" 4, unfolded length_8_9] by simp

text \<open>
  C25: Searching a sorted array.  In what \<^verbatim>\<open>qsort\<close> leaves of a non-empty array of elements that have a size, \<^verbatim>\<open>bsearch\<close> finds a key
  exactly if some element is equal to it, and then the last such element.  \<^verbatim>\<open>upper_bound\<close> returns the
  first element above the key, but never the first element of the array; \<^verbatim>\<open>lower_bound\<close> returns the
  first element not below the key, and the last element of the array if there is none.
\<close>

theorem sort_then_search:
  assumes "comparator A cmp" "set xs \<subseteq> A" "key \<in> A" "xs \<noteq> []" "length xs * es < 2 ^ 31" "0 < es"
  shows "\<exists>ys. qsort cmp es xs 0 (length xs) = Some ys
    \<and> bsearch cmp key ys (length ys)
        = Some (if \<exists>x \<in> set xs. cmp key x = 0 then Some (int (not_above cmp key xs) - 1) else None)
    \<and> upper_bound cmp key ys (length ys) = Some (int (max 1 (not_above cmp key xs)))
    \<and> lower_bound cmp key ys (length ys) = Some (int (min (length xs - 1) (below cmp key xs)))"
proof -
  obtain ys where ys: "qsort cmp es xs 0 (length xs) = Some ys" "perm_in 0 (0 + length xs) xs ys"
    using qsort_perm [of 0 "length xs" xs es cmp] assms(5,6) by auto
  then have sorted: "sorted_in cmp 0 (length ys) ys" "set ys \<subseteq> A" "ys \<noteq> []"
    using comparator.qsort_sorts [OF assms(1) _ assms(5,2) _ assms(6), of 0 ys] assms(2,4) perm_in_set [OF ys(2)]
    by (auto simp: perm_in_def)
  have "mset (filter P ys) = mset (filter P xs)" for P using ys(2) by (simp add: perm_in_def)
  then have same: "not_above cmp key ys = not_above cmp key xs" "below cmp key ys = below cmp key xs"
    unfolding not_above_def below_def by (metis size_mset)+
  note facts = same perm_in_set [OF ys(2)] perm_in_length [OF ys(2)]
  note s = sorted(1,2) assms(3) sorted(3)
  show ?thesis
    using ys(1) comparator.bsearch_not_above [OF assms(1) s] comparator.search_not_above [OF assms(1) s]
      comparator.search_below [OF assms(1) s]
    by (simp add: facts upper_bound_def)
qed

theorem sort_then_search_witness:
  "\<exists>ys. qsort (\<lambda>x y. x - y) 4 [10, 2, 20, 4, 2, 5, 10, 1 :: int] 0 8 = Some ys
    \<and> bsearch (\<lambda>x y. x - y) 2 ys (length ys) = Some (Some 2)
    \<and> upper_bound (\<lambda>x y. x - y) 2 ys (length ys) = Some 3
    \<and> lower_bound (\<lambda>x y. x - y) 2 ys (length ys) = Some 1"
  using sort_then_search [OF int_comparator, of "[10, 2, 20, 4, 2, 5, 10, 1]" 2 4, unfolded length_8_9]
  by (simp add: not_above_def below_def)

end
