(* ===== verification/Mmap.thy ===== *)
theory Mmap
  imports Prelude
begin

text \<open>
  The list of mapped memory areas of a task: \<^verbatim>\<open>mem/mmap/mmap.c\<close> and \<^verbatim>\<open>mem/marea/marea.c\<close>.  The list
  \<^verbatim>\<open>marea_list\<close> is a list in its order, \<^verbatim>\<open>dlist_add_prev\<close> on its head adds at the end; of the pool the
  areas come from only the number of free objects matters here.  Addresses are \<^typ>\<open>nat\<close> and wrap
  around at 64 bits.
\<close>

section \<open>State\<close>

record marea =
  ma_start :: addr
  ma_size :: nat
  ma_flags :: nat

record emmap =
  marea_list :: "marea list"
  marea_room :: nat

definition ENOMEM :: int where "ENOMEM = 12"
definition EINVAL :: int where "EINVAL = 22"
definition EEXIST :: int where "EEXIST = 302"

section \<open>Operations\<close>

definition INSIDE :: "addr \<Rightarrow> addr \<Rightarrow> addr \<Rightarrow> bool" where
  "INSIDE x a b \<longleftrightarrow> a \<le> x \<and> x < b"

definition INTERSECT :: "addr \<Rightarrow> addr \<Rightarrow> addr \<Rightarrow> addr \<Rightarrow> bool" where
  "INTERSECT a b c d \<longleftrightarrow> INSIDE a c d \<or> INSIDE c a b"

definition marea_alloc :: "emmap \<Rightarrow> addr \<Rightarrow> nat \<Rightarrow> nat \<Rightarrow> (marea \<times> emmap) option" where
  "marea_alloc m start sz flags =
     (if marea_room m = 0 then None
      else Some (\<lparr>ma_start = start, ma_size = sz, ma_flags = flags\<rparr>, m\<lparr>marea_room := marea_room m - 1\<rparr>))"

definition marea_free :: "emmap \<Rightarrow> emmap" where
  "marea_free m = m\<lparr>marea_room := marea_room m + 1\<rparr>"

definition marea_end :: "marea \<Rightarrow> addr" where
  "marea_end a = wrap64 (ma_start a + ma_size a)"

definition mmap_find_marea :: "emmap \<Rightarrow> addr \<Rightarrow> marea option" where
  "mmap_find_marea m vaddr = find (\<lambda>a. INSIDE vaddr (ma_start a) (marea_end a)) (marea_list m)"

definition mmap_check_marea :: "emmap \<Rightarrow> marea \<Rightarrow> int" where
  "mmap_check_marea m a =
     (if mmap_find_marea m (ma_start a) \<noteq> None
         \<or> mmap_find_marea m (sub64 (ma_start a + ma_size a) 1) \<noteq> None
      then - EEXIST else 0)"

definition mmap_place :: "emmap \<Rightarrow> addr \<Rightarrow> nat \<Rightarrow> nat \<Rightarrow> int \<times> emmap" where
  "mmap_place m start sz flags =
     (case marea_alloc m start sz flags of
        None \<Rightarrow> (- ENOMEM, m)
      | Some (a, m) \<Rightarrow>
          if mmap_check_marea m a \<noteq> 0 then (- EINVAL, marea_free m)
          else (0, m\<lparr>marea_list := marea_list m @ [a]\<rparr>))"

text \<open>\<^verbatim>\<open>dlist_del\<close> takes the area found, the first that matches, out of the list.\<close>

fun unlink_first :: "('a \<Rightarrow> bool) \<Rightarrow> 'a list \<Rightarrow> 'a list" where
  "unlink_first P [] = []"
| "unlink_first P (x # xs) = (if P x then xs else x # unlink_first P xs)"

definition mmap_release :: "emmap \<Rightarrow> addr \<Rightarrow> int \<times> emmap" where
  "mmap_release m vaddr =
     (case mmap_find_marea m vaddr of
        Some a \<Rightarrow> (0, m\<lparr>marea_list := unlink_first (\<lambda>a. INSIDE vaddr (ma_start a) (marea_end a)) (marea_list m)\<rparr>)
      | None \<Rightarrow> (- EINVAL, m))"

definition mmap_prot :: "emmap \<Rightarrow> addr \<Rightarrow> nat" where
  "mmap_prot m vaddr = (case mmap_find_marea m vaddr of Some a \<Rightarrow> ma_flags a | None \<Rightarrow> 0)"

definition MAREA_ALIGN_UP :: "addr \<Rightarrow> addr" where
  "MAREA_ALIGN_UP x = (let y = wrap64 (x + 0xFFF) in y - y mod 0x1000)"

text \<open>
  \<^verbatim>\<open>mmap_alloc\<close>: the \<^verbatim>\<open>continue\<close> belongs to the inner loop over the areas, so that the outer loop ends
  after one pass.
\<close>

definition mmap_alloc_step :: "nat \<Rightarrow> addr \<times> addr \<Rightarrow> marea \<Rightarrow> addr \<times> addr" where
  "mmap_alloc_step sz p a =
     (if INTERSECT (fst p) (snd p) (ma_start a) (marea_end a)
      then (let ptr_s = MAREA_ALIGN_UP (ma_start a + ma_size a) in (ptr_s, MAREA_ALIGN_UP (ptr_s + sz)))
      else p)"

definition mmap_alloc :: "emmap \<Rightarrow> nat \<Rightarrow> addr" where
  "mmap_alloc m sz =
     (let ptr_s = MAREA_ALIGN_UP 1; ptr_e = MAREA_ALIGN_UP (ptr_s + sz) in
      fst (foldl (mmap_alloc_step sz) (ptr_s, ptr_e) (marea_list m)))"

section \<open>Placing an area\<close>

text \<open>Whether an address lies in no area of the list.\<close>

definition unmapped :: "emmap \<Rightarrow> addr \<Rightarrow> bool" where
  "unmapped m x \<longleftrightarrow> list_all (\<lambda>a. \<not> INSIDE x (ma_start a) (marea_end a)) (marea_list m)"

lemma find_unmapped: "mmap_find_marea m x = None \<longleftrightarrow> unmapped m x"
  by (auto simp: mmap_find_marea_def unmapped_def find_None_iff list_all_iff)

lemma mmap_place_ok:
  assumes "marea_room m \<noteq> 0" "unmapped m start" "unmapped m (start + sz - 1)" "0 < sz" "start + sz < 2 ^ 64"
  shows "mmap_place m start sz flags =
    (0, m\<lparr>marea_list := marea_list m @ [\<lparr>ma_start = start, ma_size = sz, ma_flags = flags\<rparr>], marea_room := marea_room m - 1\<rparr>)"
proof -
  have "sub64 (start + sz) 1 = start + sz - 1" using assms(4,5) by (intro sub64_small) auto
  then show ?thesis using assms(1-3) find_unmapped
    by (simp add: mmap_place_def marea_alloc_def mmap_check_marea_def mmap_find_marea_def unmapped_def find_None_iff list_all_iff)
qed

text \<open>
  C34: Three defects of the list of areas.  \<^verbatim>\<open>mmap_place\<close> looks up only the first and the last address of
  the new area, so it accepts an area that encloses a mapped one.  \<^verbatim>\<open>mmap_alloc\<close> goes through the list
  once, so it returns a mapped address when an area further down the list moves it onto one it has
  already passed.  \<^verbatim>\<open>mmap_release\<close> takes the area out of the list but never gives it back to the pool.
\<close>

theorem mmap_defects:
  assumes "start < ma_start a" "ma_start a + ma_size a < start + sz" "start + sz < 2 ^ 64"
    and "0 < k" "k < 2 ^ 40"
  shows "mmap_place \<lparr>marea_list = [a], marea_room = n + 1\<rparr> start sz flags
      = (0, \<lparr>marea_list = [a, \<lparr>ma_start = start, ma_size = sz, ma_flags = flags\<rparr>], marea_room = n\<rparr>)
    \<and> mmap_alloc \<lparr>marea_list = [\<lparr>ma_start = 0x2000, ma_size = 0x1000 * k, ma_flags = f\<rparr>,
        \<lparr>ma_start = 0x1000, ma_size = 0x1000, ma_flags = g\<rparr>], marea_room = r\<rparr> 0x1000 = 0x2000
    \<and> mmap_release (snd (mmap_place \<lparr>marea_list = [], marea_room = n + 1\<rparr> start sz flags)) start
      = (0, \<lparr>marea_list = [], marea_room = n\<rparr>)"
proof (intro conjI)
  have wrap: "marea_end a = ma_start a + ma_size a" "wrap64 (start + sz) = start + sz"
    using assms(2,3) by (simp_all add: marea_end_def wrap64_small)
  have sz: "0 < sz" using assms(1,2) by simp
  show "mmap_place \<lparr>marea_list = [a], marea_room = n + 1\<rparr> start sz flags
      = (0, \<lparr>marea_list = [a, \<lparr>ma_start = start, ma_size = sz, ma_flags = flags\<rparr>], marea_room = n\<rparr>)"
    by (subst mmap_place_ok) (use assms(1-3) sz wrap in \<open>auto simp: unmapped_def INSIDE_def\<close>)
  show "mmap_release (snd (mmap_place \<lparr>marea_list = [], marea_room = n + 1\<rparr> start sz flags)) start
      = (0, \<lparr>marea_list = [], marea_room = n\<rparr>)"
    by (subst mmap_place_ok)
      (use assms(3) sz wrap in \<open>simp_all add: unmapped_def INSIDE_def mmap_release_def mmap_find_marea_def marea_end_def\<close>)
  have "wrap64 (0x2000 + 0x1000 * k) = 0x2000 + 0x1000 * k" using assms(5) by (intro wrap64_small) simp
  then show "mmap_alloc \<lparr>marea_list = [\<lparr>ma_start = 0x2000, ma_size = 0x1000 * k, ma_flags = f\<rparr>,
        \<lparr>ma_start = 0x1000, ma_size = 0x1000, ma_flags = g\<rparr>], marea_room = r\<rparr> 0x1000 = 0x2000"
    by (simp add: mmap_alloc_def mmap_alloc_step_def MAREA_ALIGN_UP_def INTERSECT_def INSIDE_def marea_end_def wrap64_def)
qed

theorem mmap_defects_witness:
  "mmap_place \<lparr>marea_list = [\<lparr>ma_start = 0x3000, ma_size = 0x1000, ma_flags = 3\<rparr>], marea_room = 5\<rparr> 0x2000 0x4000 3
      = (0, \<lparr>marea_list = [\<lparr>ma_start = 0x3000, ma_size = 0x1000, ma_flags = 3\<rparr>,
          \<lparr>ma_start = 0x2000, ma_size = 0x4000, ma_flags = 3\<rparr>], marea_room = 4\<rparr>)
    \<and> mmap_alloc \<lparr>marea_list = [\<lparr>ma_start = 0x2000, ma_size = 0x1000, ma_flags = 3\<rparr>,
        \<lparr>ma_start = 0x1000, ma_size = 0x1000, ma_flags = 3\<rparr>], marea_room = 0\<rparr> 0x1000 = 0x2000"
  using mmap_defects [where start = "0x2000" and a = "\<lparr>ma_start = 0x3000, ma_size = 0x1000, ma_flags = 3\<rparr>"
      and sz = "0x4000" and k = 1 and n = 4 and flags = 3 and f = 3 and g = 3 and r = 0]
  by simp

end
