(* ===== verification/Periph_Mem.thy ===== *)
theory Periph_Mem
  imports Qsort Mmap
begin

text \<open>
  The mapping of device memory at boot, \<^verbatim>\<open>drivers/periph_memory/memory.c\<close>: the page ranges of all
  device descriptors are sorted with \<^verbatim>\<open>qsort\<close>, ranges that touch are grouped, and each group is
  entered into the kernel task's list of memory areas.  The registry the linker collects is the
  argument \<open>descs\<close>, \<^verbatim>\<open>MMU_PAGE_SIZE\<close> the argument \<open>ps\<close>.
\<close>

section \<open>Model\<close>

record periph_memory_desc =
  d_start :: addr
  d_len :: nat

record segment =
  seg_start :: nat
  seg_end :: nat

definition PERIPH_MAX_SEGMENTS :: nat where "PERIPH_MAX_SEGMENTS = 64"

text \<open>\<^verbatim>\<open>_seg_cmp\<close>: the difference of two \<^verbatim>\<open>uintptr_t\<close>, returned as an \<^verbatim>\<open>int\<close>.\<close>

definition seg_cmp :: "segment \<Rightarrow> segment \<Rightarrow> int" where
  "seg_cmp a b = sint (word_of_nat (sub64 (seg_start a) (seg_start b)) :: u32)"

definition desc_segment :: "nat \<Rightarrow> periph_memory_desc \<Rightarrow> segment" where
  "desc_segment ps d =
     \<lparr>seg_start = d_start d div ps, seg_end = wrap64 (d_start d + d_len d + (ps - 1)) div ps\<rparr>"

text \<open>The inner loop: the segments from \<open>r\<close> on that start inside or right behind the group.\<close>

function group_loop :: "segment list \<Rightarrow> nat \<Rightarrow> nat \<Rightarrow> nat \<times> nat" where
  "group_loop segs r addr_end =
     (if r < length segs \<and> seg_start (segs ! r) \<le> addr_end
      then group_loop segs (r + 1) (if seg_end (segs ! r) > addr_end then seg_end (segs ! r) else addr_end)
      else (r, addr_end))"
  by auto
termination by (relation "measure (\<lambda>(segs, r, _). length segs - r)") auto

declare group_loop.simps [simp del]

lemma group_loop_le: "r \<le> fst (group_loop segs r e)"
proof (induction segs r e rule: group_loop.induct)
  case (1 segs r e)
  then show ?case by (subst group_loop.simps) (simp add: Suc_leD)
qed

definition PERIPH_PROT :: nat where "PERIPH_PROT = 1 + 2 + 8"

text \<open>The outer loop; at its head \<open>r\<close> is always \<open>l + 1\<close>.\<close>

function map_loop :: "nat \<Rightarrow> segment list \<Rightarrow> emmap \<Rightarrow> nat \<Rightarrow> int \<times> emmap" where
  "map_loop ps segs m l =
     (if l < length segs
      then (let r = l + 1; addr_start = seg_start (segs ! l); addr_end = seg_end (segs ! (r - 1));
              g = group_loop segs r addr_end; r = fst g; addr_end = snd g;
              addr_start = wrap64 (addr_start * ps); addr_end = wrap64 (addr_end * ps);
              p = mmap_place m addr_start (sub64 addr_end addr_start) PERIPH_PROT in
            if fst p \<noteq> 0 then (- ENOMEM, snd p) else map_loop ps segs (snd p) r)
      else (0, m))"
  by auto
termination
  by (relation "measure (\<lambda>(_, segs, _, l). length segs - l)")
    (auto intro!: diff_less_mono2 less_le_trans [OF lessI group_loop_le])

declare map_loop.simps [simp del]

definition periph_memory_init :: "nat \<Rightarrow> periph_memory_desc list \<Rightarrow> emmap \<Rightarrow> (int \<times> emmap) option" where
  "periph_memory_init ps descs m = do {
     segs \<leftarrow> (if length descs \<le> PERIPH_MAX_SEGMENTS then Some (map (desc_segment ps) descs) else None);
     segs \<leftarrow> qsort seg_cmp 16 segs 0 (length segs);
     Some (map_loop ps segs m 0)}"

section \<open>The comparison function\<close>

lemma seg_cmp_eq:
  assumes "seg_start a < 2 ^ 31" "seg_start b < 2 ^ 31"
  shows "seg_cmp a b = int (seg_start a) - int (seg_start b)"
proof -
  let ?x = "seg_start a" and ?y = "seg_start b"
  have "int (sub64 ?x ?y) mod 2 ^ 32 = (int ?x - int ?y) mod 2 ^ 32"
  proof (cases "?y \<le> ?x")
    case True
    then have "sub64 ?x ?y = ?x - ?y" using assms by (intro sub64_small) auto
    then show ?thesis using True by (simp add: of_nat_diff)
  next
    case False
    then have "sub64 ?x ?y = 2 ^ 64 + ?x - ?y" using assms by (intro sub64_wrap) auto
    then have "int (sub64 ?x ?y) = (int ?x - int ?y) + 2 ^ 32 * 2 ^ 32"
      using assms by (simp only: of_nat_diff of_nat_add) simp
    then show ?thesis by (simp only: mod_mult_self2)
  qed
  then have "(word_of_int (int (sub64 ?x ?y)) :: u32) = word_of_int (int ?x - int ?y)"
    unfolding word_of_int_eq_iff take_bit_eq_mod by simp
  then have "seg_cmp a b = sint (word_of_int (int ?x - int ?y) :: u32)"
    unfolding seg_cmp_def by (metis of_int_of_nat_eq)
  also have "\<dots> = signed_take_bit 31 (int ?x - int ?y)" by (subst sint_sbintrunc') simp
  also have "\<dots> = int ?x - int ?y" using assms by (intro signed_take_bit_int_eq_self) auto
  finally show ?thesis .
qed

interpretation seg: comparator "{s. seg_start s < 2 ^ 31}" seg_cmp
  by unfold_locales (auto simp: seg_cmp_eq)

section \<open>Grouping\<close>

text \<open>The groups of a list of page ranges, without indices.\<close>

fun grow :: "nat \<Rightarrow> nat \<Rightarrow> segment list \<Rightarrow> (nat \<times> nat) list" where
  "grow s e [] = [(s, e)]"
| "grow s e (x # xs) =
     (if seg_start x \<le> e then grow s (max e (seg_end x)) xs else (s, e) # grow (seg_start x) (seg_end x) xs)"

definition groups :: "segment list \<Rightarrow> (nat \<times> nat) list" where
  "groups xs = (case xs of [] \<Rightarrow> [] | x # xs \<Rightarrow> grow (seg_start x) (seg_end x) xs)"

lemma groups_Nil: "groups [] = []"
  by (simp add: groups_def)

lemma groups_Cons: "groups (x # xs) = grow (seg_start x) (seg_end x) xs"
  by (simp add: groups_def)

lemma grow_group_loop:
  "grow s e (drop r segs) = (s, snd (group_loop segs r e)) # groups (drop (fst (group_loop segs r e)) segs)"
proof (induction segs r e rule: group_loop.induct)
  case (1 segs r e)
  let ?e = "if seg_end (segs ! r) > e then seg_end (segs ! r) else e"
  have split: "drop r segs = segs ! r # drop (r + 1) segs" if "r < length segs" using that by (simp add: Cons_nth_drop_Suc)
  show ?case
  proof (cases "r < length segs \<and> seg_start (segs ! r) \<le> e")
    case True
    then have "group_loop segs r e = group_loop segs (r + 1) ?e" by (subst group_loop.simps) simp
    moreover have "grow s e (drop r segs) = grow s ?e (drop (r + 1) segs)" using True split by (simp add: max_def)
    ultimately show ?thesis using 1 [OF True] by simp
  next
    case False
    then have "group_loop segs r e = (r, e)" by (subst group_loop.simps) auto
    then show ?thesis using False split by (cases "r < length segs") (simp_all add: groups_def)
  qed
qed

text \<open>Entering the groups into the list of areas one after the other.\<close>

fun place_groups :: "nat \<Rightarrow> (nat \<times> nat) list \<Rightarrow> emmap \<Rightarrow> int \<times> emmap" where
  "place_groups ps [] m = (0, m)"
| "place_groups ps ((s, e) # gs) m =
     (let p = mmap_place m (wrap64 (s * ps)) (sub64 (wrap64 (e * ps)) (wrap64 (s * ps))) PERIPH_PROT in
      if fst p \<noteq> 0 then (- ENOMEM, snd p) else place_groups ps gs (snd p))"

lemma map_loop_groups: "map_loop ps segs m l = place_groups ps (groups (drop l segs)) m"
proof (induction ps segs m l rule: map_loop.induct)
  case (1 ps segs m l)
  show ?case
  proof (cases "l < length segs")
    case True
    then have "drop l segs = segs ! l # drop (l + 1) segs" by (simp add: Cons_nth_drop_Suc)
    then have "groups (drop l segs) = (seg_start (segs ! l), snd (group_loop segs (l + 1) (seg_end (segs ! l))))
        # groups (drop (fst (group_loop segs (l + 1) (seg_end (segs ! l)))) segs)"
      by (simp add: groups_Cons grow_group_loop)
    then show ?thesis using 1 True by (subst map_loop.simps) (simp add: Let_def)
  next
    case False
    then show ?thesis by (subst map_loop.simps) (simp add: groups_def)
  qed
qed

lemma grow_starts: "sorted_wrt (\<le>) (s # map seg_start xs) \<Longrightarrow> g \<in> set (grow s e xs) \<Longrightarrow> s \<le> fst g"
proof (induction s e xs rule: grow.induct)
  case (2 s e x xs)
  then show ?case by (auto split: if_splits dest: order_trans)
qed auto

lemma grow_separate:
  "sorted_wrt (\<le>) (s # map seg_start xs) \<Longrightarrow> sorted_wrt (\<lambda>g h. snd g < fst h) (grow s e xs)"
proof (induction s e xs rule: grow.induct)
  case (2 s e x xs)
  have "sorted_wrt (\<le>) (seg_start x # map seg_start xs)" using 2(3) by simp
  then have "seg_start x \<le> fst g" if "g \<in> set (grow (seg_start x) (seg_end x) xs)" for g
    using that by (rule grow_starts)
  then show ?case using 2 by force
qed simp

lemma grow_cover:
  "sorted_wrt (\<le>) (s # map seg_start xs) \<Longrightarrow> (\<exists>g \<in> set (grow s e xs). fst g \<le> p \<and> p < snd g)
     \<longleftrightarrow> s \<le> p \<and> p < e \<or> (\<exists>x \<in> set xs. seg_start x \<le> p \<and> p < seg_end x)"
proof (induction s e xs rule: grow.induct)
  case (2 s e x xs)
  show ?case
  proof (cases "seg_start x \<le> e")
    case True
    have "s \<le> p \<and> p < max e (seg_end x) \<longleftrightarrow> s \<le> p \<and> p < e \<or> seg_start x \<le> p \<and> p < seg_end x"
      using True 2(3) by auto
    then show ?thesis using 2(1) 2(3) True by auto
  next
    case False
    then show ?thesis using 2(2) 2(3) by simp
  qed
qed simp

text \<open>Each group begins where some segment begins and ends where some segment ends.\<close>

lemma grow_ends:
  "g \<in> set (grow s e xs) \<Longrightarrow> s < e \<Longrightarrow> \<forall>x \<in> set xs. seg_start x < seg_end x \<Longrightarrow>
     fst g < snd g \<and> fst g \<in> insert s (seg_start ` set xs) \<and> snd g \<in> insert e (seg_end ` set xs)"
proof (induction s e xs rule: grow.induct)
  case (2 s e x xs)
  then show ?case by (auto split: if_splits simp: max_def)
qed auto

lemma length_grow: "length (grow s e xs) \<le> length xs + 1"
  by (induction s e xs rule: grow.induct) auto

lemma groups_facts:
  assumes "sorted_wrt (\<le>) (map seg_start xs)" "\<forall>x \<in> set xs. seg_start x < seg_end x"
  shows "sorted_wrt (\<lambda>g h. snd g < fst h) (groups xs)" "length (groups xs) \<le> length xs"
    "(\<exists>g \<in> set (groups xs). fst g \<le> p \<and> p < snd g) \<longleftrightarrow> (\<exists>x \<in> set xs. seg_start x \<le> p \<and> p < seg_end x)"
    "\<forall>g \<in> set (groups xs). fst g < snd g \<and> fst g \<in> seg_start ` set xs \<and> snd g \<in> seg_end ` set xs"
proof -
  have "sorted_wrt (\<lambda>g h. snd g < fst h) (groups xs) \<and> length (groups xs) \<le> length xs
    \<and> ((\<exists>g \<in> set (groups xs). fst g \<le> p \<and> p < snd g) \<longleftrightarrow> (\<exists>x \<in> set xs. seg_start x \<le> p \<and> p < seg_end x))
    \<and> (\<forall>g \<in> set (groups xs). fst g < snd g \<and> fst g \<in> seg_start ` set xs \<and> snd g \<in> seg_end ` set xs)"
  proof (cases xs)
    case (Cons x ys)
    then have "sorted_wrt (\<le>) (seg_start x # map seg_start ys)" using assms(1) by simp
    then show ?thesis
      using Cons assms(2) grow_separate grow_cover [of "seg_start x" ys "seg_end x" p] length_grow [of "seg_start x" "seg_end x" ys]
        grow_ends [of _ "seg_start x" "seg_end x" ys]
      by (auto simp: groups_Cons)
  qed (simp add: groups_Nil)
  then show "sorted_wrt (\<lambda>g h. snd g < fst h) (groups xs)" "length (groups xs) \<le> length xs"
    "(\<exists>g \<in> set (groups xs). fst g \<le> p \<and> p < snd g) \<longleftrightarrow> (\<exists>x \<in> set xs. seg_start x \<le> p \<and> p < seg_end x)"
    "\<forall>g \<in> set (groups xs). fst g < snd g \<and> fst g \<in> seg_start ` set xs \<and> snd g \<in> seg_end ` set xs"
    by blast+
qed

definition group_area :: "nat \<Rightarrow> nat \<times> nat \<Rightarrow> marea" where
  "group_area ps g = \<lparr>ma_start = fst g * ps, ma_size = (snd g - fst g) * ps, ma_flags = PERIPH_PROT\<rparr>"

lemma place_groups_ok:
  assumes "0 < ps" "\<forall>g \<in> set gs. fst g < snd g \<and> snd g * ps < 2 ^ 64 \<and> unmapped m (fst g * ps) \<and> unmapped m (snd g * ps - 1)"
    and "sorted_wrt (\<lambda>g h. snd g < fst h) gs" "length gs \<le> marea_room m"
  shows "place_groups ps gs m = (0, m\<lparr>marea_list := marea_list m @ map (group_area ps) gs, marea_room := marea_room m - length gs\<rparr>)"
  using assms(2-4)
proof (induction gs arbitrary: m)
  case (Cons g gs)
  obtain s e where g: "g = (s, e)" by (cases g)
  have b: "s < e" "s * ps < e * ps" "e * ps < 2 ^ 64" using Cons(2) g assms(1) by auto
  have size: "(e - s) * ps = e * ps - s * ps" "s * ps + (e * ps - s * ps) = e * ps"
    using b(2) by (auto simp: diff_mult_distrib)
  let ?m = "m\<lparr>marea_list := marea_list m @ [group_area ps g], marea_room := marea_room m - 1\<rparr>"
  have wrap: "wrap64 (s * ps) = s * ps" "wrap64 (e * ps) = e * ps" 
    by (rule wrap64_small [OF less_trans [OF b(2,3)]], rule wrap64_small [OF b(3)])
  then have "sub64 (wrap64 (e * ps)) (wrap64 (s * ps)) = e * ps - s * ps"
    using b by (simp only: sub64_small less_imp_le)
  moreover have "mmap_place m (s * ps) (e * ps - s * ps) PERIPH_PROT = (0, ?m)"
    by (subst mmap_place_ok) (use Cons(2,4) g b size in \<open>auto simp: group_area_def\<close>)
  ultimately have step: "place_groups ps (g # gs) m = place_groups ps gs ?m"
    using wrap g by (simp add: Let_def)
  have end': "marea_end (group_area ps g) = e * ps" using g b size by (simp add: marea_end_def group_area_def wrap64_small)
  have "unmapped ?m x" if "unmapped m x" "e * ps \<le> x" for x
    using that end' by (simp add: unmapped_def INSIDE_def)
  moreover have "e * ps \<le> fst h * ps \<and> e * ps \<le> snd h * ps - 1" if h: "h \<in> set gs" for h
  proof -
    have "e + 1 \<le> fst h" "fst h < snd h" using Cons(2,3) g h by auto
    then have "(e + 1) * ps \<le> fst h * ps" "(e + 1) * ps \<le> snd h * ps" by (simp_all only: mult_le_mono1)
    then have "e * ps + ps \<le> fst h * ps" "e * ps + ps \<le> snd h * ps" by simp_all
    then show ?thesis using assms(1) by linarith
  qed
  ultimately have "place_groups ps gs ?m = (0, ?m\<lparr>marea_list := marea_list ?m @ map (group_area ps) gs,
      marea_room := marea_room ?m - length gs\<rparr>)"
    using Cons(2-4) by (intro Cons(1)) auto
  then show ?case using step by simp
qed simp

section \<open>Properties\<close>

lemma desc_segment_bounds:
  assumes "0 < ps" "0 < d_len d" "d_start d + d_len d + ps < 2 ^ 64"
  shows "seg_start (desc_segment ps d) < seg_end (desc_segment ps d)" "seg_end (desc_segment ps d) * ps < 2 ^ 64"
    "p < seg_end (desc_segment ps d) \<longleftrightarrow> p * ps < d_start d + d_len d"
proof -
  let ?n = "d_start d + d_len d + (ps - 1)"
  have e: "seg_end (desc_segment ps d) = ?n div ps" using assms by (simp add: desc_segment_def wrap64_small)
  have "d_start d div ps + 1 = (d_start d + ps) div ps" using assms(1) by (simp add: div_add_self2)
  also have "\<dots> \<le> ?n div ps" using assms(2) by (intro div_le_mono) simp
  finally show "seg_start (desc_segment ps d) < seg_end (desc_segment ps d)" unfolding e by (simp add: desc_segment_def)
  have "?n div ps * ps \<le> ?n" by (rule div_times_less_eq_dividend)
  then show "seg_end (desc_segment ps d) * ps < 2 ^ 64" using assms(3) unfolding e by linarith
  have "p < ?n div ps \<longleftrightarrow> Suc p \<le> ?n div ps" by (simp only: Suc_le_eq)
  also have "\<dots> \<longleftrightarrow> Suc p * ps \<le> ?n" using assms(1) by (rule less_eq_div_iff_mult_less_eq)
  also have "\<dots> \<longleftrightarrow> p * ps < d_start d + d_len d" using assms(1) by auto
  finally show "p < seg_end (desc_segment ps d) \<longleftrightarrow> p * ps < d_start d + d_len d" by (simp add: e)
qed

lemma sorted_segments:
  assumes "set xs \<subseteq> {s. seg_start s < 2 ^ 31}" "length xs \<le> 64"
  shows "\<exists>ys. qsort seg_cmp 16 xs 0 (length xs) = Some ys \<and> mset ys = mset xs \<and> sorted_wrt (\<le>) (map seg_start ys)"
proof -
  have bytes: "length xs * 16 < 2 ^ 31" using assms(2) by simp
  then obtain ys where ys: "qsort seg_cmp 16 xs 0 (length xs) = Some ys" "perm_in 0 (0 + length xs) xs ys"
    using qsort_perm [of 0 "length xs" xs 16 seg_cmp] by auto
  have "sorted_in seg_cmp 0 (length ys) ys"
    using seg.qsort_sorts [OF _ bytes assms(1) ys(1)] perm_in_length [OF ys(2)] by simp
  moreover have "seg_start (ys ! i) < 2 ^ 31" if "i < length ys" for i
    using nth_mem [OF that] perm_in_set [OF ys(2)] assms(1) by auto
  ultimately have "sorted_wrt (\<le>) (map seg_start ys)"
    by (auto simp: sorted_in_def sorted_wrt_iff_nth_less seg_cmp_eq)
  then show ?thesis using ys by (auto simp: perm_in_def)
qed

lemma group_area_end: "fst g < snd g \<Longrightarrow> ma_start (group_area ps g) + ma_size (group_area ps g) = snd g * ps"
  by (simp add: group_area_def flip: add_mult_distrib)

lemma group_area_less:
  assumes "0 < ps" "fst g < snd g" "snd g < fst h"
  shows "ma_start (group_area ps g) + ma_size (group_area ps g) < ma_start (group_area ps h)"
  unfolding group_area_end [OF assms(2)] using assms(1,3) by (simp add: group_area_def)

lemma group_area_page:
  assumes "0 < ps" "fst g < snd g"
  shows "ma_start (group_area ps g) \<le> p * ps \<and> p * ps < ma_start (group_area ps g) + ma_size (group_area ps g)
    \<longleftrightarrow> fst g \<le> p \<and> p < snd g"
  using group_area_end [OF assms(2), of ps] assms(1) by (simp add: group_area_def)

text \<open>
  C12: The mapping of device memory.  For at most 64 devices, none of them empty, with memory below
  page \<open>2 ^ 31\<close> that no area maps yet and enough free areas, \<^verbatim>\<open>periph_memory_init\<close> succeeds and adds
  areas that begin and end at page boundaries, lie in ascending order with gaps between them, and
  hold exactly the pages some device has memory in.
\<close>

theorem periph_memory_maps_devices:
  assumes ps: "0 < ps" and few: "length descs \<le> 64" "length descs \<le> marea_room m"
    and devs: "\<And>d. d \<in> set descs \<Longrightarrow> 0 < d_len d \<and> d_start d + d_len d + ps < 2 ^ 64 \<and> d_start d div ps < 2 ^ 31"
    and free: "\<And>d x. d \<in> set descs \<Longrightarrow> d_start d div ps \<le> x div ps \<Longrightarrow> x div ps * ps < d_start d + d_len d \<Longrightarrow> unmapped m x"
  shows "\<exists>new. periph_memory_init ps descs m
      = Some (0, m\<lparr>marea_list := marea_list m @ new, marea_room := marea_room m - length new\<rparr>)
    \<and> (\<forall>p. (\<exists>a \<in> set new. ma_start a \<le> p * ps \<and> p * ps < ma_start a + ma_size a)
         \<longleftrightarrow> (\<exists>d \<in> set descs. d_start d div ps \<le> p \<and> p * ps < d_start d + d_len d))
    \<and> sorted_wrt (\<lambda>a b. ma_start a + ma_size a < ma_start b) new
    \<and> (\<forall>a \<in> set new. ps dvd ma_start a \<and> ps dvd ma_size a \<and> ma_flags a = PERIPH_PROT)"
proof -
  let ?xs = "map (desc_segment ps) descs"
  have seg: "seg_start (desc_segment ps d) = d_start d div ps" for d by (simp add: desc_segment_def)
  have small: "set ?xs \<subseteq> {s. seg_start s < 2 ^ 31}" using devs seg by auto
  obtain ys where ys: "qsort seg_cmp 16 ?xs 0 (length ?xs) = Some ys" "mset ys = mset ?xs" "sorted_wrt (\<le>) (map seg_start ys)"
    using sorted_segments [OF small] few(1) by auto
  have set: "set ys = desc_segment ps ` set descs" "length ys = length descs"
    using mset_eq_setD [OF ys(2)] mset_eq_length [OF ys(2)] by auto
  note bounds = desc_segment_bounds [OF ps, of d for d]
  have ne: "\<forall>x \<in> set ys. seg_start x < seg_end x" using set(1) bounds(1) devs by auto
  note facts = groups_facts [OF ys(3) ne]
  have unm: "unmapped m (seg_start (desc_segment ps d) * ps)" "unmapped m (seg_end (desc_segment ps d) * ps - 1)"
    "seg_end (desc_segment ps d) * ps < 2 ^ 64" if d: "d \<in> set descs" for d
  proof -
    note b = bounds [of d, OF conjunct1 [OF devs [OF d]] conjunct1 [OF conjunct2 [OF devs [OF d]]]]
    define e where "e = seg_end (desc_segment ps d)"
    have "e * ps - 1 = (ps - 1) + (e - 1) * ps" using ps b(1) by (cases e) (simp_all add: e_def)
    then have "(e * ps - 1) div ps = e - 1" using ps by (simp only: div_mult_self1) simp
    moreover have "(e - 1) * ps < d_start d + d_len d" using b(1) b(3) [of "e - 1"] by (simp add: e_def)
    ultimately show "unmapped m (seg_end (desc_segment ps d) * ps - 1)"
      using free [OF d, of "e * ps - 1"] b(1) by (simp add: e_def seg)
    have "d_start d div ps * ps < d_start d + d_len d"
      using div_times_less_eq_dividend [of "d_start d" ps] devs [OF d] by linarith
    then show "unmapped m (seg_start (desc_segment ps d) * ps)"
      using free [OF d, of "seg_start (desc_segment ps d) * ps"] ps by (simp add: seg)
    show "seg_end (desc_segment ps d) * ps < 2 ^ 64" by (rule b(2))
  qed
  let ?new = "map (group_area ps) (groups ys)"
  have "place_groups ps (groups ys) m = (0, m\<lparr>marea_list := marea_list m @ ?new, marea_room := marea_room m - length (groups ys)\<rparr>)"
    by (rule place_groups_ok [OF ps]) (use facts unm set few(2) in fastforce)+
  then have "periph_memory_init ps descs m = Some (0, m\<lparr>marea_list := marea_list m @ ?new, marea_room := marea_room m - length ?new\<rparr>)"
    using ys(1) few(1) by (simp add: periph_memory_init_def PERIPH_MAX_SEGMENTS_def map_loop_groups)
  moreover have "(\<exists>a \<in> set ?new. ma_start a \<le> p * ps \<and> p * ps < ma_start a + ma_size a)
      \<longleftrightarrow> (\<exists>d \<in> set descs. d_start d div ps \<le> p \<and> p * ps < d_start d + d_len d)" for p
    using facts(3) [of p] facts(4) group_area_page [OF ps] set(1) bounds(3) devs seg by auto
  moreover have "sorted_wrt (\<lambda>a b. ma_start a + ma_size a < ma_start b) ?new"
    unfolding sorted_wrt_map using facts(1)
    by (rule sorted_wrt_mono_rel [rotated]) (use facts(4) group_area_less [OF ps] in blast)
  moreover have "\<forall>a \<in> set ?new. ps dvd ma_start a \<and> ps dvd ma_size a \<and> ma_flags a = PERIPH_PROT"
    by (auto simp: group_area_def)
  ultimately show ?thesis by blast
qed

theorem periph_memory_maps_devices_witness:
  "\<exists>new. periph_memory_init 0x1000
       [\<lparr>d_start = 0x9000, d_len = 0x100\<rparr>, \<lparr>d_start = 0x3F00, d_len = 0x200\<rparr>, \<lparr>d_start = 0x5000, d_len = 0x1000\<rparr>]
       \<lparr>marea_list = [], marea_room = 8\<rparr>
     = Some (0, \<lparr>marea_list = new, marea_room = 8 - length new\<rparr>)
   \<and> sorted_wrt (\<lambda>a b. ma_start a + ma_size a < ma_start b) new"
proof -
  let ?ds = "[\<lparr>d_start = 0x9000, d_len = 0x100\<rparr>, \<lparr>d_start = 0x3F00, d_len = 0x200\<rparr>, \<lparr>d_start = 0x5000, d_len = 0x1000\<rparr>]"
    and ?m = "\<lparr>marea_list = [], marea_room = 8\<rparr>"
  have "0 < d_len d \<and> d_start d + d_len d + 0x1000 < 2 ^ 64 \<and> d_start d div 0x1000 < 2 ^ 31" if "d \<in> set ?ds" for d
    using that by auto
  from periph_memory_maps_devices [of "0x1000" ?ds ?m, OF _ _ _ this] show ?thesis
    by (auto simp: unmapped_def)
qed

end
