(* ===== verification/Spec2Isabelle.thy ===== *)
theory Spec2Isabelle
  imports Page_Alloc Dlist_Ptr Pool Ring Msg_Buff Indexator Sched_SMP Crc B64 Des Sha1 Md5 Rpc_Msg Periph_Mem
begin

text \<open>
  A verification library for embox.

  \<^item> \<^verbatim>\<open>Bitmap\<close>: \<^verbatim>\<open>lib/libds/bit\<close>, \<^verbatim>\<open>lib/libds/bitmap\<close>
  \<^item> \<^verbatim>\<open>Page_Alloc\<close>: \<^verbatim>\<open>mem/pagealloc/bitmask.c\<close>
  \<^item> \<^verbatim>\<open>Dlist_Ptr\<close>: \<^verbatim>\<open>lib/libds/dlist\<close>
  \<^item> \<^verbatim>\<open>Pool\<close>: \<^verbatim>\<open>mem/misc/pool.c\<close>, \<^verbatim>\<open>lib/libds/slist\<close>
\<close>

end
